(* ===== verification/Prelude.thy ===== *)
theory Prelude
  imports Main "HOL-Library.Word" "HOL-Library.Monad_Syntax"
begin

text \<open>
  Shared vocabulary of the development: the widths of the C integers, the error numbers,
  and the calculus of key prefixes on which every radix-like structure of the repository
  rests.  A 64-bit key is read through \<open>up e k\<close>, the number made of its bits from
  position \<open>e\<close> upwards; prefix tests, slice indices and the order of keys all become
  statements about \<open>up\<close>.

  Fallible or possibly non-returning C code is modelled in the \<open>option\<close> monad:
  \<open>None\<close> stands for ``does not return normally'' (a NULL or dangling pointer is
  dereferenced, a block is freed twice, a lock that is already held is taken again, an
  assertion fails, or a loop runs forever).
\<close>

unbundle bit_operations_syntax

type_synonym u8 = "8 word"
type_synonym u32 = "32 word"
type_synonym u64 = "64 word"

text \<open>A C pointer, and a \<open>void *\<close> value, is a 64-bit word; NULL is 0.\<close>

type_synonym ptr = "64 word"

abbreviation (input) NULL :: ptr where "NULL \<equiv> 0"

definition ENOMEM :: int where "ENOMEM = 12"
definition EEXIST :: int where "EEXIST = 17"

named_theorems bits_simps \<open>bit-level facts turned into statements about \<open>up\<close>\<close>
named_theorems heap_simps \<open>reads of an updated heap\<close>

subsection \<open>Prefixes of keys\<close>

definition up :: "nat \<Rightarrow> u64 \<Rightarrow> nat" where
  "up e k = unat k div 2 ^ e"

lemma unat_drop_bit64: "unat (drop_bit e (k::u64)) = up e k"
  by (simp add: up_def unat_drop_bit_eq) (simp add: drop_bit_eq_div)

lemma up_mono: "k \<le> k' \<Longrightarrow> up e k \<le> up e k'"
  by (simp add: up_def div_le_mono word_le_nat_alt)

lemma up_less: "up e k < up e k' \<Longrightarrow> k < k'"
  by (meson leD not_le_imp_less up_mono)

lemma up_add: "up (e + d) k = up e k div 2 ^ d"
  by (simp add: up_def div_mult2_eq power_add)

lemma up_0 [simp]: "up 0 k = unat k"
  by (simp add: up_def)

lemma up_eq_mono: "up e k = up e k' \<Longrightarrow> e \<le> e' \<Longrightarrow> up e' k = up e' k'"
  by (metis le_add_diff_inverse up_add)

lemma up_drop_bit: "up e k = up e k' \<longleftrightarrow> drop_bit e k = drop_bit e k'"
  by (metis unat_drop_bit64 word_unat_eq_iff)

lemma up_bit: "up e k = up e k' \<longleftrightarrow> (\<forall>n. e \<le> n \<longrightarrow> bit k n = bit k' n)"
proof
  assume "up e k = up e k'"
  then have "drop_bit e k = drop_bit e k'" by (simp add: up_drop_bit)
  then have "bit (drop_bit e k) m = bit (drop_bit e k') m" for m by simp
  then have "bit k (e + m) = bit k' (e + m)" for m by (simp add: bit_drop_bit_eq)
  then show "\<forall>n. e \<le> n \<longrightarrow> bit k n = bit k' n" by (metis le_add_diff_inverse)
next
  assume "\<forall>n. e \<le> n \<longrightarrow> bit k n = bit k' n"
  then have "drop_bit e k = drop_bit e k'" by (intro bit_eqI) (simp add: bit_drop_bit_eq)
  then show "up e k = up e k'" by (simp add: up_drop_bit)
qed

lemma bit_u64_high: "64 \<le> n \<Longrightarrow> \<not> bit (x::u64) n"
  using bit_imp_le_length [of x n] by auto

lemma u64_eq_iff_bits: "x = y \<longleftrightarrow> (\<forall>n. bit (x::u64) n = bit y n)"
  by (auto intro: bit_eqI)

lemma all_shifted: "(\<forall>m\<ge>a. P (s + m)) \<longleftrightarrow> (\<forall>n\<ge>s + a. P (n::nat))"
proof (intro iffI allI impI)
  fix n assume "\<forall>m\<ge>a. P (s + m)" and "s + a \<le> n"
  then have "P (s + (n - s))" by (metis le_diff_conv2 add.commute add_leE)
  with \<open>s + a \<le> n\<close> show "P n" by simp
qed simp

lemma up_split: "up s k = 16 * up (s + 4) k + up s k mod 16"
  by (simp add: up_add [of s 4])

lemma up_eq_split: "up s k = up s k' \<longleftrightarrow> up (s + 4) k = up (s + 4) k' \<and> up s k mod 16 = up s k' mod 16"
  by (metis up_split up_eq_mono le_add1)

subsection \<open>Lists by index\<close>

lemma bex_set_nth: "(\<exists>x\<in>set xs. P x) \<longleftrightarrow> (\<exists>j<length xs. P (xs ! j))"
  by (metis in_set_conv_nth)

lemma ex_nth_split:
  "i < length xs \<Longrightarrow> (\<exists>j<length xs. P (xs ! j)) \<longleftrightarrow> P (xs ! i) \<or> (\<exists>j<length xs. j \<noteq> i \<and> P (xs ! j))"
  by blast

lemma ex_nth_update:
  "i < length xs \<Longrightarrow>
   (\<exists>j<length xs. P (xs[i := x] ! j)) \<longleftrightarrow> P x \<or> (\<exists>j<length xs. j \<noteq> i \<and> P (xs ! j))"
  by (metis nth_list_update_eq nth_list_update_neq)

lemma distinct_concat_nth:
  "distinct (concat xss) \<longleftrightarrow>
     (\<forall>i<length xss. distinct (xss ! i)) \<and>
     (\<forall>i<length xss. \<forall>j<length xss. i \<noteq> j \<longrightarrow> set (xss ! i) \<inter> set (xss ! j) = {})"
proof (induction xss)
  case (Cons xs xss)
  have u: "set xs \<inter> set (concat xss) = {} \<longleftrightarrow> (\<forall>j<length xss. set xs \<inter> set (xss ! j) = {})"
    by (auto simp: in_set_conv_nth disjoint_iff) (metis nth_mem)+
  show ?case
    unfolding concat.simps distinct_append Cons.IH u
    by (simp add: All_less_Suc2 Int_commute) blast
qed simp

lemma filter_two_indices:
  assumes "filter P xs = x # y # zs"
  shows "\<exists>i<length xs. \<exists>j<length xs. i \<noteq> j \<and> P (xs ! i) \<and> P (xs ! j)"
proof -
  obtain us vs where u: "xs = us @ x # vs" "P x" "y # zs = filter P vs"
    using filter_eq_ConsD [OF assms] by auto
  then obtain us' vs' where v: "vs = us' @ y # vs'" "P y"
    using filter_eq_ConsD [OF u(3) [symmetric]] by auto
  have "xs ! length us = x" "xs ! (length us + 1 + length us') = y"
    using u v by (simp_all add: nth_append)
  with u v show ?thesis
    by (intro exI [of _ "length us"] conjI exI [of _ "length us + 1 + length us'"]) auto
qed

end
