(* ===== verification/Util_Bits.thy ===== *)
theory Util_Bits
  imports Prelude
begin

text \<open>
  The bit scan of \<open>src/util.h\<close> that \<open>critnib_insert\<close> uses to find the nibble at
  which two keys part: \<open>util_mssb_index64\<close>, the index of the most significant set bit,
  and its specification.  On 0 the C macro is undefined; callers guard against it.
\<close>

fun clz_scan :: "nat \<Rightarrow> u64 \<Rightarrow> nat" where
  "clz_scan 0 v = 0"
| "clz_scan (Suc n) v = (if bit v n then 0 else Suc (clz_scan n v))"

text \<open>\<open>__builtin_clzll\<close>: the number of leading zero bits.\<close>

definition builtin_clzll :: "u64 \<Rightarrow> nat" where
  "builtin_clzll v = clz_scan 64 v"

definition util_mssb_index64 :: "u64 \<Rightarrow> u8" where
  "util_mssb_index64 v = 63 - of_nat (builtin_clzll v)"

lemma clz_scan_spec:
  assumes "\<exists>i<n. bit v i"
  shows "clz_scan n v < n \<and> bit v (n - 1 - clz_scan n v) \<and> (\<forall>i. n - 1 - clz_scan n v < i \<and> i < n \<longrightarrow> \<not> bit v i)"
  using assms
proof (induction n)
  case (Suc n)
  show ?case
  proof (cases "bit v n")
    case False
    with Suc have "\<exists>i<n. bit v i" by (metis less_Suc_eq)
    with Suc.IH have IH: "clz_scan n v < n" "bit v (n - 1 - clz_scan n v)"
      "\<forall>i. n - 1 - clz_scan n v < i \<and> i < n \<longrightarrow> \<not> bit v i" by auto
    moreover have "Suc n - 1 - clz_scan (Suc n) v = n - 1 - clz_scan n v"
      using False by simp
    ultimately show ?thesis using False by (auto simp: less_Suc_eq)
  qed auto
qed simp

lemma mssb_spec:
  assumes "v \<noteq> 0"
  shows "unat (util_mssb_index64 v) < 64" and "bit v (unat (util_mssb_index64 v))"
    and "\<And>i. unat (util_mssb_index64 v) < i \<Longrightarrow> \<not> bit v i"
proof -
  have ex: "\<exists>i<64. bit v i"
  proof (rule ccontr)
    assume "\<not> (\<exists>i<64. bit v i)"
    then have "bit v i = bit 0 i" for i
      using bit_imp_le_length [of v i] by auto
    then have "v = 0" by (intro bit_eqI) simp
    with assms show False ..
  qed
  from clz_scan_spec [OF ex]
  have c: "builtin_clzll v < 64" "bit v (63 - builtin_clzll v)"
    "\<forall>i. 63 - builtin_clzll v < i \<and> i < 64 \<longrightarrow> \<not> bit v i"
    by (auto simp: builtin_clzll_def)
  have "63 - of_nat (builtin_clzll v) = (of_nat (63 - builtin_clzll v) :: u8)"
    using c(1) by (simp add: of_nat_diff)
  then have m: "unat (util_mssb_index64 v) = 63 - builtin_clzll v"
    by (simp add: util_mssb_index64_def unat_of_nat)
  show "unat (util_mssb_index64 v) < 64" "bit v (unat (util_mssb_index64 v))"
    using c m by auto
  show "\<And>i. unat (util_mssb_index64 v) < i \<Longrightarrow> \<not> bit v i"
    using c(3) m bit_imp_le_length by fastforce
qed

lemma and_not_3: "unat ((w::'l::len word) AND NOT 3) = unat w - unat w mod 4"
proof -
  have m: "(3::'l word) = mask 2" by (simp add: mask_eq_exp_minus_1)
  have "(w AND NOT 3) + take_bit 2 w = (w AND NOT 3) OR take_bit 2 w"
    by (intro disjunctive_add_eq_or bit_eqI) (auto simp: m bit_simps)
  also have "\<dots> = w"
    by (intro bit_eqI) (auto simp: m bit_simps)
  finally have "w AND NOT 3 = w - take_bit 2 w" by (simp add: eq_diff_eq)
  moreover have "unat (take_bit 2 w) = unat w mod 4"
    by (simp only: unsigned_take_bit_eq) (simp add: take_bit_eq_mod)
  moreover have "take_bit 2 w \<le> w"
    by (simp only: word_le_nat_alt unsigned_take_bit_eq) (simp add: take_bit_eq_mod)
  ultimately show ?thesis
    by (simp add: unat_sub)
qed

lemma xor_zero_iff: "(a::u64) XOR b = 0 \<longleftrightarrow> a = b"
proof
  assume "a XOR b = 0"
  then have "(a XOR b) XOR b = b" by simp
  then show "a = b" by (simp add: xor.assoc)
qed simp

lemma xor_mssb_up:
  assumes "a \<noteq> b"
  shows "up (Suc (unat (util_mssb_index64 (a XOR b)))) a = up (Suc (unat (util_mssb_index64 (a XOR b)))) b"
   and "up (unat (util_mssb_index64 (a XOR b))) a \<noteq> up (unat (util_mssb_index64 (a XOR b))) b"
proof -
  have nz: "a XOR b \<noteq> 0" using assms by (simp add: xor_zero_iff)
  show "up (Suc (unat (util_mssb_index64 (a XOR b)))) a = up (Suc (unat (util_mssb_index64 (a XOR b)))) b"
    using mssb_spec(3) [OF nz] by (auto simp: up_bit bit_xor_iff Suc_le_eq)
  show "up (unat (util_mssb_index64 (a XOR b))) a \<noteq> up (unat (util_mssb_index64 (a XOR b))) b"
    using mssb_spec(2) [OF nz] by (auto simp: up_bit bit_xor_iff)
qed

end
