(* ===== verification/Critnib_Model.thy ===== *)
theory Critnib_Model
  imports Util_Bits
begin

text \<open>
  The operations of \<open>src/critnib.c\<close>, on an explicit heap.

  \<^item> A \<open>struct critnib_node\<close> and a \<open>struct critnib_leaf\<close> are records that live in
    a typed heap, a partial map from addresses to blocks; \<open>struct critnib\<close> is the record
    \<open>critnib\<close>, with its mutex as the flag ``held''.
  \<^item> Child pointers are 64-bit words, a pointer to a leaf tagged in its lowest bit.
  \<^item> A \<open>struct critnib_node **\<close> is a \<open>slot\<close>: the root field or one child field.
  \<^item> \<open>Malloc\<close> is an argument: what it returns (NULL or an address) and the
    indeterminate contents of the block it returns.
  \<^item> The field \<open>shift\<close> is \<open>sh_t\<close> (8 bits) here and \<open>int32_t\<close> in
    \<open>src/critnib-tag.c\<close>: the type of the field is a parameter.
\<close>

subsection \<open>Data\<close>

definition DELETED_LIFE :: u64 where "DELETED_LIFE = 16"
definition NIB :: u64 where "NIB = 15"
definition SLNODES :: nat where "SLNODES = 16"

record 'w critnib_node =
  child :: "ptr list"
  path :: u64
  shift :: 'w

record critnib_leaf =
  key :: u64
  val :: ptr

record critnib =
  root :: ptr
  deleted_node :: ptr
  deleted_leaf :: ptr
  pending_del_nodes :: "ptr list"
  pending_del_leaves :: "ptr list"
  remove_count :: u64
  mutex :: bool

record 'w heap =
  nodes :: "ptr \<rightharpoonup> 'w critnib_node"
  leaves :: "ptr \<rightharpoonup> critnib_leaf"

type_synonym 'w cstate = "'w heap \<times> critnib"

datatype slot = Root | Child ptr nat

record 'w allocator =
  malloc_node :: "'w heap \<Rightarrow> ptr \<times> 'w critnib_node"
  malloc_leaf :: "'w heap \<Rightarrow> ptr \<times> critnib_leaf"
  malloc_critnib :: "'w heap \<Rightarrow> ptr"

subsection \<open>Pointers, masks and slices\<close>

definition is_leaf :: "ptr \<Rightarrow> bool" where
  "is_leaf n \<longleftrightarrow> n AND 1 \<noteq> 0"

definition to_leaf :: "ptr \<Rightarrow> ptr" where
  "to_leaf n = n AND NOT 1"

definition path_mask :: "'l::len word \<Rightarrow> u64" where
  "path_mask sh = push_bit (unat sh) (NOT NIB)"

definition slice_index :: "u64 \<Rightarrow> 'l::len word \<Rightarrow> nat" where
  "slice_index k sh = unat (drop_bit (unat sh) k AND NIB)"

subsection \<open>Memory accesses\<close>

definition set_node :: "ptr \<Rightarrow> 'w critnib_node \<Rightarrow> 'w heap \<Rightarrow> 'w heap" where
  "set_node a nd h = h\<lparr>nodes := (nodes h)(a \<mapsto> nd)\<rparr>"

definition set_leaf :: "ptr \<Rightarrow> critnib_leaf \<Rightarrow> 'w heap \<Rightarrow> 'w heap" where
  "set_leaf a lf h = h\<lparr>leaves := (leaves h)(a \<mapsto> lf)\<rparr>"

text \<open>\<open>store(parent, src)\<close>; the sequential effect of the release store.\<close>

fun store :: "slot \<Rightarrow> ptr \<Rightarrow> 'w cstate \<Rightarrow> 'w cstate option" where
  "store Root src (h, c) = Some (h, c\<lparr>root := src\<rparr>)"
| "store (Child n i) src (h, c) = do {
     nd \<leftarrow> nodes h n;
     Some (set_node n (nd\<lparr>child := (child nd)[i := src]\<rparr>) h, c)
   }"

text \<open>\<open>Free\<close>: NULL is ignored, a pointer that is not an allocated block is an error.\<close>

definition Free_node :: "ptr \<Rightarrow> 'w heap \<Rightarrow> 'w heap option" where
  "Free_node n h =
     (if n = NULL then Some h
      else if nodes h n = None then None
      else Some (h\<lparr>nodes := (nodes h)(n := None)\<rparr>))"

definition Free_leaf :: "ptr \<Rightarrow> 'w heap \<Rightarrow> 'w heap option" where
  "Free_leaf k h =
     (if k = NULL then Some h
      else if leaves h k = None then None
      else Some (h\<lparr>leaves := (leaves h)(k := None)\<rparr>))"

text \<open>The mutex: taking a held lock never returns in a sequential run.\<close>

fun lock :: "'w cstate \<Rightarrow> 'w cstate option" where
  "lock (h, c) = (if mutex c then None else Some (h, c\<lparr>mutex := True\<rparr>))"

fun unlock :: "'w cstate \<Rightarrow> 'w cstate" where
  "unlock (h, c) = (h, c\<lparr>mutex := False\<rparr>)"

subsection \<open>Construction and destruction\<close>

text \<open>\<open>Zalloc\<close> zeroes the struct; NULL is returned when \<open>Malloc\<close> fails.\<close>

definition critnib_new :: "'w allocator \<Rightarrow> 'w heap \<Rightarrow> 'w cstate option" where
  "critnib_new mal h =
     (if malloc_critnib mal h = NULL then None
      else Some (h, \<lparr>root = NULL, deleted_node = NULL, deleted_leaf = NULL,
                     pending_del_nodes = replicate 16 NULL,
                     pending_del_leaves = replicate 16 NULL,
                     remove_count = 0, mutex = False\<rparr>))"

text \<open>
  \<open>delete_node h n i\<close> is the body of \<open>delete_node(n)\<close> from the loop iteration
  \<open>i\<close> on; the call is \<open>delete_node h n 0\<close>.
\<close>

partial_function (option) delete_node :: "'w heap \<Rightarrow> ptr \<Rightarrow> nat \<Rightarrow> 'w heap option" where
  [code]: "delete_node h n i =
     (if is_leaf n then Free_leaf (to_leaf n) h
      else if i < SLNODES then do {
        nd \<leftarrow> nodes h n;
        if child nd ! i \<noteq> NULL then do {
          h' \<leftarrow> delete_node h (child nd ! i) 0;
          delete_node h' n (Suc i)
        } else delete_node h n (Suc i)
      } else Free_node n h)"

partial_function (option) free_deleted_nodes :: "'w heap \<Rightarrow> ptr \<Rightarrow> 'w heap option" where
  [code]: "free_deleted_nodes h m =
     (if m = NULL then Some h
      else do {
        nd \<leftarrow> nodes h m;
        let mm = child nd ! 0;
        h' \<leftarrow> Free_node m h;
        free_deleted_nodes h' mm
      })"

partial_function (option) free_deleted_leaves :: "'w heap \<Rightarrow> ptr \<Rightarrow> 'w heap option" where
  [code]: "free_deleted_leaves h k =
     (if k = NULL then Some h
      else do {
        lf \<leftarrow> leaves h k;
        let kk = val lf;
        h' \<leftarrow> Free_leaf k h;
        free_deleted_leaves h' kk
      })"

fun free_pending :: "ptr list \<Rightarrow> ptr list \<Rightarrow> 'w heap \<Rightarrow> 'w heap option" where
  "free_pending (n # ns) (k # ks) h = do {
     h \<leftarrow> Free_node n h;
     h \<leftarrow> Free_leaf k h;
     free_pending ns ks h
   }"
| "free_pending _ _ h = Some h"

text \<open>
  The struct itself is freed last: the result is the heap that is left.  Destroying a held
  mutex is undefined.
\<close>

fun critnib_delete :: "'w cstate \<Rightarrow> 'w heap option" where
  "critnib_delete (h, c) = do {
     h \<leftarrow> (if root c \<noteq> NULL then delete_node h (root c) 0 else Some h);
     h \<leftarrow> (if mutex c then None else Some h);
     h \<leftarrow> free_deleted_nodes h (deleted_node c);
     h \<leftarrow> free_deleted_leaves h (deleted_leaf c);
     free_pending (pending_del_nodes c) (pending_del_leaves c) h
   }"

subsection \<open>The pools of freed nodes and leaves\<close>

fun free_node :: "ptr \<Rightarrow> 'w cstate \<Rightarrow> 'w cstate option" where
  "free_node n (h, c) =
     (if n = NULL then Some (h, c)
      else if is_leaf n then None \<comment> \<open>ASSERT\<close>
      else do {
        nd \<leftarrow> nodes h n;
        Some (set_node n (nd\<lparr>child := (child nd)[0 := deleted_node c]\<rparr>) h,
              c\<lparr>deleted_node := n\<rparr>)
      })"

fun alloc_node :: "'w allocator \<Rightarrow> 'w cstate \<Rightarrow> (ptr \<times> 'w cstate) option" where
  "alloc_node mal (h, c) =
     (if deleted_node c = NULL then
        (let (a, nd) = malloc_node mal h
         in Some (a, if a = NULL then (h, c) else (set_node a nd h, c)))
      else do {
        let n = deleted_node c;
        nd \<leftarrow> nodes h n;
        Some (n, (h, c\<lparr>deleted_node := child nd ! 0\<rparr>))
      })"

fun free_leaf :: "ptr \<Rightarrow> 'w cstate \<Rightarrow> 'w cstate option" where
  "free_leaf k (h, c) =
     (if k = NULL then Some (h, c)
      else do {
        lf \<leftarrow> leaves h k;
        Some (set_leaf k (lf\<lparr>val := deleted_leaf c\<rparr>) h, c\<lparr>deleted_leaf := k\<rparr>)
      })"

fun alloc_leaf :: "'w allocator \<Rightarrow> 'w cstate \<Rightarrow> (ptr \<times> 'w cstate) option" where
  "alloc_leaf mal (h, c) =
     (if deleted_leaf c = NULL then
        (let (a, lf) = malloc_leaf mal h
         in Some (a, if a = NULL then (h, c) else (set_leaf a lf h, c)))
      else do {
        let k = deleted_leaf c;
        lf \<leftarrow> leaves h k;
        Some (k, (h, c\<lparr>deleted_leaf := val lf\<rparr>))
      })"

subsection \<open>Insertion\<close>

text \<open>
  The descent of \<open>critnib_insert\<close>: it stops at NULL, at a leaf, or at a node whose path
  differs from the key, and yields \<open>n\<close>, \<open>parent\<close> and \<open>prev\<close>.
\<close>

partial_function (option) insert_descend ::
  "'l::len word heap \<Rightarrow> u64 \<Rightarrow> ptr \<Rightarrow> slot \<Rightarrow> ptr \<Rightarrow> (ptr \<times> slot \<times> ptr) option" where
  [code]: "insert_descend h k n parent prev =
     (if n \<noteq> NULL \<and> \<not> is_leaf n then do {
        nd \<leftarrow> nodes h n;
        if k AND path_mask (shift nd) = path nd
        then insert_descend h k (child nd ! slice_index k (shift nd))
               (Child n (slice_index k (shift nd))) n
        else Some (n, parent, prev)
      } else Some (n, parent, prev))"

definition node_path :: "'w heap \<Rightarrow> ptr \<Rightarrow> u64 option" where
  "node_path h n =
     (if is_leaf n then map_option key (leaves h (to_leaf n)) else map_option path (nodes h n))"

text \<open>
  The second half of \<open>critnib_insert\<close>, for a tree that is not empty: \<open>kn\<close> is the tagged
  pointer to the new leaf.
\<close>

definition insert_link ::
  "'l::len word allocator \<Rightarrow> u64 \<Rightarrow> ptr \<Rightarrow> 'l word cstate \<Rightarrow> (int \<times> 'l word cstate) option" where
  "insert_link mal k kn s = do {
     let (h, c) = s;
     (n, parent, prev) \<leftarrow> insert_descend h k (root c) Root (root c);
     if n = NULL then do {
       nd \<leftarrow> nodes h prev;
       s \<leftarrow> store (Child prev (slice_index k (shift nd))) kn (h, c);
       Some (0, unlock s)
     } else do {
       p \<leftarrow> node_path h n;
       let at = p XOR k;
       if at = 0 then
         (if \<not> is_leaf n then None \<comment> \<open>ASSERT\<close>
          else do {
            s \<leftarrow> free_leaf (to_leaf kn) (h, c);
            Some (EEXIST, unlock s)
          })
       else do {
         let sh = ucast (util_mssb_index64 at) AND NOT (3 :: 'l word);
         (m, s) \<leftarrow> alloc_node mal (h, c);
         if m = NULL then do {
           s \<leftarrow> free_leaf (to_leaf kn) s;
           Some (ENOMEM, unlock s)
         } else do {
           let (h, c) = s;
           nd \<leftarrow> nodes h m;
           let nd = nd\<lparr>child := (replicate SLNODES NULL)
                                 [slice_index k sh := kn, slice_index p sh := n],
                       shift := sh, path := k AND path_mask sh\<rparr>;
           s \<leftarrow> store parent m (set_node m nd h, c);
           Some (0, unlock s)
         }
       }
     }
   }"

definition critnib_insert ::
  "'l::len word allocator \<Rightarrow> u64 \<Rightarrow> ptr \<Rightarrow> 'l word cstate \<Rightarrow> (int \<times> 'l word cstate) option" where
  "critnib_insert mal k v s = do {
     s \<leftarrow> lock s;
     (kl, s) \<leftarrow> alloc_leaf mal s;
     if kl = NULL then Some (ENOMEM, unlock s)
     else do {
       let (h, c) = s;
       lf \<leftarrow> leaves h kl;
       let h = set_leaf kl (lf\<lparr>key := k, val := v\<rparr>) h;
       let kn = kl OR 1;
       if root c = NULL then Some (0, unlock (h, c\<lparr>root := kn\<rparr>))
       else insert_link mal k kn (h, c)
     }
   }"

subsection \<open>Removal\<close>

text \<open>
  The descent of \<open>critnib_remove\<close>: \<open>Some None\<close> is the early return at a NULL child,
  otherwise the leaf reached (\<open>kn\<close>), its parent \<open>n\<close> and \<open>n_parent\<close>.
\<close>

partial_function (option) remove_descend ::
  "'l::len word heap \<Rightarrow> u64 \<Rightarrow> ptr \<Rightarrow> slot \<Rightarrow> ptr \<Rightarrow> slot \<Rightarrow> (ptr \<times> ptr \<times> slot) option option"
where
  [code]: "remove_descend h k kn k_parent n n_parent =
     (if is_leaf kn then Some (Some (kn, n, n_parent))
      else do {
        nd \<leftarrow> nodes h kn;
        let i = slice_index k (shift nd);
        let kn' = child nd ! i;
        if kn' = NULL then Some None
        else remove_descend h k kn' (Child kn i) kn k_parent
      })"

text \<open>
  The search for the only remaining child, over the children from index \<open>i\<close> on:
  \<open>None\<close> when a second one is found.
\<close>

fun scan_ochild :: "ptr list \<Rightarrow> nat \<Rightarrow> int \<Rightarrow> int option" where
  "scan_ochild [] i ochild = Some ochild"
| "scan_ochild (p # ps) i ochild =
     (if p \<noteq> NULL then (if ochild \<noteq> -1 then None else scan_ochild ps (Suc i) (int i))
      else scan_ochild ps (Suc i) ochild)"

text \<open>
  The end of \<open>critnib_remove\<close>: the leaf \<open>kn\<close> that the descent reached is unlinked from its
  parent \<open>n\<close> if it holds the key, and the parent is replaced by its only remaining child when
  there is just one.
\<close>

definition remove_unlink ::
  "u64 \<Rightarrow> nat \<Rightarrow> ptr \<Rightarrow> ptr \<Rightarrow> slot \<Rightarrow> 'l::len word cstate \<Rightarrow> (ptr \<times> 'l word cstate) option" where
  "remove_unlink k del kn n n_parent s = do {
     let (h, c) = s;
     lf \<leftarrow> leaves h (to_leaf kn);
     if key lf \<noteq> k then Some (NULL, unlock (h, c))
     else do {
       nd \<leftarrow> nodes h n;
       (h, c) \<leftarrow> store (Child n (slice_index k (shift nd))) NULL (h, c);
       nd \<leftarrow> nodes h n;
       case scan_ochild (child nd) 0 (-1) of
         None \<Rightarrow>
           Some (val lf, unlock (h, c\<lparr>pending_del_leaves :=
             (pending_del_leaves c)[del := to_leaf kn]\<rparr>))
       | Some ochild \<Rightarrow>
           (if ochild = -1 then None \<comment> \<open>ASSERTne\<close>
            else do {
              (h, c) \<leftarrow> store n_parent (child nd ! nat ochild) (h, c);
              Some (val lf, unlock (h, c\<lparr>
                pending_del_nodes := (pending_del_nodes c)[del := n],
                pending_del_leaves := (pending_del_leaves c)[del := to_leaf kn]\<rparr>))
            })
     }
   }"

definition critnib_remove :: "u64 \<Rightarrow> 'l::len word cstate \<Rightarrow> (ptr \<times> 'l word cstate) option" where
  "critnib_remove k s = do {
     (h, c) \<leftarrow> lock s;
     let n = root c;
     if n = NULL then Some (NULL, unlock (h, c))
     else do {
       let del = unat (remove_count c mod DELETED_LIFE);
       let c = c\<lparr>remove_count := remove_count c + 1\<rparr>;
       s \<leftarrow> free_node (pending_del_nodes c ! del) (h, c);
       (h, c) \<leftarrow> free_leaf (pending_del_leaves c ! del) s;
       let c = c\<lparr>pending_del_nodes := (pending_del_nodes c)[del := NULL],
                 pending_del_leaves := (pending_del_leaves c)[del := NULL]\<rparr>;
       if is_leaf n then do {
         lf \<leftarrow> leaves h (to_leaf n);
         if key lf = k then
           Some (val lf, unlock (h, c\<lparr>root := NULL,
             pending_del_leaves := (pending_del_leaves c)[del := to_leaf n]\<rparr>))
         else Some (NULL, unlock (h, c))
       } else do {
         r \<leftarrow> remove_descend h k n Root n Root;
         case r of
           None \<Rightarrow> Some (NULL, unlock (h, c))
         | Some (kn, n, n_parent) \<Rightarrow> remove_unlink k del kn n n_parent (h, c)
       }
     }
   }"

subsection \<open>Queries\<close>

partial_function (option) get_descend :: "'l::len word heap \<Rightarrow> u64 \<Rightarrow> ptr \<Rightarrow> ptr option" where
  [code]: "get_descend h k n =
     (if n \<noteq> NULL \<and> \<not> is_leaf n then do {
        nd \<leftarrow> nodes h n;
        get_descend h k (child nd ! slice_index k (shift nd))
      } else Some n)"

definition get_once :: "'l::len word heap \<Rightarrow> u64 \<Rightarrow> ptr \<Rightarrow> ptr option" where
  "get_once h k r = do {
     n \<leftarrow> get_descend h k r;
     if n = NULL then Some NULL
     else do {
       lf \<leftarrow> leaves h (to_leaf n);
       Some (if key lf = k then val lf else NULL)
     }
   }"

text \<open>
  The retry loop: without concurrent writers both loads of \<open>remove_count\<close> give the same
  value, and the comparison is made modulo \<open>2\<^sup>6\<^sup>4\<close>.
\<close>

partial_function (option) critnib_get :: "u64 \<Rightarrow> 'l::len word cstate \<Rightarrow> ptr option" where
  [code]: "critnib_get k s = do {
     let (h, c) = s;
     let wrs1 = remove_count c;
     res \<leftarrow> get_once h k (root c);
     let wrs2 = remove_count c;
     if wrs1 + DELETED_LIFE \<le> wrs2 then critnib_get k s else Some res
   }"

text \<open>The loop \<open>for (nib = n - 1; nib >= 0; nib--)\<close> that stops at a non-NULL child.\<close>

fun scan_down :: "ptr list \<Rightarrow> nat \<Rightarrow> nat option" where
  "scan_down cs 0 = None"
| "scan_down cs (Suc n) = (if cs ! n \<noteq> NULL then Some n else scan_down cs n)"

partial_function (option) find_successor :: "'w heap \<Rightarrow> ptr \<Rightarrow> ptr option" where
  [code]: "find_successor h n = do {
     nd \<leftarrow> nodes h n;
     case scan_down (child nd) SLNODES of
       None \<Rightarrow> Some NULL
     | Some nib \<Rightarrow>
         (if is_leaf (child nd ! nib)
          then map_option val (leaves h (to_leaf (child nd ! nib)))
          else find_successor h (child nd ! nib))
   }"

partial_function (option) find_le :: "'l::len word heap \<Rightarrow> ptr \<Rightarrow> u64 \<Rightarrow> ptr option" where
  [code]: "find_le h n k =
     (if n = NULL then Some NULL
      else if is_leaf n then do {
        lf \<leftarrow> leaves h (to_leaf n);
        Some (if key lf \<le> k then val lf else NULL)
      } else do {
        nd \<leftarrow> nodes h n;
        if drop_bit (unat (shift nd)) (k XOR path nd) AND NOT NIB \<noteq> 0 then
          (if path nd < k then find_successor h n else Some NULL)
        else do {
          let nib = slice_index k (shift nd);
          v \<leftarrow> find_le h (child nd ! nib) k;
          if v \<noteq> NULL then Some v
          else (case scan_down (child nd) nib of
              None \<Rightarrow> Some NULL
            | Some j \<Rightarrow>
                (if is_leaf (child nd ! j)
                 then map_option val (leaves h (to_leaf (child nd ! j)))
                 else find_successor h (child nd ! j)))
        }
      })"

partial_function (option) critnib_find_le :: "u64 \<Rightarrow> 'l::len word cstate \<Rightarrow> ptr option" where
  [code]: "critnib_find_le k s = do {
     let (h, c) = s;
     let wrs1 = remove_count c;
     res \<leftarrow> (if root c \<noteq> NULL then find_le h (root c) k else Some NULL);
     let wrs2 = remove_count c;
     if wrs1 + DELETED_LIFE \<le> wrs2 then critnib_find_le k s else Some res
   }"

end
