(* ===== verification/Critnib_Tree.thy ===== *)
theory Critnib_Tree
  imports Critnib_Model
begin

text \<open>
  The abstract critnib tree and its reference operations.

  A \<open>ctree\<close> is what a pointer of \<open>src/critnib.c\<close> stands for: NULL, a leaf, or a
  node with its path, shift and sixteen children; addresses are kept so that the tree says
  exactly which blocks it occupies.  \<open>entries\<close> lists the key/value pairs below a
  pointer, \<open>tmap\<close> is the finite map they form.

  \<open>wft\<close> is the structural invariant described at the top of \<open>src/critnib.c\<close>: the
  shift is a multiple of four, the path has no bits at or below the nibble, every key below
  child \<open>i\<close> agrees with the path above the nibble and has nibble \<open>i\<close>, and a node has
  at least two children.  \<open>t_insert\<close> and \<open>t_remove\<close> are the reference insertion and
  removal; both are proved to keep \<open>wft\<close> and to change the set of entries exactly as an
  insertion or removal in a map does.
\<close>

subsection \<open>Masks and slices as prefixes\<close>

lemma NIB_mask: "NIB = mask 4"
  by (simp add: NIB_def mask_eq_exp_minus_1)

lemma slice_index_up [bits_simps]: "slice_index k sh = up (unat sh) k mod 16"
proof -
  have "drop_bit (unat sh) k AND NIB = take_bit 4 (drop_bit (unat sh) k)"
    by (simp add: NIB_mask take_bit_eq_mask)
  then show ?thesis
    by (simp add: slice_index_def unat_mod unat_drop_bit64 take_bit_eq_mod)
qed

lemma slice_index_less [simp]: "slice_index k sh < 16"
  by (simp add: slice_index_up)

lemma bit_path_mask: "bit (path_mask sh) n \<longleftrightarrow> unat sh + 4 \<le> n \<and> n < 64"
  by (auto simp: path_mask_def NIB_mask bit_simps)

lemma masked_eq_iff [bits_simps]:
  "x AND path_mask sh = y AND path_mask sh \<longleftrightarrow> up (unat sh + 4) x = up (unat sh + 4) y"
proof -
  have "bit (x AND path_mask sh) n = bit (y AND path_mask sh) n
      \<longleftrightarrow> (unat sh + 4 \<le> n \<longrightarrow> bit x n = bit y n)" for n
    by (cases "n < 64") (auto simp: bit_and_iff bit_path_mask bit_u64_high)
  then show ?thesis by (simp only: u64_eq_iff_bits up_bit)
qed

lemma outside_iff [bits_simps]:
  "drop_bit (unat sh) (k XOR p) AND NOT NIB = 0 \<longleftrightarrow> up (unat sh + 4) k = up (unat sh + 4) p"
proof -
  have b: "bit (drop_bit (unat sh) (k XOR p) AND NOT NIB) m
      \<longleftrightarrow> 4 \<le> m \<and> bit k (unat sh + m) \<noteq> bit p (unat sh + m)" for m
    by (auto simp: bit_and_iff bit_drop_bit_eq bit_xor_iff bit_not_iff NIB_mask bit_mask_iff
        dest: bit_imp_le_length)
  have z: "\<not> bit (0::u64) m" for m by simp
  have "drop_bit (unat sh) (k XOR p) AND NOT NIB = 0
      \<longleftrightarrow> (\<forall>m\<ge>4. bit k (unat sh + m) = bit p (unat sh + m))"
    by (subst u64_eq_iff_bits) (simp only: b z, blast)
  also have "\<dots> \<longleftrightarrow> (\<forall>n\<ge>unat sh + 4. bit k n = bit p n)"
    by (rule all_shifted)
  finally show ?thesis by (simp only: up_bit)
qed

subsection \<open>Trees\<close>

datatype ctree = Null | Leaf ptr u64 ptr | Node ptr u64 nat "ctree list"

fun entries :: "ctree \<Rightarrow> (u64 \<times> ptr) list" where
  "entries Null = []"
| "entries (Leaf a k v) = [(k, v)]"
| "entries (Node a p s ts) = concat (map entries ts)"

abbreviation Ent :: "ctree \<Rightarrow> (u64 \<times> ptr) set" where "Ent t \<equiv> set (entries t)"

definition keys :: "ctree \<Rightarrow> u64 set" where
  "keys t = fst ` Ent t"

definition tmap :: "ctree \<Rightarrow> u64 \<rightharpoonup> ptr" where
  "tmap t = map_of (entries t)"

fun wft :: "ctree \<Rightarrow> bool" where
  "wft Null = True"
| "wft (Leaf a k v) = True"
| "wft (Node a p s ts) \<longleftrightarrow>
     length ts = 16 \<and> 4 dvd s \<and> s \<le> 60 \<and> unat p mod 2 ^ (s + 4) = 0
     \<and> (\<forall>i<16. \<forall>k\<in>keys (ts ! i). up s k = 16 * up (s + 4) p + i)
     \<and> (\<exists>i<16. \<exists>j<16. i \<noteq> j \<and> ts ! i \<noteq> Null \<and> ts ! j \<noteq> Null)
     \<and> (\<forall>t\<in>set ts. wft t)"

abbreviation idx :: "u64 \<Rightarrow> nat \<Rightarrow> nat" where "idx k s \<equiv> up s k mod 16"

lemma size_nth_tree [termination_simp]: "i < length ts \<Longrightarrow> size (ts ! i) < Suc (size_list size (ts::ctree list))"
  by (metis less_Suc_eq_le nth_mem order_refl size_list_estimation')

text \<open>The subtree at which the descent of an insertion stops, and its replacement.\<close>

fun stop :: "u64 \<Rightarrow> ctree \<Rightarrow> ctree" where
  "stop k (Node a p s ts) =
     (if up (s + 4) k = up (s + 4) p \<and> idx k s < length ts then stop k (ts ! idx k s)
      else Node a p s ts)"
| "stop k t = t"

fun replace :: "u64 \<Rightarrow> ctree \<Rightarrow> ctree \<Rightarrow> ctree" where
  "replace k r (Node a p s ts) =
     (if up (s + 4) k = up (s + 4) p \<and> idx k s < length ts
      then Node a p s (ts[idx k s := replace k r (ts ! idx k s)])
      else r)"
| "replace k r t = r"

subsection \<open>Consequences of well-formedness\<close>

lemma keys_simps [simp]:
  "keys Null = {}" "keys (Leaf a k v) = {k}" "keys (Node a p s ts) = (\<Union>t\<in>set ts. keys t)"
  by (auto simp: keys_def)

lemma keys_nth: "i < length ts \<Longrightarrow> k \<in> keys (ts ! i) \<Longrightarrow> k \<in> keys (Node a p s ts)"
  by auto

lemma Ent_Node_nth: "x \<in> Ent (Node a p s ts) \<longleftrightarrow> (\<exists>j<length ts. x \<in> Ent (ts ! j))"
  by (simp add: bex_set_nth)

lemma keys_Node_nth: "x \<in> keys (Node a p s ts) \<longleftrightarrow> (\<exists>j<length ts. x \<in> keys (ts ! j))"
  by (simp add: bex_set_nth)

lemma wft_NodeD:
  assumes "wft (Node a p s ts)"
  shows "length ts = 16" "4 dvd s" "s \<le> 60" "unat p mod 2 ^ (s + 4) = 0"
    and "i < 16 \<Longrightarrow> wft (ts ! i)"
    and "i < 16 \<Longrightarrow> k \<in> keys (ts ! i) \<Longrightarrow> up s k = 16 * up (s + 4) p + i"
  using assms by simp_all

lemma wft_NodeI:
  assumes "length ts = 16" "4 dvd s" "s \<le> 60" "unat p mod 2 ^ (s + 4) = 0"
    and "\<And>i. i < 16 \<Longrightarrow> wft (ts ! i)"
    and "\<And>i k. i < 16 \<Longrightarrow> k \<in> keys (ts ! i) \<Longrightarrow> up s k = 16 * up (s + 4) p + i"
    and "i < 16" "j < 16" "i \<noteq> j" "ts ! i \<noteq> Null" "ts ! j \<noteq> Null"
  shows "wft (Node a p s ts)"
  unfolding wft.simps all_set_conv_all_nth assms(1) using assms by blast

lemma wft_two_children:
  assumes "wft (Node a p s ts)"
  obtains i j where "i < 16" "j < 16" "i \<noteq> j" "ts ! i \<noteq> Null" "ts ! j \<noteq> Null"
  using assms by auto

lemma wft_in_set: "wft (Node a p s ts) \<Longrightarrow> t \<in> set ts \<Longrightarrow> wft t"
  by simp

declare wft.simps(3) [simp del]

lemma keys_NodeE:
  assumes "wft (Node a p s ts)" "k \<in> keys (Node a p s ts)"
  obtains i where "i < 16" "k \<in> keys (ts ! i)" "up s k = 16 * up (s + 4) p + i"
  using assms wft_NodeD [OF assms(1)] by (metis keys_Node_nth that)

lemma wft_key_prefix:
  assumes "wft (Node a p s ts)" "k \<in> keys (Node a p s ts)"
  shows "up (s + 4) k = up (s + 4) p" and "k \<in> keys (ts ! idx k s)"
proof -
  obtain i where i: "i < 16" "k \<in> keys (ts ! i)" "up s k = 16 * up (s + 4) p + i"
    using keys_NodeE [OF assms] by blast
  then show "up (s + 4) k = up (s + 4) p" by (simp add: up_add)
  have "idx k s = i" using i(1,3) by simp
  with i(2) show "k \<in> keys (ts ! idx k s)" by simp
qed

lemma wft_nonempty: "wft t \<Longrightarrow> t \<noteq> Null \<Longrightarrow> keys t \<noteq> {}"
proof (induction t)
  case (Node a p s ts)
  then obtain i where "i < length ts" "ts ! i \<noteq> Null"
    using wft_two_children wft_NodeD(1) by metis
  then have i: "ts ! i \<in> set ts" "ts ! i \<noteq> Null" by simp_all
  moreover from i Node.prems have "wft (ts ! i)" by (simp add: wft_in_set)
  ultimately have "keys (ts ! i) \<noteq> {}" using Node.IH by blast
  with i show ?case by auto
qed auto

lemma wft_two_keys:
  assumes "wft (Node a p s ts)"
  obtains k k' where "k \<in> keys (Node a p s ts)" "k' \<in> keys (Node a p s ts)" "up s k \<noteq> up s k'"
proof -
  obtain i j where ij: "i < 16" "j < 16" "i \<noteq> j" "ts ! i \<noteq> Null" "ts ! j \<noteq> Null"
    using wft_two_children [OF assms] by metis
  note D = wft_NodeD [OF assms]
  obtain k k' where k: "k \<in> keys (ts ! i)" "k' \<in> keys (ts ! j)"
    using wft_nonempty D(5) ij by (metis all_not_in_conv)
  with ij D(6) have "up s k \<noteq> up s k'" by simp
  moreover have "k \<in> keys (Node a p s ts)" "k' \<in> keys (Node a p s ts)"
    using k ij D(1) keys_nth by metis+
  ultimately show thesis using that by blast
qed

lemma wft_shift_less:
  assumes "wft (Node a p s ts)" "\<forall>k\<in>keys (Node a p s ts). up e k = u"
  shows "s < e"
proof (rule ccontr)
  assume "\<not> s < e"
  moreover obtain k k' where "k \<in> keys (Node a p s ts)" "k' \<in> keys (Node a p s ts)" "up s k \<noteq> up s k'"
    using wft_two_keys [OF assms(1)] by blast
  ultimately show False using assms(2) up_eq_mono [of e k k' s] by auto
qed

lemma up_in_slot:
  "up (s + 4) k = up (s + 4) p \<Longrightarrow> up s k = 16 * up (s + 4) p + idx k s"
  using up_split [of s k] by simp

lemma wft_disjoint:
  assumes "wft (Node a p s ts)" "i < 16" "j < 16" "k \<in> keys (ts ! i)" "k \<in> keys (ts ! j)"
  shows "i = j"
  using assms wft_NodeD(6) [OF assms(1)] by (metis add_left_cancel)

lemma distinct_entries: "wft t \<Longrightarrow> distinct (map fst (entries t))"
proof (induction t)
  case (Node a p s ts)
  have len: "length ts = 16" by (rule wft_NodeD(1) [OF Node.prems])
  then have nth: "i < 16 \<Longrightarrow> ts ! i \<in> set ts" for i by simp
  have "distinct (map fst (entries (ts ! i)))" if "i < 16" for i
    using Node.IH that nth wft_in_set [OF Node.prems] by blast
  moreover have "set (map fst (entries (ts ! i))) \<inter> set (map fst (entries (ts ! j))) = {}"
    if "i < 16" "j < 16" "i \<noteq> j" for i j
    using wft_disjoint [OF Node.prems that(1,2)] that(3) by (auto simp: keys_def)
  ultimately have "distinct (concat (map (map fst \<circ> entries) ts))"
    by (simp add: distinct_concat_nth len)
  then show ?case by (simp add: map_concat)
qed auto

lemma tmap_Some_iff: "wft t \<Longrightarrow> tmap t k = Some v \<longleftrightarrow> (k, v) \<in> Ent t"
  by (simp add: tmap_def distinct_entries)

lemma dom_tmap: "dom (tmap t) = keys t"
  by (simp add: tmap_def keys_def dom_map_of_conv_image_fst)

lemma tmap_eqI: "wft t \<Longrightarrow> (\<And>k v. (k, v) \<in> Ent t \<longleftrightarrow> m k = Some v) \<Longrightarrow> tmap t = m"
  by (metis map_le_antisym map_le_def not_Some_eq option.sel tmap_Some_iff ext)

lemma stop_matches: "wft t \<Longrightarrow> k \<in> keys t \<Longrightarrow> k \<in> keys (stop k t)"
proof (induction k t rule: stop.induct)
  case (1 k a p s ts)
  from wft_key_prefix [OF 1(2,3)] have pre: "up (s + 4) k = up (s + 4) p" "k \<in> keys (ts ! idx k s)" .
  then show ?case using 1(1) wft_NodeD(1,5) [OF 1(2)] by simp
qed auto

lemma wft_stop: "wft t \<Longrightarrow> wft (stop k t)"
  by (induction k t rule: stop.induct) (simp_all add: wft_in_set)

lemma stop_result:
  "wft t \<Longrightarrow> stop k t = Node a p s ts \<Longrightarrow> up (s + 4) k \<noteq> up (s + 4) p"
  by (induction k t rule: stop.induct) (auto simp: wft_NodeD(1) wft_in_set split: if_splits)

lemma Ent_update_child:
  assumes "i < length ts" "Ent t' = insert x (Ent (ts ! i))"
  shows "Ent (Node a p s (ts[i := t'])) = insert x (Ent (Node a p s ts))"
proof (rule set_eqI)
  fix y
  show "y \<in> Ent (Node a p s (ts[i := t'])) \<longleftrightarrow> y \<in> insert x (Ent (Node a p s ts))"
    using assms ex_nth_update [of i ts "\<lambda>t. y \<in> Ent t"] ex_nth_split [of i ts "\<lambda>t. y \<in> Ent t"]
    unfolding Ent_Node_nth insert_iff length_list_update by auto
qed

lemma Ent_keys: "Ent t = insert (k, v) E \<Longrightarrow> keys t = insert k (fst ` E)"
  by (simp add: keys_def)

lemma replace_Ent:
  assumes "wft t" "Ent r = insert (k, v) (Ent (stop k t))"
  shows "Ent (replace k r t) = insert (k, v) (Ent t)"
  using assms
proof (induction k r t rule: replace.induct)
  case (1 k r a p s ts)
  have len: "length ts = 16" by (rule wft_NodeD(1) [OF 1(2)])
  show ?case
  proof (cases "up (s + 4) k = up (s + 4) p")
    case True
    then have "Ent (replace k r (ts ! idx k s)) = insert (k, v) (Ent (ts ! idx k s))"
      using 1 len wft_NodeD(5) [OF 1(2)] by simp
    with True len show ?thesis
      using Ent_update_child [of "idx k s" ts] by simp
  next
    case False
    then show ?thesis using 1(3) by simp
  qed
qed simp_all

lemma nonNull_iff_Ent: "wft t \<Longrightarrow> t \<noteq> Null \<longleftrightarrow> keys t \<noteq> {}"
  using wft_nonempty by (metis keys_simps(1))

lemma wft_update_child:
  assumes "wft (Node a p s ts)" "i < 16" "wft t'" "t' \<noteq> Null" 
    "\<forall>k\<in>keys t'. up s k = 16 * up (s + 4) p + i"
  shows "wft (Node a p s (ts[i := t']))"
proof -
  note D = wft_NodeD [OF assms(1)]
  obtain j j' where jj: "j < 16" "j' < 16" "j \<noteq> j'" "ts ! j \<noteq> Null" "ts ! j' \<noteq> Null"
    using wft_two_children [OF assms(1)] by metis
  show ?thesis
  proof (rule wft_NodeI [where i = j and j = j'])
    show "wft (ts[i := t'] ! l)" if "l < 16" for l
      using that D(1) assms(2,3) D(5) [OF that] by (cases "l = i") simp_all
    show "up s k = 16 * up (s + 4) p + l" if "l < 16" "k \<in> keys (ts[i := t'] ! l)" for k l
    proof (cases "l = i")
      case True
      with that D(1) assms(5) show ?thesis by simp
    next
      case False
      with that(2) have "k \<in> keys (ts ! l)" by simp
      then show ?thesis by (rule D(6) [OF that(1)])
    qed
    show "ts[i := t'] ! j \<noteq> Null" "ts[i := t'] ! j' \<noteq> Null"
      using jj assms(2,4) D(1) by (cases "j = i"; cases "j' = i"; simp)+
  qed (use D(1-4) jj in simp_all)
qed

lemma replace_wft:
  assumes "wft t" "wft r" "Ent r = insert (k, v) (Ent (stop k t))"
  shows "wft (replace k r t)"
  using assms
proof (induction k r t rule: replace.induct)
  case (1 k r a p s ts)
  let ?i = "idx k s"
  have len: "length ts = 16" by (rule wft_NodeD(1) [OF 1(2)])
  show ?case
  proof (cases "up (s + 4) k = up (s + 4) p")
    case True
    let ?t' = "replace k r (ts ! ?i)"
    from True have "Ent r = insert (k, v) (Ent (stop k (ts ! ?i)))" using 1(4) len by simp
    moreover have w: "wft (ts ! ?i)" using wft_NodeD(5) [OF 1(2)] by simp
    ultimately have "Ent ?t' = insert (k, v) (Ent (ts ! ?i))" "wft ?t'"
      using replace_Ent [OF w] 1(1) 1(3) True len by simp_all
    then have ks: "keys ?t' = insert k (keys (ts ! ?i))" and nn: "?t' \<noteq> Null" and w': "wft ?t'"
      by (auto simp: keys_def)
    have ups: "\<forall>x\<in>keys ?t'. up s x = 16 * up (s + 4) p + ?i"
    proof
      fix x assume "x \<in> keys ?t'"
      then consider (new) "x = k" | (old) "x \<in> keys (ts ! ?i)" using ks by blast
      then show "up s x = 16 * up (s + 4) p + ?i"
      proof cases
        case new
        show ?thesis unfolding new by (rule up_in_slot [OF True])
      next
        case old
        show ?thesis by (rule wft_NodeD(6) [OF 1(2) _ old]) simp
      qed
    qed
    have "wft (Node a p s (ts[?i := ?t']))"
      by (rule wft_update_child [OF 1(2) mod_less_divisor w' nn ups]) simp
    with True len show ?thesis by simp
  next
    case False
    then show ?thesis using 1(3) by simp
  qed
qed simp_all

subsection \<open>Inserting above the subtree where the descent stops\<close>

definition t_path :: "ctree \<Rightarrow> u64" where
  "t_path t = (case t of Null \<Rightarrow> 0 | Leaf a k v \<Rightarrow> k | Node a p s ts \<Rightarrow> p)"

definition crit_shift :: "u64 \<Rightarrow> u64 \<Rightarrow> nat" where
  "crit_shift p k = unat (util_mssb_index64 (p XOR k)) - unat (util_mssb_index64 (p XOR k)) mod 4"

lemma crit_shift:
  assumes "p \<noteq> k"
  shows "4 dvd crit_shift p k" "crit_shift p k \<le> 60"
    "up (crit_shift p k + 4) p = up (crit_shift p k + 4) k"
    "up (crit_shift p k) p \<noteq> up (crit_shift p k) k"
    "idx p (crit_shift p k) \<noteq> idx k (crit_shift p k)"
proof -
  define m where "m = unat (util_mssb_index64 (p XOR k))"
  have sh: "crit_shift p k = m - m mod 4" by (simp add: crit_shift_def m_def)
  have m: "m < 64" using assms mssb_spec(1) [of "p XOR k"] unfolding m_def by (simp add: xor_zero_iff)
  show "4 dvd crit_shift p k" by (simp add: sh minus_mod_eq_mult_div)
  show "crit_shift p k \<le> 60" using m unfolding sh by presburger
  have "Suc m \<le> crit_shift p k + 4" unfolding sh by presburger
  then show a: "up (crit_shift p k + 4) p = up (crit_shift p k + 4) k"
    using xor_mssb_up(1) [OF assms] up_eq_mono unfolding m_def by blast
  have "crit_shift p k \<le> m" unfolding sh by simp
  then show b: "up (crit_shift p k) p \<noteq> up (crit_shift p k) k"
    using xor_mssb_up(2) [OF assms] up_eq_mono unfolding m_def by blast
  from a b show "idx p (crit_shift p k) \<noteq> idx k (crit_shift p k)"
    using up_eq_split [of "crit_shift p k" p k] by blast
qed

definition t_join :: "ptr \<Rightarrow> ctree \<Rightarrow> u64 \<Rightarrow> ctree \<Rightarrow> ctree" where
  "t_join m lf k n =
     (let sh = crit_shift (t_path n) k
      in Node m (k AND push_bit sh (NOT NIB)) sh
           ((replicate 16 Null)[idx k sh := lf, idx (t_path n) sh := n]))"

lemma t_path_prefix:
  assumes "wft n" "n \<noteq> Null" "k \<notin> keys n" "stop k n = n"
  shows "t_path n \<noteq> k"
    and "x \<in> keys n \<Longrightarrow> up (crit_shift (t_path n) k) x = up (crit_shift (t_path n) k) (t_path n)"
proof -
  show ne: "t_path n \<noteq> k"
  proof (cases n)
    case (Node a p s ts)
    with stop_result [OF assms(1), of k] assms(4) have "up (s + 4) k \<noteq> up (s + 4) p" by metis
    with Node show ?thesis by (auto simp: t_path_def)
  qed (use assms in \<open>auto simp: t_path_def\<close>)
  show "up (crit_shift (t_path n) k) x = up (crit_shift (t_path n) k) (t_path n)" if x: "x \<in> keys n"
  proof (cases n)
    case (Node a p s ts)
    from stop_result [OF assms(1), of k] Node assms(4) have "up (s + 4) k \<noteq> up (s + 4) p" by metis
    moreover from ne Node have "up (crit_shift p k + 4) p = up (crit_shift p k + 4) k"
      using crit_shift(3) [of p k] by (simp add: t_path_def)
    ultimately have "s < crit_shift p k"
      using up_eq_mono [of "crit_shift p k + 4" p k "s + 4"] by (metis add_le_cancel_right not_le)
    moreover have "4 dvd s" "4 dvd crit_shift p k"
      using wft_NodeD(2) assms(1) Node crit_shift(1) ne by (auto simp: t_path_def)
    ultimately have "s + 4 \<le> crit_shift p k" by presburger
    moreover have "up (s + 4) x = up (s + 4) p"
      using wft_key_prefix(1) assms(1) x Node by blast
    ultimately have "up (crit_shift p k) x = up (crit_shift p k) p" by (rule up_eq_mono [rotated])
    with Node show ?thesis by (simp add: t_path_def)
  qed (use assms x in \<open>auto simp: t_path_def\<close>)
qed

lemma unat_masked: "unat (k AND push_bit s (NOT NIB)) mod 2 ^ (s + 4) = 0" if "s \<le> 60"
proof -
  have "bit (k AND push_bit s (NOT NIB)) n \<longrightarrow> s + 4 \<le> n" for n
    by (auto simp: NIB_mask bit_simps)
  then have "take_bit (s + 4) (k AND push_bit s (NOT NIB)) = 0"
    by (intro bit_eqI) (simp only: bit_take_bit_iff bit_0_eq bot_apply, fastforce)
  then have "take_bit (s + 4) (unat (k AND push_bit s (NOT NIB))) = 0"
    by (metis unsigned_take_bit_eq unsigned_0)
  then show ?thesis by (simp only: take_bit_eq_mod)
qed

lemma up_masked: "up (s + 4) (k AND push_bit s (NOT NIB)) = up (s + 4) k"
  by (auto simp: up_bit NIB_mask bit_simps dest: bit_imp_le_length)

lemma t_join_correct:
  assumes "wft n" "n \<noteq> Null" "k \<notin> keys n" "stop k n = n" 
  shows "wft (t_join m (Leaf a k v) k n)" "Ent (t_join m (Leaf a k v) k n) = insert (k, v) (Ent n)"
proof -
  define sh where "sh = crit_shift (t_path n) k"
  let ?i = "idx k sh" and ?j = "idx (t_path n) sh" and ?p = "k AND push_bit sh (NOT NIB)"
  let ?ts = "(replicate 16 Null)[?i := Leaf a k v, ?j := n]"
  have j: "t_join m (Leaf a k v) k n = Node m ?p sh ?ts"
    by (simp add: t_join_def sh_def Let_def)
  note pp = t_path_prefix [OF assms]
  note cs = crit_shift [OF pp(1), folded sh_def]
  have ij: "?i \<noteq> ?j" "?i < 16" "?j < 16" using cs(5) by auto
  have nth: "?ts ! l = (if l = ?j then n else if l = ?i then Leaf a k v else Null)" if "l < 16" for l
    using that by (simp add: nth_list_update)
  have mem: "y \<in> Ent (Node m ?p sh ?ts) \<longleftrightarrow> y \<in> insert (k, v) (Ent n)" for y
    unfolding Ent_Node_nth using ij nth by (auto simp: nth_list_update split: if_splits)
  then show "Ent (t_join m (Leaf a k v) k n) = insert (k, v) (Ent n)"
    unfolding j by blast
  have ups: "up sh x = 16 * up (sh + 4) ?p + l" if "l < 16" "x \<in> keys (?ts ! l)" for l x
    using that nth [OF that(1)] pp(2) [of x, folded sh_def] up_in_slot [of sh k ?p] up_in_slot [of sh "t_path n" ?p]
      cs(3) by (auto simp: up_masked split: if_splits)
  show "wft (t_join m (Leaf a k v) k n)"
    unfolding j
  proof (rule wft_NodeI)
    show "wft (?ts ! l)" if "l < 16" for l using assms(1) nth [OF that] by simp
    show "up sh x = 16 * up (sh + 4) ?p + l" if "l < 16" "x \<in> keys (?ts ! l)" for l x
      by (rule ups [OF that])
    show "?ts ! ?i \<noteq> Null" "?ts ! ?j \<noteq> Null" using nth ij assms(2) by simp_all
  qed (simp, rule cs(1), rule cs(2), rule unat_masked [OF cs(2)], rule ij(2), rule ij(3), rule ij(1))
qed

definition t_insert :: "ptr \<Rightarrow> ptr \<Rightarrow> u64 \<Rightarrow> ptr \<Rightarrow> ctree \<Rightarrow> ctree" where
  "t_insert m a k v t =
     (if stop k t = Null then replace k (Leaf a k v) t
      else replace k (t_join m (Leaf a k v) k (stop k t)) t)"

subsection \<open>Removal\<close>

text \<open>A node that is left with a single child is replaced by it.\<close>

definition shrink :: "ptr \<Rightarrow> u64 \<Rightarrow> nat \<Rightarrow> ctree list \<Rightarrow> ctree" where
  "shrink a p s ts = (case filter (\<lambda>t. t \<noteq> Null) ts of [t] \<Rightarrow> t | _ \<Rightarrow> Node a p s ts)"

fun is_node :: "ctree \<Rightarrow> bool" where
  "is_node (Node a p s ts) = True"
| "is_node t = False"

fun t_remove :: "u64 \<Rightarrow> ctree \<Rightarrow> ctree" where
  "t_remove k (Node a p s ts) =
     (if idx k s < length ts then
        (if is_node (ts ! idx k s) then Node a p s (ts[idx k s := t_remove k (ts ! idx k s)])
         else if k \<in> keys (ts ! idx k s) then shrink a p s (ts[idx k s := Null])
         else Node a p s ts)
      else Node a p s ts)"
| "t_remove k (Leaf a k' v) = (if k' = k then Null else Leaf a k' v)"
| "t_remove k Null = Null"

lemma stop_stop [simp]: "stop k (stop k t) = stop k t"
  by (induction k t rule: stop.induct) auto

lemma keys_stop_subset: "keys (stop k t) \<subseteq> keys t"
proof (induction k t rule: stop.induct)
  case (1 k a p s ts)
  then show ?case
    using keys_nth [of "idx k s" ts _ a p s] by (cases "up (s + 4) k = up (s + 4) p \<and> idx k s < length ts") auto
qed auto

lemma t_insert_correct:
  assumes "wft t" "k \<notin> keys t"
  shows "wft (t_insert m a k v t)" "Ent (t_insert m a k v t) = insert (k, v) (Ent t)"
proof -
  have w: "wft (stop k t)" by (rule wft_stop [OF assms(1)])
  have nk: "k \<notin> keys (stop k t)" "stop k (stop k t) = stop k t"
    using assms(2) keys_stop_subset [of k t] by auto
  show "wft (t_insert m a k v t)" "Ent (t_insert m a k v t) = insert (k, v) (Ent t)"
    using replace_wft [OF assms(1), of _ k v] replace_Ent [OF assms(1), of _ k v] t_join_correct [OF w _ nk, of m a v]
    by (cases "stop k t = Null"; simp add: t_insert_def)+
qed

lemma concat_entries_filter: "concat (map entries ts) = concat (map entries (filter (\<lambda>t. t \<noteq> Null) ts))"
  by (induction ts) auto

lemma shrink_cases:
  assumes "\<exists>t\<in>set ts. t \<noteq> Null"
  obtains (one) t where "filter (\<lambda>t. t \<noteq> Null) ts = [t]" "shrink a p s ts = t"
  | (more) "shrink a p s ts = Node a p s ts"
      "\<exists>i<length ts. \<exists>j<length ts. i \<noteq> j \<and> ts ! i \<noteq> Null \<and> ts ! j \<noteq> Null"
proof (cases "filter (\<lambda>t. t \<noteq> Null) ts")
  case Nil
  with assms show ?thesis by (auto simp: filter_empty_conv)
next
  case (Cons x xs)
  then show ?thesis
    using one more filter_two_indices [of "\<lambda>t. t \<noteq> Null" ts] by (cases xs) (auto simp: shrink_def)
qed

lemma Ent_shrink: "Ent (shrink a p s ts) = Ent (Node a p s ts)"
  by (auto simp: shrink_def concat_entries_filter [of ts] simp del: set_concat split: list.splits)

lemma Ent_remove_child:
  assumes w: "wft (Node a p s ts)" and "Ent t' = {e \<in> Ent (ts ! idx k s). fst e \<noteq> k}"
  shows "Ent (Node a p s (ts[idx k s := t'])) = {e \<in> Ent (Node a p s ts). fst e \<noteq> k}"
proof (rule set_eqI)
  fix e
  note len = wft_NodeD(1) [OF w]
  have "fst e \<noteq> k" if "j < 16" "j \<noteq> idx k s" "e \<in> Ent (ts ! j)" for j
  proof
    assume "fst e = k"
    with that(3) have "k \<in> keys (ts ! j)" by (force simp: keys_def)
    then have "up s k = 16 * up (s + 4) p + j" by (rule wft_NodeD(6) [OF w that(1)])
    with that(1,2) show False by simp
  qed
  then show "e \<in> Ent (Node a p s (ts[idx k s := t'])) \<longleftrightarrow> e \<in> {e \<in> Ent (Node a p s ts). fst e \<noteq> k}"
    using assms(2) len ex_nth_update [of "idx k s" ts "\<lambda>t. e \<in> Ent t"]
      ex_nth_split [of "idx k s" ts "\<lambda>t. e \<in> Ent t"]
    unfolding Ent_Node_nth length_list_update mem_Collect_eq by auto
qed

lemma keys_absent_filter: "k \<notin> keys t \<Longrightarrow> {e \<in> Ent t. fst e \<noteq> k} = Ent t"
  by (force simp: keys_def)

lemma t_remove_Ent:
  "wft t \<Longrightarrow> Ent (t_remove k t) = {e \<in> Ent t. fst e \<noteq> k}"
proof (induction k t rule: t_remove.induct)
  case (1 k a p s ts)
  let ?c = "ts ! idx k s"
  note len = wft_NodeD(1) [OF 1(2)]
  have i: "idx k s < length ts" using len by simp
  consider (node) "is_node ?c" | (hit) "\<not> is_node ?c" "k \<in> keys ?c" | (miss) "\<not> is_node ?c" "k \<notin> keys ?c"
    by blast
  then show ?case
  proof cases
    case node
    then have "Ent (t_remove k ?c) = {e \<in> Ent ?c. fst e \<noteq> k}"
      using 1 i by (simp add: wft_NodeD(5))
    then show ?thesis using node i Ent_remove_child [OF 1(2)] by simp
  next
    case hit
    then have "{e \<in> Ent ?c. fst e \<noteq> k} = {}" by (cases ?c) auto
    then have "Ent (Node a p s (ts[idx k s := Null])) = {e \<in> Ent (Node a p s ts). fst e \<noteq> k}"
      by (intro Ent_remove_child [OF 1(2)]) simp
    then show ?thesis using hit i by (simp add: Ent_shrink del: entries.simps)
  next
    case miss
    then have "k \<notin> keys (Node a p s ts)" using wft_key_prefix(2) [OF 1(2)] by blast
    then show ?thesis using miss i by (simp add: keys_absent_filter del: keys_simps entries.simps)
  qed
qed auto

lemma t_remove_nonNull: "wft (Node a p s ts) \<Longrightarrow> t_remove k (Node a p s ts) \<noteq> Null"
proof
  assume w: "wft (Node a p s ts)" and n: "t_remove k (Node a p s ts) = Null"
  from n t_remove_Ent [OF w, of k] have "{e \<in> Ent (Node a p s ts). fst e \<noteq> k} = {}" by simp
  then have "keys (Node a p s ts) \<subseteq> {k}" by (auto simp: keys_def simp del: entries.simps)
  moreover obtain x y where "x \<in> keys (Node a p s ts)" "y \<in> keys (Node a p s ts)" "up s x \<noteq> up s y"
    using wft_two_keys [OF w] by blast
  ultimately show False by auto
qed

lemma t_remove_wft: "wft t \<Longrightarrow> wft (t_remove k t)"
proof (induction k t rule: t_remove.induct)
  case (1 k a p s ts)
  let ?c = "ts ! idx k s" and ?i = "idx k s"
  note w = 1(2) and len = wft_NodeD(1) [OF 1(2)]
  have i: "?i < 16" by simp
  have wc: "wft ?c" by (rule wft_NodeD(5) [OF w i])
  consider (node) "is_node ?c" | (hit) "\<not> is_node ?c" "k \<in> keys ?c" | (miss) "\<not> is_node ?c" "k \<notin> keys ?c"
    by blast
  then show ?case
  proof cases
    case node
    have "keys (t_remove k ?c) \<subseteq> keys ?c" by (auto simp: keys_def t_remove_Ent [OF wc])
    then have "\<forall>x\<in>keys (t_remove k ?c). up s x = 16 * up (s + 4) p + ?i"
      using wft_NodeD(6) [OF w i] by blast
    moreover have "t_remove k ?c \<noteq> Null"
      using node wc t_remove_nonNull by (cases ?c) auto
    moreover have "wft (t_remove k ?c)" using 1 node wc len by simp
    ultimately have "wft (Node a p s (ts[?i := t_remove k ?c]))"
      using wft_update_child [OF w i] by blast
    with node len show ?thesis by simp
  next
    case hit
    let ?ts = "ts[?i := Null]"
    obtain l where l: "l < 16" "l \<noteq> ?i" "ts ! l \<noteq> Null" using wft_two_children [OF w] by metis
    have ex: "\<exists>t\<in>set ?ts. t \<noteq> Null"
      unfolding bex_set_nth using l len by (intro exI [of _ l]) simp
    have "wft (shrink a p s ?ts)"
    proof (cases rule: shrink_cases [OF ex, where a = a and p = p and s = s])
      case (1 t)
      then have "t \<in> set (filter (\<lambda>t. t \<noteq> Null) ?ts)" by simp
      then have "t \<in> set ts" using set_update_subset_insert [of ts ?i Null] by auto
      then show ?thesis using 1 wft_in_set [OF w] by simp
    next
      case 2
      then obtain l m where "l < 16" "m < 16" "l \<noteq> m" "?ts ! l \<noteq> Null" "?ts ! m \<noteq> Null"
        using len by auto
      then have "wft (Node a p s ?ts)"
      proof (rule wft_NodeI [rotated 6])
        show "wft (?ts ! j)" if "j < 16" for j
          using that len wft_NodeD(5) [OF w that] by (simp add: nth_list_update)
        show "up s x = 16 * up (s + 4) p + j" if "j < 16" "x \<in> keys (?ts ! j)" for j x
        proof -
          have "x \<in> keys (ts ! j)" using that len by (simp add: nth_list_update split: if_splits)
          then show ?thesis by (rule wft_NodeD(6) [OF w that(1)])
        qed
      qed (use len wft_NodeD(2-4) [OF w] in \<open>simp_all\<close>)
      with 2 show ?thesis by simp
    qed
    with hit len show ?thesis by simp
  next
    case miss
    then show ?thesis using w by simp
  qed
qed auto

end
