(* ===== verification/Ownership.thy ===== *)
theory Ownership
  imports Prelude "HOL-Library.Multiset"
begin

text \<open>
  Ownership as a multiset equation: the blocks that the parts of a structure own add up to the
  set of the allocated blocks, so every block is owned exactly once.  Handing a block from one
  owner to another is arithmetic on both sides of such an equation.
\<close>

lemma exchange:
  fixes u :: "'a :: cancel_comm_monoid_add"
  assumes "u + f = t + x" "x + w = f + r"
  shows "u + w = t + r"
proof -
  have "u + w + f = t + (x + w)" using assms(1) by (metis add.assoc add.commute)
  also have "\<dots> = t + r + f" using assms(2) by (simp add: ac_simps)
  finally show ?thesis by simp
qed

lemma own_once: "A + B = mset_set S \<Longrightarrow> x \<in># A \<Longrightarrow> x \<notin># B"
proof -
  assume e: "A + B = mset_set S" and x: "x \<in># A"
  have "count A x + count B x = count (mset_set S) x" using e by (metis count_union)
  also have "\<dots> \<le> 1" by (cases "finite S"; cases "x \<in> S") auto
  finally show "x \<notin># B" using x by (simp add: not_in_iff) (metis add_is_1 count_greater_zero_iff le_SucE le_zero_eq less_not_refl One_nat_def add_is_0 )
qed

lemma own_in: "A + B = mset_set S \<Longrightarrow> x \<in># A \<Longrightarrow> x \<in> S"
  by (metis elem_mset_set finite_set_mset infinite_set_mset_mset_set mset_set.infinite set_mset_empty union_iff empty_iff)

lemma own_distinct: "mset xs + B = mset_set S \<Longrightarrow> distinct xs"
proof -
  assume e: "mset xs + B = mset_set S"
  have "count (mset xs) x \<le> 1" for x
  proof -
    have "count (mset xs) x + count B x = count (mset_set S) x" using e by (metis count_union)
    also have "\<dots> \<le> 1" by (cases "finite S"; cases "x \<in> S") auto
    finally show ?thesis by simp
  qed
  then show ?thesis
    by (metis (no_types) count_mset_0_iff distinct_count_atmost_1 le_less less_one)
qed

lemma own_shift:
  fixes t :: "'a :: comm_monoid_add"
  assumes "t' + y = t + x" "t + d + p + x = m"
  shows "t' + d + p + y = m"
proof -
  have "t' + d + p + y = t' + y + (d + p)" by (simp add: ac_simps)
  also have "\<dots> = t + d + p + x" unfolding assms(1) by (simp add: ac_simps)
  finally show ?thesis using assms(2) by simp
qed

lemma own_disjoint: "A + B = mset_set S \<Longrightarrow> set_mset A \<inter> set_mset B = {}"
  using own_once [of A B S] by blast

end
