(* ===== verification/Critnib_Heap.thy ===== *)
theory Critnib_Heap
  imports Critnib_Tree Ownership
begin

text \<open>
  How a heap represents a critnib tree.

  \<open>holds h t\<close> says that the blocks of \<open>t\<close> are in the heap \<open>h\<close> with the contents
  the C structs have; \<open>naddrs\<close> and \<open>laddrs\<close> list the addresses of its nodes and
  leaves.  \<open>cinv\<close> is the ownership invariant: every block of the heap is owned exactly
  once, by the tree, by a pool of freed blocks, by a pending slot, or by the operation in
  progress.  Ownership is a multiset equation, so that handing a block over is arithmetic.
  The lemmas of this theory say what one pointer store and each pool operation do.
\<close>

subsection \<open>Multisets of addresses\<close>

lemma mset_concat_update:
  "i < length ts \<Longrightarrow> mset (concat (map f (ts[i := x]))) + mset (f (ts ! i)) = mset (concat (map f ts)) + mset (f x)"
proof (induction ts arbitrary: i)
  case (Cons t ts)
  show ?case
  proof (cases i)
    case (Suc j)
    with Cons.prems Cons.IH [of j] show ?thesis by (simp add: ac_simps)
  qed (simp add: ac_simps)
qed simp

lemma concat_subst:
  assumes "i < length ts" "mset (f x) + W = mset (f (ts ! i)) + R"
  shows "mset (concat (map f (ts[i := x]))) + W = mset (concat (map f ts)) + R"
  using exchange [OF mset_concat_update [OF assms(1)] assms(2)] .

subsection \<open>Representation\<close>

definition aligned :: "ptr \<Rightarrow> bool" where
  "aligned a \<longleftrightarrow> a \<noteq> NULL \<and> \<not> is_leaf a"

fun tptr :: "ctree \<Rightarrow> ptr" where
  "tptr Null = NULL"
| "tptr (Leaf a k v) = a OR 1"
| "tptr (Node a p s ts) = a"

fun holds :: "'l::len word heap \<Rightarrow> ctree \<Rightarrow> bool" where
  "holds h Null = True"
| "holds h (Leaf a k v) \<longleftrightarrow> aligned a \<and> leaves h a = Some \<lparr>key = k, val = v\<rparr>"
| "holds h (Node a p s ts) \<longleftrightarrow>
     aligned a \<and> unat (of_nat s :: 'l word) = s
     \<and> nodes h a = Some \<lparr>child = map tptr ts, path = p, shift = of_nat s\<rparr>
     \<and> (\<forall>t\<in>set ts. holds h t)"

fun naddrs :: "ctree \<Rightarrow> ptr list" where
  "naddrs (Node a p s ts) = a # concat (map naddrs ts)"
| "naddrs t = []"

fun laddrs :: "ctree \<Rightarrow> ptr list" where
  "laddrs (Leaf a k v) = [a]"
| "laddrs (Node a p s ts) = concat (map laddrs ts)"
| "laddrs Null = []"

fun walk :: "(ctree \<Rightarrow> bool) \<Rightarrow> u64 \<Rightarrow> ctree \<Rightarrow> ctree" where
  "walk Q k (Node a p s ts) =
     (if Q (Node a p s ts) \<and> idx k s < length ts then walk Q k (ts ! idx k s) else Node a p s ts)"
| "walk Q k t = t"

fun subst :: "(ctree \<Rightarrow> bool) \<Rightarrow> u64 \<Rightarrow> ctree \<Rightarrow> ctree \<Rightarrow> ctree" where
  "subst Q k r (Node a p s ts) =
     (if Q (Node a p s ts) \<and> idx k s < length ts
      then Node a p s (ts[idx k s := subst Q k r (ts ! idx k s)]) else r)"
| "subst Q k r t = r"

fun slot_of :: "(ctree \<Rightarrow> bool) \<Rightarrow> u64 \<Rightarrow> slot \<Rightarrow> ctree \<Rightarrow> slot" where
  "slot_of Q k par (Node a p s ts) =
     (if Q (Node a p s ts) \<and> idx k s < length ts
      then slot_of Q k (Child a (idx k s)) (ts ! idx k s) else par)"
| "slot_of Q k par t = par"

lemma is_leaf_odd: "is_leaf p \<longleftrightarrow> odd p"
  by (simp add: is_leaf_def and_one_eq odd_iff_mod_2_eq_one)

lemma to_leaf_tag [simp]: "aligned a \<Longrightarrow> to_leaf (a OR 1) = a"
proof -
  assume "aligned a"
  then have "\<not> bit a 0" by (simp add: aligned_def is_leaf_odd bit_0)
  then show ?thesis
    unfolding to_leaf_def by (intro bit_eqI) (auto simp: bit_simps intro: gr0I)
qed

lemma is_leaf_tag [simp]: "is_leaf (a OR 1)"
  by (simp add: is_leaf_odd even_or_iff)

lemma tag_nonzero [simp]: "a OR 1 \<noteq> (0::u64)"
  by (metis even_or_iff even_zero odd_one)

lemma aligned_simps [simp]: "aligned a \<Longrightarrow> a \<noteq> 0" "aligned a \<Longrightarrow> \<not> is_leaf a"
  by (simp_all add: aligned_def)

lemma not_is_leaf_NULL [simp]: "\<not> is_leaf 0"
  by (simp add: is_leaf_def)

lemma tptr_NULL_iff: "holds h t \<Longrightarrow> tptr t = 0 \<longleftrightarrow> t = Null"
  by (cases t) auto

lemma tptr_is_leaf_iff: "holds h t \<Longrightarrow> is_leaf (tptr t) \<longleftrightarrow> (\<exists>a k v. t = Leaf a k v)"
  by (cases t) auto

lemma holds_frame:
  "holds h t \<Longrightarrow> (\<And>a. a \<in> set (naddrs t) \<Longrightarrow> nodes h' a = nodes h a) \<Longrightarrow>
   (\<And>a. a \<in> set (laddrs t) \<Longrightarrow> leaves h' a = leaves h a) \<Longrightarrow> holds h' t"
  by (induction t) auto

lemma naddrs_alloc: "holds h t \<Longrightarrow> set (naddrs t) \<subseteq> dom (nodes h)"
  by (induction t) auto

lemma laddrs_alloc: "holds h t \<Longrightarrow> set (laddrs t) \<subseteq> dom (leaves h)"
  by (induction t) auto

lemma set_node_simps [simp]: "nodes (set_node a nd h) = (nodes h)(a \<mapsto> nd)" "leaves (set_node a nd h) = leaves h"
  by (simp_all add: set_node_def)

lemma set_leaf_simps [simp]: "leaves (set_leaf a lf h) = (leaves h)(a \<mapsto> lf)" "nodes (set_leaf a lf h) = nodes h"
  by (simp_all add: set_leaf_def)

lemma holds_set_node: "holds h t \<Longrightarrow> a \<notin> set (naddrs t) \<Longrightarrow> holds (set_node a nd h) t"
  by (erule holds_frame) auto

lemma holds_set_leaf: "holds h t \<Longrightarrow> a \<notin> set (laddrs t) \<Longrightarrow> holds (set_leaf a lf h) t"
  by (erule holds_frame) auto

lemma naddrs_subst:
  "mset (naddrs (subst Q k r t)) + mset (naddrs (walk Q k t)) = mset (naddrs t) + mset (naddrs r)"
  by (induction Q k r t rule: subst.induct) (simp_all add: concat_subst)

lemma laddrs_subst:
  "mset (laddrs (subst Q k r t)) + mset (laddrs (walk Q k t)) = mset (laddrs t) + mset (laddrs r)"
  by (induction Q k r t rule: subst.induct) (simp_all add: concat_subst)

lemma holds_walk: "holds h t \<Longrightarrow> holds h (walk Q k t)"
  by (induction Q k t rule: walk.induct) auto

lemma walk_addrs: "set (naddrs (walk Q k t)) \<subseteq> set (naddrs t)"
proof (induction Q k t rule: walk.induct)
  case (1 Q k a p s ts)
  show ?case
  proof (cases "Q (Node a p s ts) \<and> idx k s < length ts")
    case True
    then have "set (naddrs (ts ! idx k s)) \<subseteq> set (naddrs (Node a p s ts))" by auto
    with 1 True show ?thesis by auto
  qed auto
qed auto

lemma holds_subst:
  assumes "holds h t" "distinct (naddrs t)"
  shows "(slot_of Q k par t = par \<and> walk Q k t = t \<and> subst Q k r t = r)
    \<or> (\<exists>b j nd. slot_of Q k par t = Child b j \<and> b \<in> set (naddrs t) \<and> b \<notin> set (naddrs (walk Q k t))
        \<and> nodes h b = Some nd \<and> tptr (subst Q k r t) = tptr t
        \<and> (holds h r \<and> b \<notin> set (naddrs r) \<longrightarrow>
            holds (set_node b (nd\<lparr>child := (child nd)[j := tptr r]\<rparr>) h) (subst Q k r t)))"
  using assms
proof (induction Q k r t arbitrary: par rule: subst.induct)
  case (1 Q k r a p s ts)
  let ?i = "idx k s" and ?t = "Node a p s ts"
  let ?c = "ts ! ?i"
  show ?case
  proof (cases "Q ?t \<and> ?i < length ts")
    case False
    then show ?thesis by auto
  next
    case True
    then have c: "?c \<in> set ts" and i: "?i < length ts" by auto
    have hc: "holds h ?c" using 1(2) c by simp
    have dts: "distinct (concat (map naddrs ts))" and an: "a \<notin> set (concat (map naddrs ts))"
      using 1(3) by auto
    have dj: "set (naddrs (ts ! l)) \<inter> set (naddrs (ts ! m)) = {}"
      if "l < length ts" "m < length ts" "l \<noteq> m" for l m
      using dts that unfolding distinct_concat_nth by simp
    have dc: "distinct (naddrs ?c)" using dts i unfolding distinct_concat_nth by simp
    have ac: "a \<notin> set (naddrs ?c)" using an c by auto
    let ?r' = "subst Q k r ?c"
    have sub: "subst Q k r ?t = Node a p s (ts[?i := ?r'])" using True by simp
    have na: "nodes h a = Some \<lparr>child = map tptr ts, path = p, shift = of_nat s\<rparr>"
      using 1(2) by simp
    have aw: "a \<notin> set (naddrs (walk Q k ?c))" using ac walk_addrs by blast
    from 1(1) [OF True hc dc, of "Child a ?i"] show ?thesis
    proof (elim disjE exE conjE)
      assume e: "slot_of Q k (Child a ?i) ?c = Child a ?i" "walk Q k ?c = ?c" "?r' = r"
      let ?h = "set_node a (\<lparr>child = map tptr ts, path = p, shift = of_nat s\<rparr>\<lparr>child := (map tptr ts)[?i := tptr r]\<rparr>) h"
      have "holds ?h (subst Q k r ?t)" if r: "holds h r" "a \<notin> set (naddrs r)"
      proof -
        have "holds ?h t" if "t \<in> set (ts[?i := r])" for t
        proof -
          have "t = r \<or> t \<in> set ts" using that set_update_subset_insert by fastforce
          then show ?thesis using r an 1(2) by (auto intro!: holds_set_node)
        qed
        then show ?thesis using sub e 1(2) by (simp add: map_update)
      qed
      then show ?thesis using True e na aw sub ac by auto
    next
      fix b j nd
      assume e: "slot_of Q k (Child a ?i) ?c = Child b j" "b \<in> set (naddrs ?c)"
        "b \<notin> set (naddrs (walk Q k ?c))" "nodes h b = Some nd" "tptr ?r' = tptr ?c"
        "holds h r \<and> b \<notin> set (naddrs r) \<longrightarrow>
           holds (set_node b (nd\<lparr>child := (child nd)[j := tptr r]\<rparr>) h) ?r'"
      let ?h = "set_node b (nd\<lparr>child := (child nd)[j := tptr r]\<rparr>) h"
      have ba: "b \<noteq> a" using e(2) ac by auto
      have "holds ?h (subst Q k r ?t)" if r: "holds h r" "b \<notin> set (naddrs r)"
      proof -
        have "holds ?h (ts[?i := ?r'] ! l)" if "l < length ts" for l
        proof (cases "l = ?i")
          case True
          then show ?thesis using e(6) r i by simp
        next
          case False
          then have "b \<notin> set (naddrs (ts ! l))" using dj [OF i that] e(2) by auto
          then show ?thesis using False 1(2) that by (auto intro: holds_set_node)
        qed
        then have "\<forall>t\<in>set (ts[?i := ?r']). holds ?h t" unfolding all_set_conv_all_nth by simp
        moreover have "map tptr (ts[?i := ?r']) = map tptr ts"
          using e(5) i by (simp add: map_update) (metis list_update_id nth_map)
        ultimately show ?thesis using sub 1(2) ba by (simp del: set_node_simps(2))
      qed
      then show ?thesis using True e sub c by auto
    qed
  qed
qed auto

subsection \<open>The ownership invariant\<close>

definition live :: "ptr list \<Rightarrow> ptr multiset" where
  "live ps = mset (filter (\<lambda>p. p \<noteq> NULL) ps)"

fun node_chain :: "'w heap \<Rightarrow> ptr \<Rightarrow> ptr list \<Rightarrow> bool" where
  "node_chain h p [] \<longleftrightarrow> p = NULL"
| "node_chain h p (a # as) \<longleftrightarrow> p = a \<and> (\<exists>nd. nodes h a = Some nd \<and> node_chain h (child nd ! 0) as)"

fun leaf_chain :: "'w heap \<Rightarrow> ptr \<Rightarrow> ptr list \<Rightarrow> bool" where
  "leaf_chain h p [] \<longleftrightarrow> p = NULL"
| "leaf_chain h p (a # as) \<longleftrightarrow> p = a \<and> (\<exists>lf. leaves h a = Some lf \<and> leaf_chain h (val lf) as)"

definition heap_ok :: "'w heap \<Rightarrow> bool" where
  "heap_ok h \<longleftrightarrow>
     finite (dom (nodes h)) \<and> finite (dom (leaves h)) \<and> dom (nodes h) \<inter> dom (leaves h) = {}
     \<and> (\<forall>a nd. nodes h a = Some nd \<longrightarrow> aligned a \<and> length (child nd) = 16)
     \<and> (\<forall>a lf. leaves h a = Some lf \<longrightarrow> aligned a)"

fun cinv :: "'l::len word cstate \<Rightarrow> ctree \<Rightarrow> ptr list \<Rightarrow> ptr list \<Rightarrow> ptr multiset \<Rightarrow> ptr multiset \<Rightarrow> bool" where
  "cinv (h, c) t dn dl xn xl \<longleftrightarrow>
     heap_ok h \<and> holds h t
     \<and> node_chain h (deleted_node c) dn \<and> leaf_chain h (deleted_leaf c) dl
     \<and> length (pending_del_nodes c) = 16 \<and> length (pending_del_leaves c) = 16
     \<and> mset (naddrs t) + mset dn + live (pending_del_nodes c) + xn = mset_set (dom (nodes h))
     \<and> mset (laddrs t) + mset dl + live (pending_del_leaves c) + xl = mset_set (dom (leaves h))"

definition malloc_ok :: "'w allocator \<Rightarrow> bool" where
  "malloc_ok mal \<longleftrightarrow>
     (\<forall>h a nd. malloc_node mal h = (a, nd) \<and> a \<noteq> NULL \<longrightarrow>
        aligned a \<and> a \<notin> dom (nodes h) \<and> a \<notin> dom (leaves h) \<and> length (child nd) = 16)
   \<and> (\<forall>h a lf. malloc_leaf mal h = (a, lf) \<and> a \<noteq> NULL \<longrightarrow>
        aligned a \<and> a \<notin> dom (nodes h) \<and> a \<notin> dom (leaves h))"

lemma malloc_okD:
  assumes "malloc_ok mal"
  shows "malloc_node mal h = (a, nd) \<Longrightarrow> a \<noteq> NULL \<Longrightarrow>
      aligned a \<and> a \<notin> dom (nodes h) \<and> a \<notin> dom (leaves h) \<and> length (child nd) = 16"
    and "malloc_leaf mal h = (a, lf) \<Longrightarrow> a \<noteq> NULL \<Longrightarrow>
      aligned a \<and> a \<notin> dom (nodes h) \<and> a \<notin> dom (leaves h)"
  using assms unfolding malloc_ok_def by blast+

lemma cinvD:
  assumes "cinv (h, c) t dn dl xn xl"
  shows "heap_ok h" "holds h t" "node_chain h (deleted_node c) dn" "leaf_chain h (deleted_leaf c) dl"
    "length (pending_del_nodes c) = 16" "length (pending_del_leaves c) = 16"
    "mset (naddrs t) + mset dn + live (pending_del_nodes c) + xn = mset_set (dom (nodes h))"
    "mset (laddrs t) + mset dl + live (pending_del_leaves c) + xl = mset_set (dom (leaves h))"
  using assms by simp_all

lemma cinvI:
  assumes "heap_ok h" "holds h t" "node_chain h (deleted_node c) dn" "leaf_chain h (deleted_leaf c) dl"
    "length (pending_del_nodes c) = 16" "length (pending_del_leaves c) = 16"
    "mset (naddrs t) + mset dn + live (pending_del_nodes c) + xn = mset_set (dom (nodes h))"
    "mset (laddrs t) + mset dl + live (pending_del_leaves c) + xl = mset_set (dom (leaves h))"
  shows "cinv (h, c) t dn dl xn xl"
  using assms by simp

lemma cinv_cong:
  "deleted_node c' = deleted_node c \<Longrightarrow> deleted_leaf c' = deleted_leaf c \<Longrightarrow>
   pending_del_nodes c' = pending_del_nodes c \<Longrightarrow> pending_del_leaves c' = pending_del_leaves c \<Longrightarrow>
   cinv (h, c') t dn dl xn xl = cinv (h, c) t dn dl xn xl"
  by simp

lemma cinv_irrelevant [simp]:
  "cinv (h, c\<lparr>mutex := b\<rparr>) t dn dl xn xl = cinv (h, c) t dn dl xn xl"
  "cinv (h, c\<lparr>root := r\<rparr>) t dn dl xn xl = cinv (h, c) t dn dl xn xl"
  "cinv (h, c\<lparr>remove_count := rc\<rparr>) t dn dl xn xl = cinv (h, c) t dn dl xn xl"
  by simp_all

lemma node_chain_frame:
  "node_chain h p as \<Longrightarrow> (\<And>a. a \<in> set as \<Longrightarrow> nodes h' a = nodes h a) \<Longrightarrow> node_chain h' p as"
  by (induction as arbitrary: p) auto

lemma leaf_chain_frame:
  "leaf_chain h p as \<Longrightarrow> (\<And>a. a \<in> set as \<Longrightarrow> leaves h' a = leaves h a) \<Longrightarrow> leaf_chain h' p as"
  by (induction as arbitrary: p) auto

lemma cinv_hand:
  assumes "cinv (h, c) t dn dl xn xl"
  shows "a \<in># xn \<Longrightarrow> a \<in> dom (nodes h) \<and> a \<notin> set (naddrs t) \<and> a \<notin> set dn \<and> a \<notin># live (pending_del_nodes c)"
    and "a \<in># xl \<Longrightarrow> a \<in> dom (leaves h) \<and> a \<notin> set (laddrs t) \<and> a \<notin> set dl \<and> a \<notin># live (pending_del_leaves c)"
proof -
  have e: "xn + (mset (naddrs t) + mset dn + live (pending_del_nodes c)) = mset_set (dom (nodes h))"
    "xl + (mset (laddrs t) + mset dl + live (pending_del_leaves c)) = mset_set (dom (leaves h))"
    using assms by (simp_all add: ac_simps)
  show "a \<in># xn \<Longrightarrow> a \<in> dom (nodes h) \<and> a \<notin> set (naddrs t) \<and> a \<notin> set dn \<and> a \<notin># live (pending_del_nodes c)"
    using own_once [OF e(1), of a] own_in [OF e(1), of a] by simp
  show "a \<in># xl \<Longrightarrow> a \<in> dom (leaves h) \<and> a \<notin> set (laddrs t) \<and> a \<notin> set dl \<and> a \<notin># live (pending_del_leaves c)"
    using own_once [OF e(2), of a] own_in [OF e(2), of a] by simp
qed

lemma dom_upd_alloc: "a \<in> dom m \<Longrightarrow> dom (m(a \<mapsto> x)) = dom m"
  by auto

lemma cinv_set_leaf:
  assumes inv: "cinv (h, c) t dn dl xn xl" and a: "a \<in># xl"
  shows "cinv (set_leaf a lf h, c) t dn dl xn xl"
proof -
  note H = cinv_hand(2) [OF inv a]
  then have "dom (leaves (set_leaf a lf h)) = dom (leaves h)" by auto
  moreover have "heap_ok (set_leaf a lf h)" using inv H by (auto simp: heap_ok_def)
  moreover have "node_chain (set_leaf a lf h) (deleted_node c) dn" 
    using inv by (auto intro: node_chain_frame [of h])
  moreover have "leaf_chain (set_leaf a lf h) (deleted_leaf c) dl" 
    using inv H by (auto intro: leaf_chain_frame [of h])
  ultimately show ?thesis using inv H by (simp add: holds_set_leaf)
qed

lemma cinv_set_node:
  assumes inv: "cinv (h, c) t dn dl xn xl" and a: "a \<in># xn" and "length (child nd) = 16"
  shows "cinv (set_node a nd h, c) t dn dl xn xl"
proof -
  note H = cinv_hand(1) [OF inv a]
  then have "dom (nodes (set_node a nd h)) = dom (nodes h)" by auto
  moreover have "heap_ok (set_node a nd h)" using inv H assms(3) by (auto simp: heap_ok_def)
  moreover have "node_chain (set_node a nd h) (deleted_node c) dn" 
    using inv H by (auto intro: node_chain_frame [of h])
  moreover have "leaf_chain (set_node a nd h) (deleted_leaf c) dl" 
    using inv H by (auto intro: leaf_chain_frame [of h])
  ultimately show ?thesis using inv H by (simp add: holds_set_node)
qed

lemma free_leaf_inv:
  assumes inv: "cinv (h, c) t dn dl xn (add_mset a xl)"
  shows "\<exists>lf. leaves h a = Some lf \<and>
    free_leaf a (h, c) = Some (set_leaf a (lf\<lparr>val := deleted_leaf c\<rparr>) h, c\<lparr>deleted_leaf := a\<rparr>) \<and>
    cinv (set_leaf a (lf\<lparr>val := deleted_leaf c\<rparr>) h, c\<lparr>deleted_leaf := a\<rparr>) t dn (a # dl) xn xl"
proof -
  have a: "a \<in># add_mset a xl" by simp
  note H = cinv_hand(2) [OF inv a]
  then obtain lf where lf: "leaves h a = Some lf" by auto
  then have "a \<noteq> 0" using inv by (auto simp: heap_ok_def)
  let ?h = "set_leaf a (lf\<lparr>val := deleted_leaf c\<rparr>) h"
  from cinv_set_leaf [OF inv a] have "cinv (?h, c) t dn dl xn (add_mset a xl)" .
  then have "cinv (?h, c\<lparr>deleted_leaf := a\<rparr>) t dn (a # dl) xn xl" by simp
  then show ?thesis using lf \<open>a \<noteq> 0\<close> by simp
qed

lemma free_node_inv:
  assumes inv: "cinv (h, c) t dn dl (add_mset a xn) xl"
  shows "\<exists>nd. nodes h a = Some nd \<and>
    free_node a (h, c) = Some (set_node a (nd\<lparr>child := (child nd)[0 := deleted_node c]\<rparr>) h, c\<lparr>deleted_node := a\<rparr>) \<and>
    cinv (set_node a (nd\<lparr>child := (child nd)[0 := deleted_node c]\<rparr>) h, c\<lparr>deleted_node := a\<rparr>) t (a # dn) dl xn xl"
proof -
  have a: "a \<in># add_mset a xn" by simp
  note H = cinv_hand(1) [OF inv a]
  then obtain nd where nd: "nodes h a = Some nd" by auto
  then have al: "aligned a" "length (child nd) = 16" using inv by (auto simp: heap_ok_def)
  let ?h = "set_node a (nd\<lparr>child := (child nd)[0 := deleted_node c]\<rparr>) h"
  have "cinv (?h, c) t dn dl (add_mset a xn) xl" using cinv_set_node [OF inv a] al by simp
  then have "cinv (?h, c\<lparr>deleted_node := a\<rparr>) t (a # dn) dl xn xl" using al by simp
  then show ?thesis using nd al by simp
qed

lemma alloc_leaf_inv:
  assumes inv: "cinv (h, c) t dn dl xn xl" and mal: "malloc_ok mal"
  shows "\<exists>a h' c' dl'. alloc_leaf mal (h, c) = Some (a, (h', c')) \<and> nodes h' = nodes h \<and>
    (\<exists>x. c' = c\<lparr>deleted_leaf := x\<rparr>) \<and>
    (if a = NULL then h' = h \<and> c' = c \<and> deleted_leaf c = NULL \<and> fst (malloc_leaf mal h) = NULL
     else cinv (h', c') t dn dl' xn (add_mset a xl))"
proof (cases dl)
  case Nil
  then have d: "deleted_leaf c = 0" using inv by simp
  obtain a lf where m: "malloc_leaf mal h = (a, lf)" by fastforce
  show ?thesis
  proof (cases "a = 0")
    case True
    then show ?thesis using d m by (auto intro!: exI [of _ "deleted_leaf c"])
  next
    case False
    then have f: "aligned a" "a \<notin> dom (nodes h)" "a \<notin> dom (leaves h)"
      using malloc_okD [OF mal] m by blast+
    have "holds (set_leaf a lf h) t"
      using inv f laddrs_alloc [of h t] by (intro holds_set_leaf) auto
    moreover have "heap_ok (set_leaf a lf h)" using inv f by (auto simp: heap_ok_def)
    moreover have "node_chain (set_leaf a lf h) (deleted_node c) dn" 
      using inv by (auto intro: node_chain_frame [of h])
    moreover have "leaf_chain (set_leaf a lf h) (deleted_leaf c) dl" using Nil d by simp
    moreover have "mset_set (dom (leaves (set_leaf a lf h))) = add_mset a (mset_set (dom (leaves h)))"
      using inv f by (simp add: heap_ok_def domIff)
    then have "mset (laddrs t) + mset dl + live (pending_del_leaves c) + add_mset a xl = mset_set (dom (leaves (set_leaf a lf h)))"
      unfolding union_mset_add_mset_right cinvD(8) [OF inv] ..
    moreover have "dom (nodes (set_leaf a lf h)) = dom (nodes h)" by simp
    ultimately have "cinv (set_leaf a lf h, c) t dn dl xn (add_mset a xl)"
      using cinvD(5-8) [OF inv] by (intro cinvI) (assumption | simp only:)+
    then show ?thesis using d m False by (auto intro!: exI [of _ dl] exI [of _ "deleted_leaf c"])
  qed
next
  case (Cons a as)
  then have d: "deleted_leaf c = a" using inv by simp
  with Cons inv obtain lf where lf: "leaves h a = Some lf" "leaf_chain h (val lf) as" by auto
  moreover have "a \<noteq> 0" using lf inv by (auto simp: heap_ok_def)
  moreover have "cinv (h, c\<lparr>deleted_leaf := val lf\<rparr>) t dn as xn (add_mset a xl)"
    using inv lf Cons by simp
  ultimately show ?thesis using d by (auto intro!: exI [of _ as])
qed

lemma alloc_node_inv:
  assumes inv: "cinv (h, c) t dn dl xn xl" and mal: "malloc_ok mal"
  shows "\<exists>a h' c' dn'. alloc_node mal (h, c) = Some (a, (h', c')) \<and> leaves h' = leaves h \<and>
    (\<exists>x. c' = c\<lparr>deleted_node := x\<rparr>) \<and>
    (if a = NULL then h' = h \<and> c' = c \<and> deleted_node c = NULL \<and> fst (malloc_node mal h) = NULL
     else cinv (h', c') t dn' dl (add_mset a xn) xl)"
proof (cases dn)
  case Nil
  then have d: "deleted_node c = 0" using inv by simp
  obtain a nd where m: "malloc_node mal h = (a, nd)" by fastforce
  show ?thesis
  proof (cases "a = 0")
    case True
    then show ?thesis using d m by (auto intro!: exI [of _ "deleted_node c"])
  next
    case False
    then have f: "aligned a" "a \<notin> dom (nodes h)" "a \<notin> dom (leaves h)" "length (child nd) = 16"
      using malloc_okD [OF mal] m by blast+
    have "holds (set_node a nd h) t"
      using inv f naddrs_alloc [of h t] by (intro holds_set_node) auto
    moreover have "heap_ok (set_node a nd h)" using inv f by (auto simp: heap_ok_def)
    moreover have "leaf_chain (set_node a nd h) (deleted_leaf c) dl" 
      using inv by (auto intro: leaf_chain_frame [of h])
    moreover have "node_chain (set_node a nd h) (deleted_node c) dn" using Nil d by simp
    moreover have "mset_set (dom (nodes (set_node a nd h))) = add_mset a (mset_set (dom (nodes h)))"
      using inv f by (simp add: heap_ok_def domIff)
    then have "mset (naddrs t) + mset dn + live (pending_del_nodes c) + add_mset a xn = mset_set (dom (nodes (set_node a nd h)))"
      unfolding union_mset_add_mset_right cinvD(7) [OF inv] ..
    moreover have "dom (leaves (set_node a nd h)) = dom (leaves h)" by simp
    ultimately have "cinv (set_node a nd h, c) t dn dl (add_mset a xn) xl"
      using cinvD(5-8) [OF inv] by (intro cinvI) (assumption | simp only:)+
    then show ?thesis using d m False by (auto intro!: exI [of _ dn] exI [of _ "deleted_node c"])
  qed
next
  case (Cons a as)
  then have d: "deleted_node c = a" using inv by simp
  with Cons inv obtain nd where nd: "nodes h a = Some nd" "node_chain h (child nd ! 0) as" by auto
  moreover have "a \<noteq> 0" using nd inv by (auto simp: heap_ok_def)
  moreover have "cinv (h, c\<lparr>deleted_node := child nd ! 0\<rparr>) t as dl (add_mset a xn) xl"
    using inv nd Cons by simp
  ultimately show ?thesis using d by (auto intro!: exI [of _ as])
qed

text \<open>Changing the tree.\<close>

lemma cinv_tree:
  assumes "cinv (h, c) t dn dl xn xl" "holds h t'"
    "mset (naddrs t') + yn = mset (naddrs t) + xn" "mset (laddrs t') + yl = mset (laddrs t) + xl"
  shows "cinv (h, c) t' dn dl yn yl"
  using cinvD [OF assms(1)] assms(2) by (intro cinvI own_shift [OF assms(3)] own_shift [OF assms(4)])

lemma cinv_distinct:
  assumes "cinv (h, c) t dn dl xn xl"
  shows "distinct (naddrs t)" "distinct (laddrs t)"
  using assms own_distinct [of "naddrs t" _ "dom (nodes h)"] own_distinct [of "laddrs t" _ "dom (leaves h)"]
  by (simp_all add: add.assoc) metis+

text \<open>A pointer store: the subtree where a descent stopped is replaced.\<close>

lemma store_subst:
  assumes inv: "cinv (h, c) t dn dl xn xl" and root: "root c = tptr t"
    and r: "holds h r" "set (naddrs r) \<subseteq> set (naddrs (walk Q k t)) \<union> set_mset xn"
    and own: "mset (naddrs r) + yn = mset (naddrs (walk Q k t)) + xn" 
      "mset (laddrs r) + yl = mset (laddrs (walk Q k t)) + xl"
  shows "\<exists>h' c'. store (slot_of Q k Root t) (tptr r) (h, c) = Some (h', c') \<and>
    cinv (h', c') (subst Q k r t) dn dl yn yl \<and> root c' = tptr (subst Q k r t) \<and>
    (\<exists>x. c' = c\<lparr>root := x\<rparr>)"
proof -
  have h: "holds h t" using inv by simp
  have n: "mset (naddrs (subst Q k r t)) + yn = mset (naddrs t) + xn"
    using exchange [of "mset (naddrs (subst Q k r t))" "mset (naddrs (walk Q k t))" "mset (naddrs t)" "mset (naddrs r)" yn xn]
      naddrs_subst own(1) by blast
  have l: "mset (laddrs (subst Q k r t)) + yl = mset (laddrs t) + xl"
    using exchange [of "mset (laddrs (subst Q k r t))" "mset (laddrs (walk Q k t))" "mset (laddrs t)" "mset (laddrs r)" yl xl]
      laddrs_subst own(2) by blast
  from holds_subst [OF h cinv_distinct(1) [OF inv], of Q k Root r] show ?thesis
  proof (elim disjE exE conjE)
    assume e: "slot_of Q k Root t = Root" "walk Q k t = t" "subst Q k r t = r"
    have "cinv (h, c) r dn dl yn yl" using cinv_tree [OF inv r(1)] n l e(3) by simp
    then show ?thesis using e by (auto intro!: exI [of _ "tptr r"])
  next
    fix b j nd
    assume e: "slot_of Q k Root t = Child b j" "b \<in> set (naddrs t)" "b \<notin> set (naddrs (walk Q k t))"
      "nodes h b = Some nd" "tptr (subst Q k r t) = tptr t"
      "holds h r \<and> b \<notin> set (naddrs r) \<longrightarrow> holds (set_node b (nd\<lparr>child := (child nd)[j := tptr r]\<rparr>) h) (subst Q k r t)"
    let ?h = "set_node b (nd\<lparr>child := (child nd)[j := tptr r]\<rparr>) h"
    have bx: "b \<notin># xn" using cinv_hand(1) [OF inv] e(2) by blast
    have hs: "holds ?h (subst Q k r t)" using e r bx by auto
    have bd: "b \<notin> set dn" "b \<in> dom (nodes h)"
      using own_once [of "mset (naddrs t)" "mset dn + live (pending_del_nodes c) + xn" "dom (nodes h)" b] e(2,4) inv
      by (auto simp: add.assoc)
    have "heap_ok ?h" using inv e(4) by (auto simp: heap_ok_def)
    moreover have "node_chain ?h (deleted_node c) dn" using inv bd by (auto intro: node_chain_frame [of h])
    moreover have "leaf_chain ?h (deleted_leaf c) dl" using inv by (auto intro: leaf_chain_frame [of h])
    moreover note own_shift [OF n cinvD(7) [OF inv]] own_shift [OF l cinvD(8) [OF inv]]
    moreover have "dom (nodes ?h) = dom (nodes h)" using bd(2) by auto
    ultimately have "cinv (?h, c) (subst Q k r t) dn dl yn yl"
      using hs cinvD(5,6) [OF inv] by (intro cinvI) (simp_all only: set_node_simps)
    then show ?thesis using e root by (auto intro!: exI [of _ "root c"])
  qed
qed

declare cinv.simps [simp del]

end
