(* ===== verification/Hashmap.thy ===== *)
theory Hashmap
  imports Prelude
begin

text \<open>
  The interface all four structures of the repository share (\<open>src/hmproto.h\<close>): a table of
  operations, \<open>struct hm\<close>, and what its clients rely on.

  The table is the record \<open>hm\<close> over the state \<open>'s\<close> of the structure and the memory
  \<open>'h\<close> that is left when it is deleted.  The contract is the locale \<open>hashmap\<close>: a relation
  \<open>rel n s m\<close> says that the state \<open>s\<close> represents the map \<open>m\<close> and has resources for
  \<open>n\<close> more updates (memory, and room below the wrap-around of internal counters).
  Two flags say what a structure tolerates: \<open>dups\<close>, that inserting a key that is present is
  answered by \<open>EEXIST\<close>, and \<open>absents\<close>, that a key that is absent may be removed.
  \<open>hashmap_le\<close> extends the contract with \<open>find_le\<close>, which only the critnib structures have.
\<close>

subsection \<open>Lookups and floors\<close>

text \<open>What \<open>get\<close> and \<open>remove\<close> return for the entry of a key: NULL when there is none.\<close>

definition val_of :: "ptr option \<Rightarrow> ptr" where
  "val_of x = (case x of None \<Rightarrow> NULL | Some v \<Rightarrow> v)"

definition is_floor :: "(u64 \<rightharpoonup> ptr) \<Rightarrow> u64 \<Rightarrow> u64 \<Rightarrow> ptr \<Rightarrow> bool" where
  "is_floor m k x v \<longleftrightarrow> x \<le> k \<and> m x = Some v \<and> (\<forall>y\<in>dom m. y \<le> k \<longrightarrow> y \<le> x)"

definition floor_value :: "(u64 \<rightharpoonup> ptr) \<Rightarrow> u64 \<Rightarrow> ptr \<Rightarrow> bool" where
  "floor_value m k v \<longleftrightarrow> (\<forall>x\<in>dom m. k < x) \<and> v = NULL \<or> (\<exists>x. is_floor m k x v)"

text \<open>
  What a predecessor query may answer: the value of the floor, or NULL when there is no floor; only
  when the value stored at the floor is itself NULL, which the search takes for a miss, it may
  answer the value of a smaller key.
\<close>

definition le_value :: "(u64 \<rightharpoonup> ptr) \<Rightarrow> u64 \<Rightarrow> ptr \<Rightarrow> bool" where
  "le_value m k v \<longleftrightarrow> ((\<forall>x. \<not> is_floor m k x NULL) \<longrightarrow> floor_value m k v)
     \<and> (v \<noteq> NULL \<longrightarrow> (\<exists>x\<le>k. m x = Some v))"

lemma is_floor_unique: "is_floor m k x v \<Longrightarrow> is_floor m k x' v' \<Longrightarrow> x = x' \<and> v = v'"
proof -
  assume a: "is_floor m k x v" "is_floor m k x' v'"
  then have "x \<in> dom m" "x' \<in> dom m" by (auto simp: is_floor_def)
  with a have "x \<le> x'" "x' \<le> x" by (auto simp: is_floor_def)
  then have "x = x'" by simp
  with a show ?thesis by (simp add: is_floor_def)
qed

lemma floor_value_is_floor: "is_floor m k x v \<Longrightarrow> floor_value m k w \<longleftrightarrow> w = v"
proof -
  assume f: "is_floor m k x v"
  then have "x \<in> dom m" "x \<le> k" by (auto simp: is_floor_def)
  then have "\<not> (\<forall>x\<in>dom m. k < x)" by (auto simp: not_less intro!: bexI [of _ x])
  then have "floor_value m k w \<longleftrightarrow> (\<exists>x. is_floor m k x w)" unfolding floor_value_def by blast
  with f show ?thesis using is_floor_unique [of m k x v] by blast
qed

lemma val_of_simps [simp]: "val_of None = NULL" "val_of (Some v) = v"
  by (simp_all add: val_of_def)

subsection \<open>The table of operations\<close>

record ('s, 'h) hm =
  hm_new :: "'s option"
  hm_delete :: "'s \<Rightarrow> 'h option"
  hm_insert :: "u64 \<Rightarrow> ptr \<Rightarrow> 's \<Rightarrow> (int \<times> 's) option"
  hm_remove :: "u64 \<Rightarrow> 's \<Rightarrow> (ptr \<times> 's) option"
  hm_get :: "u64 \<Rightarrow> 's \<Rightarrow> ptr option"
  hm_find_le :: "u64 \<Rightarrow> 's \<Rightarrow> ptr option"
  hm_immutable :: int

locale hashmap =
  fixes hm :: "('s, 'h) hm" and budget :: nat
    and rel :: "nat \<Rightarrow> 's \<Rightarrow> (u64 \<rightharpoonup> ptr) \<Rightarrow> bool" and clean :: 'h
    and dups :: bool and absents :: bool
  assumes new_ok: "\<exists>s. hm_new hm = Some s \<and> rel budget s Map.empty"
    and delete_ok: "rel n s m \<Longrightarrow> hm_delete hm s = Some clean"
    and insert_ok: "rel (Suc n) s m \<Longrightarrow> k \<notin> dom m \<Longrightarrow>
      \<exists>s'. hm_insert hm k v s = Some (0, s') \<and> rel n s' (m(k \<mapsto> v))"
    and insert_dup: "dups \<Longrightarrow> rel (Suc n) s m \<Longrightarrow> k \<in> dom m \<Longrightarrow>
      \<exists>s'. hm_insert hm k v s = Some (EEXIST, s') \<and> rel n s' m"
    and remove_ok: "rel (Suc n) s m \<Longrightarrow> k \<in> dom m \<or> absents \<Longrightarrow>
      \<exists>s'. hm_remove hm k s = Some (val_of (m k), s') \<and> rel n s' (m(k := None))"
    and get_ok: "rel n s m \<Longrightarrow> hm_get hm k s = Some (val_of (m k))"

locale hashmap_le = hashmap +
  assumes dups: dups
    and find_le_ok: "rel n s m \<Longrightarrow>
      \<exists>v. hm_find_le hm k s = Some v \<and> le_value m k v"

subsection \<open>Sequences of operations\<close>

text \<open>A client that makes a sequence of calls, and what it should see: the calls on a finite map.\<close>

datatype call = Insert u64 ptr | Remove u64 | Get u64
datatype answer = Status int | Value ptr

fun perform :: "('s, 'h) hm \<Rightarrow> call \<Rightarrow> 's \<Rightarrow> (answer \<times> 's) option" where
  "perform hm (Insert k v) s = do { (r, s) \<leftarrow> hm_insert hm k v s; Some (Status r, s) }"
| "perform hm (Remove k) s = do { (v, s) \<leftarrow> hm_remove hm k s; Some (Value v, s) }"
| "perform hm (Get k) s = do { v \<leftarrow> hm_get hm k s; Some (Value v, s) }"

fun performs :: "('s, 'h) hm \<Rightarrow> call list \<Rightarrow> 's \<Rightarrow> (answer list \<times> 's) option" where
  "performs hm [] s = Some ([], s)"
| "performs hm (c # cs) s = do {
     (a, s) \<leftarrow> perform hm c s;
     (as, s) \<leftarrow> performs hm cs s;
     Some (a # as, s)
   }"

lemma performs_append:
  "performs hm (cs @ ds) s = do { (as, s) \<leftarrow> performs hm cs s; (bs, s) \<leftarrow> performs hm ds s; Some (as @ bs, s) }"
  by (induction cs arbitrary: s) (auto split: Option.bind_splits)

definition session :: "('s, 'h) hm \<Rightarrow> call list \<Rightarrow> (answer list \<times> 'h) option" where
  "session hm cs = do {
     s \<leftarrow> hm_new hm;
     (as, s) \<leftarrow> performs hm cs s;
     h \<leftarrow> hm_delete hm s;
     Some (as, h)
   }"

fun expect :: "(u64 \<rightharpoonup> ptr) \<Rightarrow> call list \<Rightarrow> answer list" where
  "expect m [] = []"
| "expect m (Insert k v # cs) =
     (if m k = None then Status 0 # expect (m(k \<mapsto> v)) cs else Status EEXIST # expect m cs)"
| "expect m (Remove k # cs) = Value (val_of (m k)) # expect (m(k := None)) cs"
| "expect m (Get k # cs) = Value (val_of (m k)) # expect m cs"

text \<open>The sequences of calls that a structure with the given tolerances has to serve.\<close>

fun permitted :: "bool \<Rightarrow> bool \<Rightarrow> (u64 \<rightharpoonup> ptr) \<Rightarrow> call list \<Rightarrow> bool" where
  "permitted d a m [] = True"
| "permitted d a m (Insert k v # cs) \<longleftrightarrow>
     (m k = None \<or> d) \<and> permitted d a (if m k = None then m(k \<mapsto> v) else m) cs"
| "permitted d a m (Remove k # cs) \<longleftrightarrow> (m k \<noteq> None \<or> a) \<and> permitted d a (m(k := None)) cs"
| "permitted d a m (Get k # cs) \<longleftrightarrow> permitted d a m cs"

lemma permitted_all [simp]: "permitted True True m cs"
proof (induction cs arbitrary: m)
  case (Cons c cs)
  then show ?case by (cases c) simp_all
qed simp

context hashmap
begin

lemma performs_ok:
  "rel n s m \<Longrightarrow> length cs \<le> n \<Longrightarrow> permitted dups absents m cs \<Longrightarrow> \<exists>n' s' m'. performs hm cs s = Some (expect m cs, s') \<and> rel n' s' m'"
proof (induction cs arbitrary: m n s)
  case (Cons c cs)
  have get: "c = Get k \<Longrightarrow> ?case" for k
    using Cons.IH [OF Cons.prems(1)] Cons.prems(2,3) get_ok [OF Cons.prems(1), of k] by fastforce
  obtain n' where n: "n = Suc n'" "length cs \<le> n'" using Cons.prems(2) by (cases n) auto
  have rel: "rel (Suc n') s m" using Cons.prems(1) n by simp
  have remove: ?case if c: "c = Remove k" for k
  proof -
    obtain s' where s': "hm_remove hm k s = Some (val_of (m k), s')" "rel n' s' (m(k := None))"
      using remove_ok [OF rel, of k] Cons.prems(3) c by (auto simp: domIff)
    have "permitted dups absents (m(k := None)) cs" using Cons.prems(3) c by simp
    from Cons.IH [OF s'(2) n(2) this] obtain n1 s1 m1 where
      "performs hm cs s' = Some (expect (m(k := None)) cs, s1)" "rel n1 s1 m1" by blast
    with s'(1) c show ?thesis by (intro exI [of _ n1] exI [of _ s1] exI [of _ m1]) simp
  qed
  have insert: ?case if c: "c = Insert k v" for k v
  proof (cases "m k")
    case None
    obtain s' where s': "hm_insert hm k v s = Some (0, s')" "rel n' s' (m(k \<mapsto> v))"
      using insert_ok [OF rel, of k v] None by (auto simp: domIff)
    have "permitted dups absents (m(k \<mapsto> v)) cs" using Cons.prems(3) c None by simp
    from Cons.IH [OF s'(2) n(2) this] obtain n1 s1 m1 where
      "performs hm cs s' = Some (expect (m(k \<mapsto> v)) cs, s1)" "rel n1 s1 m1" by blast
    with s'(1) c None show ?thesis by (intro exI [of _ n1] exI [of _ s1] exI [of _ m1]) simp
  next
    case (Some y)
    obtain s' where s': "hm_insert hm k v s = Some (EEXIST, s')" "rel n' s' m"
      using insert_dup [OF _ rel, of k v] Some Cons.prems(3) c by (auto simp: domIff)
    have "permitted dups absents m cs" using Cons.prems(3) c Some by auto
    from Cons.IH [OF s'(2) n(2) this] obtain n1 s1 m1 where
      "performs hm cs s' = Some (expect m cs, s1)" "rel n1 s1 m1" by blast
    with s'(1) c Some show ?thesis by (intro exI [of _ n1] exI [of _ s1] exI [of _ m1]) simp
  qed
  show ?case using get remove insert by (cases c) blast+
qed auto

lemma session_ok:
  "length cs \<le> budget \<Longrightarrow> permitted dups absents Map.empty cs \<Longrightarrow> session hm cs = Some (expect Map.empty cs, clean)"
proof -
  assume l: "length cs \<le> budget" "permitted dups absents Map.empty cs"
  obtain s where s: "hm_new hm = Some s" "rel budget s Map.empty" using new_ok by blast
  obtain n' s' m' where p: "performs hm cs s = Some (expect Map.empty cs, s')" "rel n' s' m'"
    using performs_ok [OF s(2) l] by blast
  with s(1) delete_ok [OF p(2)] show ?thesis by (simp add: session_def)
qed

end

end
