(* ===== verification/Critnib_Lookup.thy ===== *)
theory Critnib_Lookup
  imports Critnib_Heap Hashmap
begin

text \<open>
  The queries of \<open>src/critnib.c\<close>.  \<open>critnib_rel s m\<close> is the abstraction relation: the
  state \<open>s\<close>, whose mutex is free, represents the finite map \<open>m\<close>.  \<open>critnib_get\<close>
  returns the value the map holds (NULL for an absent key), and \<open>critnib_find_le\<close> the value of
  the greatest key that is not above the argument, unless that value is itself NULL; both
  return, provided the counter of removals is not within 16 of wrapping around.
\<close>

subsection \<open>Lookup of one key\<close>

fun dive :: "u64 \<Rightarrow> ctree \<Rightarrow> ctree" where
  "dive k (Node a p s ts) = (if idx k s < length ts then dive k (ts ! idx k s) else Null)"
| "dive k t = t"

lemma get_descend_dive:
  "holds h t \<Longrightarrow> wft t \<Longrightarrow> get_descend h k (tptr t) = Some (tptr (dive k t))"
proof (induction k t rule: dive.induct)
  case (1 k a p s ts)
  have i: "idx k s < length ts" using wft_NodeD(1) [OF 1(3)] by simp
  then have "holds h (ts ! idx k s)" "wft (ts ! idx k s)" using 1(2) wft_in_set [OF 1(3)] by auto
  with 1(1) [OF i] have "get_descend h k (tptr (ts ! idx k s)) = Some (tptr (dive k (ts ! idx k s)))" .
  with 1(2) i show ?case
    by (subst get_descend.simps) (simp add: slice_index_up)
qed (subst get_descend.simps; simp)+

lemma dive_cases: "dive k t = Null \<or> (\<exists>a k' v. dive k t = Leaf a k' v)"
  by (induction k t rule: dive.induct) auto

lemma holds_dive: "holds h t \<Longrightarrow> holds h (dive k t)"
  by (induction k t rule: dive.induct) auto

lemma dive_Ent: "wft t \<Longrightarrow> (k, v) \<in> Ent (dive k t) \<longleftrightarrow> (k, v) \<in> Ent t"
proof (induction k t rule: dive.induct)
  case (1 k a p s ts)
  note w = 1(2)
  have i: "idx k s < length ts" using wft_NodeD(1) [OF w] by simp
  have "(k, v) \<in> Ent (ts ! idx k s)" if e: "(k, v) \<in> Ent (Node a p s ts)"
  proof -
    obtain j where j: "j < 16" "(k, v) \<in> Ent (ts ! j)"
      using e wft_NodeD(1) [OF w] unfolding Ent_Node_nth by auto
    then have "k \<in> keys (ts ! j)" by (force simp: keys_def)
    with wft_NodeD(6) [OF w j(1)] j(1) have "idx k s = j" by simp
    with j show ?thesis by simp
  qed
  then show ?case using 1(1) [OF i wft_in_set [OF w]] i by auto
qed auto

lemma get_once_tmap:
  assumes "holds h t" "wft t"
  shows "get_once h k (tptr t) = Some (val_of (tmap t k))"
proof -
  consider (null) "dive k t = Null" | (hit) a v where "dive k t = Leaf a k v"
    | (miss) a k' v where "dive k t = Leaf a k' v" "k' \<noteq> k"
    using dive_cases by metis
  then show ?thesis
  proof cases
    case null
    then have "tmap t k = None" using dive_Ent [OF assms(2), of k] tmap_Some_iff [OF assms(2), of k]
      by (metis entries.simps(1) list.set(1) empty_iff not_Some_eq)
    then show ?thesis
      using null get_descend_dive [OF assms] by (simp add: get_once_def val_of_def)
  next
    case (hit a v)
    then have "tmap t k = Some v" using dive_Ent [OF assms(2), of k v] tmap_Some_iff [OF assms(2)] by simp
    then show ?thesis
      using hit get_descend_dive [OF assms] holds_dive [OF assms(1), of k] by (simp add: get_once_def val_of_def)
  next
    case (miss a k' v)
    then have "tmap t k = None" using dive_Ent [OF assms(2), of k] tmap_Some_iff [OF assms(2), of k]
      by (metis empty_iff entries.simps(2) insert_iff list.set not_Some_eq prod.inject)
    then show ?thesis
      using miss get_descend_dive [OF assms] holds_dive [OF assms(1), of k] by (simp add: get_once_def val_of_def)
  qed
qed

subsection \<open>The greatest key not above the argument\<close>

definition is_max :: "(u64 \<times> ptr) set \<Rightarrow> u64 \<Rightarrow> ptr \<Rightarrow> bool" where
  "is_max E k v \<longleftrightarrow> (k, v) \<in> E \<and> (\<forall>e\<in>E. fst e \<le> k)"

lemma scan_down_None: "scan_down cs n = None \<longleftrightarrow> (\<forall>i<n. cs ! i = NULL)"
  by (induction n) (auto simp: less_Suc_eq)

lemma scan_down_Some: "scan_down cs n = Some j \<longleftrightarrow> j < n \<and> cs ! j \<noteq> NULL \<and> (\<forall>i<n. j < i \<longrightarrow> cs ! i = NULL)"
  by (induction n) (auto simp: less_Suc_eq)

lemma child_order:
  assumes w: "wft (Node a p s ts)" and "i < j" "j < 16" "x \<in> keys (ts ! i)" "y \<in> keys (ts ! j)"
  shows "x < y"
proof -
  have "up s x = 16 * up (s + 4) p + i" "up s y = 16 * up (s + 4) p + j"
    using wft_NodeD(6) [OF w] assms by auto
  with assms(2) have "up s x < up s y" by simp
  then show ?thesis by (rule up_less)
qed

lemma is_max_child:
  assumes w: "wft (Node a p s ts)" and "j < n" "n \<le> 16" "is_max (Ent (ts ! j)) x v"
    "\<And>i. j < i \<Longrightarrow> i < n \<Longrightarrow> ts ! i = Null"
  shows "is_max (\<Union>i<n. Ent (ts ! i)) x v"
proof -
  have "fst e \<le> x" if e: "i < n" "e \<in> Ent (ts ! i)" for i e
  proof (cases "i < j")
    case True
    have "fst e \<in> keys (ts ! i)" "x \<in> keys (ts ! j)"
      using e assms(4) by (force simp: keys_def is_max_def)+
    with child_order [OF w True] assms(2,3) show ?thesis by (meson less_le_trans order.strict_implies_order)
  next
    case False
    with e assms(5) [of i] have "i = j" by (cases "ts ! i") (auto simp: not_less le_less)
    with e assms(4) show ?thesis by (auto simp: is_max_def)
  qed
  then show ?thesis using assms(2,4) by (auto simp: is_max_def)
qed

lemma Ent_children: "wft (Node a p s ts) \<Longrightarrow> (\<Union>i<16. Ent (ts ! i)) = Ent (Node a p s ts)"
  using wft_NodeD(1) [of a p s ts] unfolding set_eq_iff Ent_Node_nth by auto

lemma find_successor_max:
  "holds h t \<Longrightarrow> wft t \<Longrightarrow> is_node t \<Longrightarrow> \<exists>k v. find_successor h (tptr t) = Some v \<and> is_max (Ent t) k v"
proof (induction t)
  case (Node a p s ts)
  note w = Node.prems(2)
  note D = wft_NodeD [OF w]
  let ?cs = "map tptr ts"
  obtain l where l: "l < 16" "ts ! l \<noteq> Null" using wft_two_children [OF w] by metis
  have hn: "holds h (ts ! i)" if "i < 16" for i using Node.prems(1) D(1) that by simp
  have nul: "?cs ! i = 0 \<longleftrightarrow> ts ! i = Null" if "i < 16" for i
    using tptr_NULL_iff [OF hn [OF that]] that D(1) by simp
  obtain j where j: "scan_down ?cs SLNODES = Some j"
    using l nul [OF l(1)] scan_down_None [of ?cs SLNODES] by (cases "scan_down ?cs SLNODES") (auto simp: SLNODES_def)
  then have j': "j < 16" "ts ! j \<noteq> Null" "\<And>i. j < i \<Longrightarrow> i < 16 \<Longrightarrow> ts ! i = Null"
    using scan_down_Some [of ?cs SLNODES j] nul by (auto simp: SLNODES_def)
  have "\<exists>k v. find_successor h (tptr (Node a p s ts)) = Some v \<and> is_max (Ent (ts ! j)) k v"
  proof (cases "ts ! j")
    case (Leaf b k v)
    then have "find_successor h (tptr (Node a p s ts)) = Some v"
      using j Node.prems(1) hn [OF j'(1)] D(1) j'(1) by (subst find_successor.simps) simp
    then show ?thesis using Leaf by (auto simp: is_max_def)
  next
    case (Node b p' s' ts')
    then have "find_successor h (tptr (Node a p s ts)) = find_successor h (tptr (ts ! j))"
      using j Node.prems(1) hn [OF j'(1)] D(1) j'(1) by (subst find_successor.simps) simp
    moreover have "ts ! j \<in> set ts" using D(1) j'(1) by simp
    moreover have "is_node (ts ! j)" using Node by simp
    ultimately show ?thesis using Node.IH [OF _ hn [OF j'(1)] D(5) [OF j'(1)]] by simp
  qed (use j' in simp)
  then obtain k v where kv: "find_successor h (tptr (Node a p s ts)) = Some v" "is_max (Ent (ts ! j)) k v" by blast
  have "is_max (\<Union>i<16. Ent (ts ! i)) k v"
    by (rule is_max_child [OF w j'(1) order.refl kv(2) j'(3)])
  then show ?case using kv(1) unfolding Ent_children [OF w] by blast
qed auto

definition le_answer :: "(u64 \<times> ptr) set \<Rightarrow> u64 \<Rightarrow> ptr \<Rightarrow> bool" where
  "le_answer E k v \<longleftrightarrow>
     (if \<exists>e\<in>E. fst e \<le> k then \<exists>x. is_max {e \<in> E. fst e \<le> k} x v else v = NULL)"

lemma le_answerI:
  assumes "is_max {e \<in> E. fst e \<le> k} x v"
  shows "le_answer E k v"
proof -
  have "(x, v) \<in> E" "x \<le> k" using assms by (auto simp: is_max_def)
  then have "\<exists>e\<in>E. fst e \<le> k" by force
  with assms show ?thesis unfolding le_answer_def by auto
qed

lemma le_answer_none: "(\<And>e. e \<in> E \<Longrightarrow> k < fst e) \<Longrightarrow> le_answer E k 0"
  by (force simp: le_answer_def)

lemma le_answer_all: "is_max E x v \<Longrightarrow> x \<le> k \<Longrightarrow> le_answer E k v"
proof -
  assume m: "is_max E x v" "x \<le> k"
  then have "{e \<in> E. fst e \<le> k} = E" by (force simp: is_max_def)
  with m show ?thesis by (force simp: le_answer_def is_max_def)
qed

lemma le_answer_cong:
  assumes "\<And>e. fst e \<le> k \<Longrightarrow> e \<in> E \<longleftrightarrow> e \<in> E'"
  shows "le_answer E k v \<longleftrightarrow> le_answer E' k v"
proof -
  have "{e \<in> E. fst e \<le> k} = {e \<in> E'. fst e \<le> k}" using assms by blast
  moreover have "(\<exists>e\<in>E. fst e \<le> k) \<longleftrightarrow> (\<exists>e\<in>E'. fst e \<le> k)" using assms by blast
  ultimately show ?thesis by (simp add: le_answer_def)
qed

lemma le_answer_nonzero:
  assumes "le_answer E k v" "\<And>x. \<not> is_max {e \<in> E. fst e \<le> k} x NULL"
  shows "v \<noteq> NULL \<longleftrightarrow> (\<exists>e\<in>E. fst e \<le> k)"
proof (cases "\<exists>e\<in>E. fst e \<le> k")
  case True
  then obtain x where "is_max {e \<in> E. fst e \<le> k} x v" using assms(1) unfolding le_answer_def by auto
  with assms(2) True show ?thesis by blast
qed (use assms(1) in \<open>simp add: le_answer_def\<close>)

lemma Ent_le_children:
  assumes w: "wft (Node a p s ts)" and pre: "up (s + 4) k = up (s + 4) p" and le: "fst e \<le> k"
  shows "e \<in> Ent (Node a p s ts) \<longleftrightarrow> e \<in> (\<Union>i<Suc (idx k s). Ent (ts ! i))"
proof
  note D = wft_NodeD [OF w]
  assume "e \<in> Ent (Node a p s ts)"
  then obtain i where i: "i < 16" "e \<in> Ent (ts ! i)" using D(1) unfolding Ent_Node_nth by auto
  then have "fst e \<in> keys (ts ! i)" by (force simp: keys_def)
  then have "up s (fst e) = 16 * up (s + 4) p + i" by (rule D(6) [OF i(1)])
  moreover have "up s (fst e) \<le> up s k" using le by (rule up_mono)
  moreover have "up s k = 16 * up (s + 4) p + idx k s" by (rule up_in_slot [OF pre])
  ultimately have "i < Suc (idx k s)" by linarith
  with i(2) show "e \<in> (\<Union>i<Suc (idx k s). Ent (ts ! i))" by blast
next
  assume "e \<in> (\<Union>i<Suc (idx k s). Ent (ts ! i))"
  then obtain i where i: "i < Suc (idx k s)" "e \<in> Ent (ts ! i)" by blast
  have "idx k s < 16" by simp
  with i(1) have "i < 16" by linarith
  with i(2) show "e \<in> Ent (Node a p s ts)"
    using wft_NodeD(1) [OF w] unfolding Ent_Node_nth by metis
qed

lemma subtree_outside:
  assumes w: "wft (Node a p s ts)" and pre: "up (s + 4) k \<noteq> up (s + 4) p" and x: "x \<in> keys (Node a p s ts)"
  shows "x < k \<longleftrightarrow> p < k" "x \<noteq> k"
proof -
  have e: "up (s + 4) x = up (s + 4) p" by (rule wft_key_prefix(1) [OF w x])
  show "x \<noteq> k" using e pre by blast
  show "x < k \<longleftrightarrow> p < k"
    using e pre up_less [of "s + 4" x k] up_less [of "s + 4" k x] up_less [of "s + 4" p k] up_less [of "s + 4" k p]
    by (metis linorder_cases order.asym)
qed

lemma find_le_leftmost:
  assumes w: "wft (Node a p s ts)" and hn: "\<And>i. i < 16 \<Longrightarrow> holds h (ts ! i)" and n: "n \<le> 16"
  shows "\<exists>v. (case scan_down (map tptr ts) n of None \<Rightarrow> Some NULL
      | Some j \<Rightarrow> (if is_leaf (map tptr ts ! j) then map_option val (leaves h (to_leaf (map tptr ts ! j)))
                    else find_successor h (map tptr ts ! j))) = Some v
    \<and> (if (\<Union>i<n. Ent (ts ! i)) = {} then v = NULL else \<exists>x. is_max (\<Union>i<n. Ent (ts ! i)) x v)"
proof -
  note D = wft_NodeD [OF w]
  have nul: "map tptr ts ! i = 0 \<longleftrightarrow> ts ! i = Null" if "i < 16" for i
    using tptr_NULL_iff [OF hn [OF that]] that D(1) by simp
  show ?thesis
  proof (cases "scan_down (map tptr ts) n")
    case None
    then have "\<forall>i<n. ts ! i = Null" using nul n by (simp add: scan_down_None)
    then have "(\<Union>i<n. Ent (ts ! i)) = {}" by simp
    with None show ?thesis by simp
  next
    case (Some j)
    then have j: "j < n" "ts ! j \<noteq> Null" "\<And>i. j < i \<Longrightarrow> i < n \<Longrightarrow> ts ! i = Null"
      using nul n by (auto simp: scan_down_Some)
    then have j16: "j < 16" using n by simp
    have "\<exists>x v. (if is_leaf (map tptr ts ! j) then map_option val (leaves h (to_leaf (map tptr ts ! j)))
        else find_successor h (map tptr ts ! j)) = Some v \<and> is_max (Ent (ts ! j)) x v"
    proof (cases "ts ! j")
      case (Leaf b k v)
      then show ?thesis using hn [OF j16] D(1) j16 by (auto simp: is_max_def)
    next
      case (Node b p' s' ts')
      have "is_node (ts ! j)" using Node by simp
      from find_successor_max [OF hn [OF j16] D(5) [OF j16] this] show ?thesis
        using hn [OF j16] D(1) j16 Node by auto
    qed (use j in simp)
    then obtain x v where xv: "(if is_leaf (map tptr ts ! j) then map_option val (leaves h (to_leaf (map tptr ts ! j)))
        else find_successor h (map tptr ts ! j)) = Some v" "is_max (Ent (ts ! j)) x v" by blast
    have m: "is_max (\<Union>i<n. Ent (ts ! i)) x v" by (rule is_max_child [OF w j(1) n xv(2) j(3)])
    then have "(\<Union>i<n. Ent (ts ! i)) \<noteq> {}" unfolding is_max_def by blast
    with m show ?thesis unfolding Some option.case xv(1) by auto
  qed
qed

lemma is_max_hit:
  assumes w: "wft (Node a p s ts)" and x: "is_max {e \<in> Ent (ts ! idx k s). fst e \<le> k} x v"
  shows "is_max {e \<in> (\<Union>i<Suc (idx k s). Ent (ts ! i)). fst e \<le> k} x v"
proof -
  let ?i = "idx k s"
  have "fst e \<le> x" if e: "l < Suc ?i" "e \<in> Ent (ts ! l)" "fst e \<le> k" for e l
  proof (cases "l = ?i")
    case True
    then show ?thesis using e x unfolding is_max_def by blast
  next
    case False
    have "fst e \<in> keys (ts ! l)" "x \<in> keys (ts ! ?i)" using e x by (force simp: keys_def is_max_def)+
    then have "fst e < x" using child_order [OF w, of l ?i] e(1) False by simp
    then show ?thesis by simp
  qed
  then show ?thesis using x unfolding is_max_def by blast
qed

lemma le_answer_hit:
  assumes w: "wft (Node a p s ts)" and "le_answer (Ent (ts ! idx k s)) k v"
    and ex: "\<exists>e\<in>Ent (ts ! idx k s). fst e \<le> k"
  shows "le_answer (\<Union>i<Suc (idx k s). Ent (ts ! i)) k v"
proof -
  obtain x where "is_max {e \<in> Ent (ts ! idx k s). fst e \<le> k} x v"
    using assms(2) ex by (auto simp: le_answer_def)
  from le_answerI [OF is_max_hit [OF w this]] show ?thesis .
qed

lemma left_below:
  assumes w: "wft (Node a p s ts)" and pre: "up (s + 4) k = up (s + 4) p" and e: "e \<in> (\<Union>i<idx k s. Ent (ts ! i))"
  shows "fst e \<le> k"
proof -
  obtain l where l: "l < idx k s" "e \<in> Ent (ts ! l)" using e by blast
  moreover have "idx k s < 16" by simp
  ultimately have "l < 16" by linarith
  have "fst e \<in> keys (ts ! l)" using l by (force simp: keys_def)
  then have "up s (fst e) = 16 * up (s + 4) p + l" by (rule wft_NodeD(6) [OF w \<open>l < 16\<close>])
  moreover have "up s k = 16 * up (s + 4) p + idx k s" by (rule up_in_slot [OF pre])
  ultimately have "up s (fst e) < up s k" using l(1) by linarith
  then show ?thesis using up_less by (simp add: order.strict_implies_order)
qed

lemma le_answer_left:
  assumes w: "wft (Node a p s ts)" and pre: "up (s + 4) k = up (s + 4) p"
    and nex: "\<not> (\<exists>e\<in>Ent (ts ! idx k s). fst e \<le> k)"
    and v: "if (\<Union>i<idx k s. Ent (ts ! i)) = {} then v = NULL else \<exists>x. is_max (\<Union>i<idx k s. Ent (ts ! i)) x v"
  shows "le_answer (\<Union>i<Suc (idx k s). Ent (ts ! i)) k v"
proof -
  let ?E = "\<Union>i<idx k s. Ent (ts ! i)"
  have lt: "fst e \<le> k" if "e \<in> ?E" for e using left_below [OF w pre that] .
  have "le_answer ?E k v"
  proof (cases "?E = {}")
    case True
    then show ?thesis using v by (simp add: le_answer_def)
  next
    case False
    from v False obtain x where x: "is_max ?E x v" by presburger
    then have "x \<le> k" using lt [of "(x, v)"] by (simp add: is_max_def)
    with x show ?thesis by (rule le_answer_all)
  qed
  moreover have "e \<in> ?E \<longleftrightarrow> e \<in> (\<Union>i<Suc (idx k s). Ent (ts ! i))" if "fst e \<le> k" for e
    using that nex by (auto simp: lessThan_Suc)
  ultimately show ?thesis using le_answer_cong by blast
qed

lemma find_le_answer:
  "holds h t \<Longrightarrow> wft t \<Longrightarrow> \<exists>v. find_le h (tptr t) k = Some v \<and>
     ((\<forall>x. \<not> is_max {e \<in> Ent t. fst e \<le> k} x NULL) \<longrightarrow> le_answer (Ent t) k v)
     \<and> (v \<noteq> NULL \<longrightarrow> (\<exists>x\<le>k. (x, v) \<in> Ent t))"
proof (induction t)
  case Null
  then show ?case by (subst find_le.simps) (simp add: le_answer_def)
next
  case (Leaf a k' v)
  then show ?case by (subst find_le.simps) (auto simp: le_answer_def is_max_def)
next
  case (Node a p s ts)
  note w = Node.prems(2)
  note D = wft_NodeD [OF w]
  let ?t = "Node a p s ts" and ?i = "idx k s" and ?cs = "map tptr ts"
  have i: "?i < 16" by simp
  have hn: "holds h (ts ! i)" if "i < 16" for i using Node.prems(1) D(1) that by simp
  have rd: "nodes h a = Some \<lparr>child = ?cs, path = p, shift = of_nat s\<rparr>" "a \<noteq> 0" "\<not> is_leaf a"
    "unat (of_nat s :: 'a word) = s"
    using Node.prems(1) by auto
  show ?case
  proof (cases "up (s + 4) k = up (s + 4) p")
    case False
    show ?thesis
    proof (cases "p < k")
      case True
      obtain x v where xv: "find_successor h (tptr ?t) = Some v" "is_max (Ent ?t) x v"
        using find_successor_max [OF Node.prems(1) w] by auto
      then have "x \<in> keys ?t" unfolding keys_def is_max_def by force
      then have "x \<le> k" using subtree_outside [OF w False] True by (simp add: order.strict_implies_order)
      with xv have "le_answer (Ent ?t) k v" by (intro le_answer_all)
      moreover have "\<exists>x\<le>k. (x, v) \<in> Ent ?t" using xv(2) \<open>x \<le> k\<close> unfolding is_max_def by blast
      moreover have "find_le h (tptr ?t) k = Some v"
        using rd False True xv(1) outside_iff [of "of_nat s :: 'a word" k p] by (subst find_le.simps) simp
      ultimately show ?thesis by blast
    next
      case np: False
      have "k < fst e" if "e \<in> Ent ?t" for e
      proof -
        have "fst e \<in> keys ?t" using that by (auto simp: keys_def simp del: entries.simps)
        from subtree_outside [OF w False this] np show ?thesis by (metis linorder_cases)
      qed
      then have "le_answer (Ent ?t) k 0" by (rule le_answer_none)
      moreover have "find_le h (tptr ?t) k = Some 0"
        using rd False np outside_iff [of "of_nat s :: 'a word" k p] by (subst find_le.simps) simp
      ultimately show ?thesis by blast
    qed
  next
    case True
    have mem: "ts ! ?i \<in> set ts" using D(1) by simp
    with Node.IH [OF _ hn [OF i] D(5) [OF i]]
    obtain v0 where v0: "find_le h (tptr (ts ! ?i)) k = Some v0"
      "(\<forall>x. \<not> is_max {e \<in> Ent (ts ! ?i). fst e \<le> k} x NULL) \<longrightarrow> le_answer (Ent (ts ! ?i)) k v0"
      "v0 \<noteq> NULL \<longrightarrow> (\<exists>x\<le>k. (x, v0) \<in> Ent (ts ! ?i))" by blast
    obtain v1 where v1: "(case scan_down ?cs ?i of None \<Rightarrow> Some NULL
      | Some j \<Rightarrow> (if is_leaf (?cs ! j) then map_option val (leaves h (to_leaf (?cs ! j)))
                    else find_successor h (?cs ! j))) = Some v1"
      "if (\<Union>i<?i. Ent (ts ! i)) = {} then v1 = NULL else \<exists>x. is_max (\<Union>i<?i. Ent (ts ! i)) x v1"
      using find_le_leftmost [OF w hn, of ?i] by auto
    have fl: "find_le h (tptr ?t) k = Some (if v0 \<noteq> 0 then v0 else v1)"
      using rd True v0(1) v1(1) outside_iff [of "of_nat s :: 'a word" k p] D(1)
      by (subst find_le.simps) (simp add: slice_index_up cong: option.case_cong if_cong)
    have eq: "{e \<in> Ent ?t. fst e \<le> k} = {e \<in> (\<Union>i<Suc ?i. Ent (ts ! i)). fst e \<le> k}"
      using Ent_le_children [OF w True] by blast
    have "le_answer (Ent ?t) k (if v0 \<noteq> 0 then v0 else v1)"
      if nz: "\<forall>x. \<not> is_max {e \<in> Ent ?t. fst e \<le> k} x NULL"
    proof -
      have nz': "\<not> is_max {e \<in> Ent (ts ! ?i). fst e \<le> k} x NULL" for x
        using nz is_max_hit [OF w, of k x NULL] unfolding eq by blast
      then have le: "le_answer (Ent (ts ! ?i)) k v0" using v0(2) by blast
      note ex = le_answer_nonzero [OF le nz']
      have "le_answer (\<Union>i<Suc ?i. Ent (ts ! i)) k (if v0 \<noteq> 0 then v0 else v1)"
        using ex le_answer_hit [OF w le] le_answer_left [OF w True _ v1(2)] by simp
      then show ?thesis using le_answer_cong [of k "Ent ?t"] Ent_le_children [OF w True] by blast
    qed
    moreover have "\<exists>x\<le>k. (x, v) \<in> Ent ?t" if v: "v = (if v0 \<noteq> 0 then v0 else v1)" "v \<noteq> NULL" for v
    proof (cases "v0 = 0")
      case nz: False
      then have "v = v0" using v(1) by simp
      moreover obtain x where "x \<le> k" "(x, v0) \<in> Ent (ts ! ?i)" using v0(3) nz by auto
      ultimately show ?thesis using mem by (intro exI [of _ x]) auto
    next
      case z: True
      then have "v = v1" "v1 \<noteq> 0" using v by simp_all
      then obtain x where x: "is_max (\<Union>i<?i. Ent (ts ! i)) x v1" using v1(2) by (metis (no_types, lifting))
      then have x': "(x, v1) \<in> (\<Union>i<?i. Ent (ts ! i))" by (simp add: is_max_def)
      then have "x \<le> k" using left_below [OF w True] by fastforce
      moreover have "(x, v1) \<in> Ent ?t"
      proof -
        obtain l where l: "l < ?i" "(x, v1) \<in> Ent (ts ! l)" using x' by blast
        then have "l < length ts" using i D(1) by linarith
        then show ?thesis using l(2) nth_mem by fastforce
      qed
      ultimately show ?thesis using \<open>v = v1\<close> by blast
    qed
    ultimately show ?thesis using fl by blast
  qed
qed

subsection \<open>The abstraction relation and the queries on it\<close>

definition critnib_rel :: "'l::len word cstate \<Rightarrow> (u64 \<rightharpoonup> ptr) \<Rightarrow> bool" where
  "critnib_rel s m \<longleftrightarrow>
     (\<exists>t dn dl. cinv s t dn dl {#} {#} \<and> root (snd s) = tptr t \<and> wft t
        \<and> \<not> mutex (snd s) \<and> m = tmap t)"

lemma critnib_relI:
  "cinv (h, c) t dn dl {#} {#} \<Longrightarrow> root c = tptr t \<Longrightarrow> wft t \<Longrightarrow> \<not> mutex c \<Longrightarrow> m = tmap t \<Longrightarrow>
   critnib_rel (h, c) m"
  unfolding critnib_rel_def by auto

lemma critnib_relE:
  assumes "critnib_rel (h, c) m"
  obtains t dn dl where "cinv (h, c) t dn dl {#} {#}" "root c = tptr t" "wft t" "\<not> mutex c" "m = tmap t"
  using assms unfolding critnib_rel_def by auto

lemma critnib_rel_finite: "critnib_rel s m \<Longrightarrow> finite (dom m)"
  by (auto simp: critnib_rel_def tmap_def finite_dom_map_of)

lemma no_wrap_16: "unat (x::u64) + 16 < 2 ^ 64 \<longleftrightarrow> \<not> x + DELETED_LIFE \<le> x"
proof -
  have l: "unat x < 2 ^ 64" using unsigned_less [of x] by simp
  then have "unat (x + 16) = (if unat x + 16 < 2 ^ 64 then unat x + 16 else unat x + 16 - 2 ^ 64)"
    by (simp add: unat_word_ariths mod_if)
  then show ?thesis using l
    by (simp add: DELETED_LIFE_def word_le_nat_alt split: if_splits)
qed

lemma critnib_get_rel:
  assumes "critnib_rel (h, c) m" "unat (remove_count c) + 16 < 2 ^ 64"
  shows "critnib_get k (h, c) = Some (val_of (m k))"
proof -
  from assms(1) obtain t dn dl where t: "cinv (h, c) t dn dl {#} {#}" "root c = tptr t" "wft t" "m = tmap t"
    by (rule critnib_relE)
  have "get_once h k (root c) = Some (val_of (m k))"
    using get_once_tmap [OF cinvD(2) [OF t(1)] t(3)] t(2,4) by simp
  then show ?thesis
    using assms(2) unfolding no_wrap_16 by (subst critnib_get.simps) simp
qed

lemma is_max_floor: "wft t \<Longrightarrow> is_max {e \<in> Ent t. fst e \<le> k} x v \<longleftrightarrow> is_floor (tmap t) k x v"
  unfolding is_max_def is_floor_def dom_tmap keys_def by (auto simp: tmap_Some_iff)

lemma le_answer_floor:
  assumes "wft t" "le_answer (Ent t) k v"
  shows "floor_value (tmap t) k v"
proof (cases "\<exists>e\<in>Ent t. fst e \<le> k")
  case True
  then show ?thesis using assms(2) unfolding le_answer_def is_max_floor [OF assms(1)] floor_value_def by auto
next
  case False
  then have "\<forall>x\<in>dom (tmap t). k < x" unfolding dom_tmap keys_def by (auto simp: not_le)
  moreover have "v = NULL" using False assms(2) by (simp add: le_answer_def)
  ultimately show ?thesis unfolding floor_value_def by blast
qed

lemma critnib_find_le_rel:
  assumes "critnib_rel (h, c) m" "unat (remove_count c) + 16 < 2 ^ 64"
  shows "\<exists>v. critnib_find_le k (h, c) = Some v \<and> le_value m k v"
proof -
  from assms(1) obtain t dn dl where t: "cinv (h, c) t dn dl {#} {#}" "root c = tptr t" "wft t" "m = tmap t"
    by (rule critnib_relE)
  obtain v where v: "find_le h (tptr t) k = Some v"
    "(\<forall>x. \<not> is_floor m k x NULL) \<longrightarrow> le_answer (Ent t) k v" "v \<noteq> NULL \<longrightarrow> (\<exists>x\<le>k. (x, v) \<in> Ent t)"
    using find_le_answer [OF cinvD(2) [OF t(1)] t(3), of k] unfolding is_max_floor [OF t(3)] t(4) by blast
  have "find_le h NULL k = Some NULL" by (subst find_le.simps) simp
  with v(1) have "(if root c \<noteq> NULL then find_le h (root c) k else Some NULL) = Some v"
    using t(2) by auto
  then have "critnib_find_le k (h, c) = Some v"
    using assms(2) unfolding no_wrap_16 by (subst critnib_find_le.simps) simp
  with le_answer_floor [OF t(3)] v(2,3) t(4) show ?thesis unfolding le_value_def by (auto simp: tmap_Some_iff [OF t(3)])
qed

text \<open>
  The guard against long-running readers compares \<open>wrs1 + DELETED_LIFE <= wrs2\<close> in 64-bit
  arithmetic: in the last 16 counts before the counter wraps no query returns.
\<close>

lemma critnib_get_diverges:
  assumes "2 ^ 64 \<le> unat (remove_count c) + 16"
  shows "critnib_get k (h, c) = None"
proof -
  have w: "remove_count c + DELETED_LIFE \<le> remove_count c"
    using assms no_wrap_16 [of "remove_count c"] by linarith
  have "\<not> critnib_get k (h, c) = Some y" for y
  proof
    assume "critnib_get k (h, c) = Some y"
    moreover have "critnib_get k s = Some y \<Longrightarrow> s \<noteq> (h, c)" for k s y
    proof (induction rule: critnib_get.raw_induct [rotated 1, consumes 1])
      case (1 g k s y)
      then show ?case using w by (force split: bind_splits if_splits)
    qed
    ultimately show False by blast
  qed
  then show ?thesis by (cases "critnib_get k (h, c)") auto
qed

end
