(* ===== verification/Critnib_Evolve.thy ===== *)
theory Critnib_Evolve
  imports Critnib_Lookup
begin

text \<open>
  What a write operation of \<open>src/critnib.c\<close> leaves alone.  A reader takes no lock, so it may hold
  a pointer to a block that a writer unlinks; the readers rely on the contents of such blocks.
  \<open>keeps\<close> compares two heaps on given sets of blocks; \<open>evolves s t D k s' t'\<close> says that an
  operation on the key \<open>k\<close> took the state \<open>s\<close> with the tree \<open>t\<close> to \<open>s'\<close> with the tree
  \<open>t'\<close>, that it recycled the blocks of the pending slots \<open>D\<close> only, that every block of \<open>t\<close> is
  in \<open>t'\<close> or in one of these slots, and that a node it unlinked has lost exactly the leaf of
  \<open>k\<close>.
\<close>

subsection \<open>States and their trees\<close>

definition crel :: "'l::len word cstate \<Rightarrow> ctree \<Rightarrow> bool" where
  "crel s t \<longleftrightarrow> (\<exists>dn dl. cinv s t dn dl {#} {#}) \<and> root (snd s) = tptr t \<and> wft t \<and> \<not> mutex (snd s)"

lemma critnib_rel_crel: "critnib_rel s m \<longleftrightarrow> (\<exists>t. crel s t \<and> m = tmap t)"
  by (auto simp: critnib_rel_def crel_def)

lemma crelE:
  assumes "crel (h, c) t"
  obtains dn dl where "cinv (h, c) t dn dl {#} {#}" "root c = tptr t" "wft t" "\<not> mutex c"
  using assms by (auto simp: crel_def)

lemma unlock_crel:
  "cinv (h, c) t dn dl {#} {#} \<Longrightarrow> root c = tptr t \<Longrightarrow> wft t \<Longrightarrow> crel (unlock (h, c)) t"
  by (auto simp: crel_def cinv_irrelevant)

subsection \<open>Heaps that agree\<close>

definition keeps :: "'l::len word heap \<Rightarrow> 'l word heap \<Rightarrow> ptr set \<Rightarrow> ptr set \<Rightarrow> ptr set \<Rightarrow> bool" where
  "keeps h h' T N L \<longleftrightarrow>
     (\<forall>a\<in>T. \<forall>nd. nodes h a = Some nd \<longrightarrow> (\<exists>cs. nodes h' a = Some (nd\<lparr>child := cs\<rparr>)))
     \<and> (\<forall>a\<in>N. nodes h' a = nodes h a) \<and> (\<forall>a\<in>L. leaves h' a = leaves h a)"

lemma child_upd_twice [simp]: "nd\<lparr>child := cs\<rparr>\<lparr>child := cs'\<rparr> = nd\<lparr>child := cs'\<rparr>"
  by simp

lemma keeps_refl [simp]: "keeps h h T N L"
proof -
  have "nd = nd\<lparr>child := child nd\<rparr>" for nd :: "'a word critnib_node" by simp
  then show ?thesis unfolding keeps_def by metis
qed

lemma keeps_trans: "keeps h h1 T N L \<Longrightarrow> keeps h1 h2 T N L \<Longrightarrow> keeps h h2 T N L"
  unfolding keeps_def by (metis child_upd_twice)

lemma keeps_set_node: "a \<notin> T \<Longrightarrow> a \<notin> N \<Longrightarrow> keeps h (set_node a nd h) T N L"
  using keeps_refl [of h T N L] unfolding keeps_def by auto

lemma keeps_set_leaf: "a \<notin> L \<Longrightarrow> keeps h (set_leaf a lf h) T N L"
  using keeps_refl [of h T N L] unfolding keeps_def by auto

lemma keeps_set_child: "nodes h a = Some nd \<Longrightarrow> a \<notin> N \<Longrightarrow> keeps h (set_node a (nd\<lparr>child := cs\<rparr>) h) T N L"
  using keeps_refl [of h T N L] unfolding keeps_def by auto

text \<open>
  No block disappears, and a node that is not one of \<open>T\<close> gets no new child but NULL and allocated
  nodes.
\<close>

definition extends :: "'w heap \<Rightarrow> 'w heap \<Rightarrow> ptr set \<Rightarrow> bool" where
  "extends h h' T \<longleftrightarrow> dom (nodes h) \<subseteq> dom (nodes h') \<and> dom (leaves h) \<subseteq> dom (leaves h')
     \<and> (\<forall>a nd. nodes h' a = Some nd \<longrightarrow> a \<in> T
          \<or> (\<exists>nd0. nodes h a = Some nd0 \<and> set (child nd) \<subseteq> set (child nd0) \<union> insert NULL (dom (nodes h'))))"

lemma extends_refl [simp]: "extends h h T"
  by (auto simp: extends_def)

lemma extends_trans:
  assumes "extends h h1 T" "extends h1 h2 T"
  shows "extends h h2 T"
proof -
  have d: "dom (nodes h) \<subseteq> dom (nodes h1)" "dom (nodes h1) \<subseteq> dom (nodes h2)"
    "dom (leaves h) \<subseteq> dom (leaves h1)" "dom (leaves h1) \<subseteq> dom (leaves h2)"
    using assms by (simp_all add: extends_def)
  have "a \<in> T \<or> (\<exists>nd0. nodes h a = Some nd0 \<and> set (child nd) \<subseteq> set (child nd0) \<union> insert NULL (dom (nodes h2)))"
    if nd: "nodes h2 a = Some nd" for a nd
  proof (cases "a \<in> T")
    case False
    then obtain nd1 where 1: "nodes h1 a = Some nd1" "set (child nd) \<subseteq> set (child nd1) \<union> insert NULL (dom (nodes h2))"
      using assms(2) nd unfolding extends_def by blast
    then obtain nd0 where "nodes h a = Some nd0" "set (child nd1) \<subseteq> set (child nd0) \<union> insert NULL (dom (nodes h1))"
      using assms(1) False unfolding extends_def by blast
    with 1(2) d(2) show ?thesis by blast
  qed simp
  moreover have "dom (nodes h) \<subseteq> dom (nodes h2)" "dom (leaves h) \<subseteq> dom (leaves h2)" using d by (meson order_trans)+
  ultimately show ?thesis by (simp add: extends_def)
qed

lemma extends_set_leaf: "extends h (set_leaf a lf h) T"
  by (auto simp: extends_def)

lemma extends_set_node: "a \<in> T \<Longrightarrow> extends h (set_node a nd h) T"
  by (auto simp: extends_def)

lemma extends_set_child:
  assumes "nodes h a = Some nd" "a \<in> T \<or> x \<in> insert NULL (dom (nodes h))"
  shows "extends h (set_node a (nd\<lparr>child := (child nd)[j := x]\<rparr>) h) T"
  using assms set_update_subset_insert [of "child nd" j x] by (auto simp: extends_def)

subsection \<open>Pending blocks\<close>

definition pnodes :: "critnib \<Rightarrow> nat set \<Rightarrow> ptr set" where
  "pnodes c D = {pending_del_nodes c ! i |i. i < 16 \<and> i \<notin> D}"

definition pleaves :: "critnib \<Rightarrow> nat set \<Rightarrow> ptr set" where
  "pleaves c D = {pending_del_leaves c ! i |i. i < 16 \<and> i \<notin> D}"

lemma pend_cong:
  assumes "\<forall>i<16. i \<notin> D \<longrightarrow> pending_del_nodes c' ! i = pending_del_nodes c ! i \<and> pending_del_leaves c' ! i = pending_del_leaves c ! i"
  shows "pnodes c' D = pnodes c D" "pleaves c' D = pleaves c D"
proof -
  show "pnodes c' D = pnodes c D" using assms unfolding pnodes_def by (intro Collect_cong ex_cong1) auto
  show "pleaves c' D = pleaves c D" using assms unfolding pleaves_def by (intro Collect_cong ex_cong1) auto
qed

lemma live_nth: "i < length ps \<Longrightarrow> ps ! i \<noteq> 0 \<Longrightarrow> ps ! i \<in># live ps"
  by (simp add: live_def)

lemma no_block_at_NULL: "heap_ok h \<Longrightarrow> nodes h 0 = None" "heap_ok h \<Longrightarrow> leaves h 0 = None"
  by (metis aligned_simps(1) heap_ok_def not_None_eq)+

lemma cinv_apart:
  assumes inv: "cinv (h, c) t dn dl xn xl"
  shows "a \<in> set (naddrs t) \<Longrightarrow> a \<notin> pnodes c D" "a \<in># xn \<Longrightarrow> a \<notin> set (naddrs t) \<and> a \<notin> pnodes c D"
    "a \<in># xl \<Longrightarrow> a \<notin> set (laddrs t) \<union> pleaves c D"
    "a \<in> set (naddrs t) \<union> pnodes c D \<Longrightarrow> a \<noteq> 0 \<Longrightarrow> a \<in> dom (nodes h)"
    "a \<in> set (laddrs t) \<union> pleaves c D \<Longrightarrow> a \<noteq> 0 \<Longrightarrow> a \<in> dom (leaves h)"
proof -
  have len: "length (pending_del_nodes c) = 16" "length (pending_del_leaves c) = 16" using cinvD(5,6) [OF inv] .
  have al: "0 \<notin> dom (nodes h)" "0 \<notin> dom (leaves h)" using no_block_at_NULL [OF cinvD(1) [OF inv]] by (simp_all add: domIff)
  have live: "a \<in> pnodes c D \<Longrightarrow> a \<noteq> 0 \<Longrightarrow> a \<in># live (pending_del_nodes c)"
    "a \<in> pleaves c D \<Longrightarrow> a \<noteq> 0 \<Longrightarrow> a \<in># live (pending_del_leaves c)" for a
    using live_nth [of _ "pending_del_nodes c"] live_nth [of _ "pending_del_leaves c"] len
    by (auto simp: pnodes_def pleaves_def)
  have e: "mset (naddrs t) + (mset dn + live (pending_del_nodes c) + xn) = mset_set (dom (nodes h))"
    "live (pending_del_nodes c) + (mset (naddrs t) + mset dn + xn) = mset_set (dom (nodes h))"
    "mset (laddrs t) + (mset dl + live (pending_del_leaves c) + xl) = mset_set (dom (leaves h))"
    "live (pending_del_leaves c) + (mset (laddrs t) + mset dl + xl) = mset_set (dom (leaves h))"
    using cinvD(7,8) [OF inv] by (simp_all add: ac_simps)
  note T = own_in [OF e(1)] own_in [OF e(3)] and O = own_once [OF e(1)]
  have out: "a \<notin> pnodes c D" if "a \<notin># live (pending_del_nodes c)" "a \<in> dom (nodes h)" for a
    using that al(1) live(1) [of a] by metis
  have out': "a \<notin> pleaves c D" if "a \<notin># live (pending_del_leaves c)" "a \<in> dom (leaves h)" for a
    using that al(2) live(2) [of a] by metis
  show "a \<in> set (naddrs t) \<Longrightarrow> a \<notin> pnodes c D" using O [of a] T(1) [of a] out [of a] by simp
  show "a \<in># xn \<Longrightarrow> a \<notin> set (naddrs t) \<and> a \<notin> pnodes c D" using cinv_hand(1) [OF inv, of a] out [of a] by simp
  show "a \<in># xl \<Longrightarrow> a \<notin> set (laddrs t) \<union> pleaves c D" using cinv_hand(2) [OF inv, of a] out' [of a] by simp
  show "a \<in> set (naddrs t) \<union> pnodes c D \<Longrightarrow> a \<noteq> 0 \<Longrightarrow> a \<in> dom (nodes h)"
    using T(1) [of a] live(1) [of a] own_in [OF e(2), of a] by auto
  show "a \<in> set (laddrs t) \<union> pleaves c D \<Longrightarrow> a \<noteq> 0 \<Longrightarrow> a \<in> dom (leaves h)"
    using T(2) [of a] live(2) [of a] own_in [OF e(4), of a] by auto
qed

subsection \<open>Steps of an operation\<close>

text \<open>
  \<open>quiet D s t T s'\<close>: between \<open>s\<close> and \<open>s'\<close> an operation changed child pointers of the tree, the
  pending slots \<open>D\<close> and blocks that no reader can reach only.
\<close>

definition quiet :: "nat set \<Rightarrow> 'l::len word cstate \<Rightarrow> ctree \<Rightarrow> ptr set \<Rightarrow> 'l word cstate \<Rightarrow> bool" where
  "quiet D s t T s' \<longleftrightarrow>
     keeps (fst s) (fst s') (set (naddrs t)) (pnodes (snd s) D) (set (laddrs t) \<union> pleaves (snd s) D)
     \<and> extends (fst s) (fst s') T
     \<and> (\<forall>i<16. i \<notin> D \<longrightarrow> pending_del_nodes (snd s') ! i = pending_del_nodes (snd s) ! i
          \<and> pending_del_leaves (snd s') ! i = pending_del_leaves (snd s) ! i)"

lemma quiet_trans:
  assumes "quiet D s t T s1" "quiet D s1 t T s2"
  shows "quiet D s t T s2"
proof -
  have e: "\<forall>i<16. i \<notin> D \<longrightarrow> pending_del_nodes (snd s1) ! i = pending_del_nodes (snd s) ! i
    \<and> pending_del_leaves (snd s1) ! i = pending_del_leaves (snd s) ! i" using assms(1) unfolding quiet_def by blast
  show ?thesis using assms unfolding quiet_def pend_cong [OF e] by (auto intro: extends_trans keeps_trans)
qed

lemma quiet_control:
  "\<forall>i<16. i \<notin> D \<longrightarrow> pending_del_nodes c' ! i = pending_del_nodes c ! i \<and> pending_del_leaves c' ! i = pending_del_leaves c ! i
   \<Longrightarrow> quiet D (h, c) t T (h, c')"
  by (simp add: quiet_def)

lemma quiet_unlock [simp]: "quiet D s t T (unlock s') = quiet D s t T s'"
  by (cases s') (simp add: quiet_def)

lemma quiet_set_leaf:
  "cinv (h, c) t dn dl xn xl \<Longrightarrow> a \<in># xl \<Longrightarrow> quiet D (h, c) t T (set_leaf a lf h, c)"
  using cinv_apart(3) [of h c t dn dl xn xl a D] by (simp add: quiet_def keeps_set_leaf extends_set_leaf)

lemma quiet_set_node:
  "cinv (h, c) t dn dl xn xl \<Longrightarrow> a \<in># xn \<Longrightarrow> a \<in> T \<Longrightarrow> quiet D (h, c) t T (set_node a nd h, c)"
  using cinv_apart(2) [of h c t dn dl xn xl a D] by (simp add: quiet_def keeps_set_node extends_set_node)

lemma quiet_alloc_leaf:
  assumes inv: "cinv (h, c) t dn dl xn xl" and mal: "malloc_ok mal" and "alloc_leaf mal (h, c) = Some (a, (h', c'))"
  shows "quiet D (h, c) t T (h', c')"
proof (cases "h' = h")
  case True
  then show ?thesis using assms(3) by (auto simp: Let_def bind_eq_Some_conv intro!: quiet_control split: if_splits prod.splits)
next
  case False
  obtain b lf where b: "malloc_leaf mal h = (b, lf)" by force
  with False assms(3) have h': "h' = set_leaf b lf h" "b \<noteq> 0" "c' = c"
    by (auto simp: Let_def bind_eq_Some_conv split: if_splits)
  then have "b \<notin> dom (leaves h)" using malloc_okD(2) [OF mal b] by blast
  then have "b \<notin> set (laddrs t) \<union> pleaves c D" using cinv_apart(5) [OF inv, of b] h'(2) by blast
  then show ?thesis using h'(1,3) by (simp add: quiet_def keeps_set_leaf extends_set_leaf)
qed

lemma quiet_alloc_node:
  assumes inv: "cinv (h, c) t dn dl xn xl" and mal: "malloc_ok mal" and "alloc_node mal (h, c) = Some (a, (h', c'))" "a \<in> T"
  shows "quiet D (h, c) t T (h', c')"
proof (cases "h' = h")
  case True
  then show ?thesis using assms(3) by (auto simp: Let_def bind_eq_Some_conv intro!: quiet_control split: if_splits prod.splits)
next
  case False
  obtain b nd where b: "malloc_node mal h = (b, nd)" by force
  with False assms(3) have h': "h' = set_node b nd h" "b \<noteq> 0" "c' = c" "b = a"
    by (auto simp: Let_def bind_eq_Some_conv split: if_splits)
  then have "b \<notin> dom (nodes h)" using malloc_okD(1) [OF mal b] by blast
  then have "b \<notin> set (naddrs t) \<union> pnodes c D" using cinv_apart(4) [OF inv, of b] h'(2) by blast
  then show ?thesis using h' assms(4) by (simp add: quiet_def keeps_set_node extends_set_node)
qed

lemma slot_owner:
  "cinv (h, c) t dn dl xn xl \<Longrightarrow> slot_of Q k Root t = Child b j \<Longrightarrow>
   b \<in> set (naddrs t) \<and> b \<notin> set (naddrs (walk Q k t))"
  using holds_subst [OF cinvD(2) cinv_distinct(1), of h c t dn dl xn xl h c dn dl xn xl Q k Root Null] by auto

lemma store_dom:
  "store sl x (h, c) = Some (h', c') \<Longrightarrow> dom (nodes h') = dom (nodes h) \<and> leaves h' = leaves h
     \<and> pending_del_nodes c' = pending_del_nodes c \<and> pending_del_leaves c' = pending_del_leaves c"
  by (cases sl) (auto simp: bind_eq_Some_conv split: if_splits)

lemma quiet_slot:
  assumes st: "store sl x (h, c) = Some (h', c')"
    and sl: "\<And>b j. sl = Child b j \<Longrightarrow> b \<notin> pnodes c D \<and> (b \<in> T \<or> x = NULL)"
  shows "quiet D (h, c) t T (h', c')"
proof (cases sl)
  case Root
  then show ?thesis using st by (auto intro!: quiet_control)
next
  case (Child b j)
  then obtain nd where nd: "nodes h b = Some nd" "h' = set_node b (nd\<lparr>child := (child nd)[j := x]\<rparr>) h" "c' = c"
    using st by (auto simp: bind_eq_Some_conv)
  show ?thesis using nd sl [OF Child] keeps_set_child [OF nd(1)] extends_set_child [OF nd(1)] by (auto simp: quiet_def)
qed

lemma quiet_store:
  assumes inv: "cinv (h, c) t dn dl xn xl" and st: "store (slot_of Q k Root t) x (h, c) = Some (h', c')"
    and T: "\<And>b j. slot_of Q k Root t = Child b j \<Longrightarrow> b \<in> T \<or> x = NULL"
  shows "quiet D (h, c) t T (h', c')"
  by (rule quiet_slot [OF st]) (use slot_owner [OF inv] cinv_apart(1) [OF inv] T in blast)

subsection \<open>Evolution of a state\<close>

definition cuts :: "u64 \<Rightarrow> 'l::len word heap \<Rightarrow> ctree \<Rightarrow> 'l word heap \<Rightarrow> ptr \<Rightarrow> bool" where
  "cuts k h t h' x \<longleftrightarrow> x \<in> set (naddrs t) \<and>
     (\<exists>nd j a v. nodes h x = Some nd \<and> j < 16 \<and> child nd ! j = a OR 1 \<and> a \<in> set (laddrs t)
        \<and> leaves h a = Some \<lparr>key = k, val = v\<rparr> \<and> nodes h' x = Some (nd\<lparr>child := (child nd)[j := NULL]\<rparr>))"

definition evolves ::
  "'l::len word cstate \<Rightarrow> ctree \<Rightarrow> nat set \<Rightarrow> u64 \<Rightarrow> 'l word cstate \<Rightarrow> ctree \<Rightarrow> bool" where
  "evolves s t D k s' t' \<longleftrightarrow> quiet D s t (set (naddrs t')) s'
     \<and> set (naddrs t) \<subseteq> set (naddrs t') \<union> {pending_del_nodes (snd s') ! i |i. i \<in> D}
     \<and> set (laddrs t) \<subseteq> set (laddrs t') \<union> {pending_del_leaves (snd s') ! i |i. i \<in> D}
     \<and> (\<forall>i\<in>D. pending_del_nodes (snd s') ! i = NULL \<or> cuts k (fst s) t (fst s') (pending_del_nodes (snd s') ! i))"

lemma evolves_unlock [simp]: "evolves s t D k (unlock s') t' = evolves s t D k s' t'"
  by (cases s') (simp add: evolves_def quiet_def)

lemma evolves_grow:
  assumes "quiet {} s t (set (naddrs t')) s'" "set (naddrs t) \<subseteq> set (naddrs t')" "set (laddrs t) \<subseteq> set (laddrs t')"
  shows "evolves s t {} k s' t'"
  using assms by (simp add: evolves_def)

lemma evolves_same:
  assumes "pending_del_nodes c' = pending_del_nodes c" "pending_del_leaves c' = pending_del_leaves c" "\<forall>i\<in>D. pending_del_nodes c ! i = NULL"
  shows "evolves (h, c) t D k (h, c') t"
  using assms by (auto simp: evolves_def intro!: quiet_control)

text \<open>An evolution that starts after pending blocks were recycled.\<close>

lemma evolves_after:
  assumes q: "\<And>T. quiet D s t T s1" and n: "\<forall>a\<in>set (naddrs t). nodes (fst s1) a = nodes (fst s) a"
    and e: "evolves s1 t D k s' t'"
  shows "evolves s t D k s' t'"
proof -
  have "leaves (fst s1) a = leaves (fst s) a" if "a \<in> set (laddrs t)" for a
    using q that unfolding quiet_def keeps_def by blast
  then have "cuts k (fst s) t h' x" if "cuts k (fst s1) t h' x" for h' x
    using that n unfolding cuts_def by metis
  with e quiet_trans [OF q] show ?thesis unfolding evolves_def by blast
qed

text \<open>The blocks of a new tree, from the ownership equations before and after.\<close>

lemma cinv_addrs:
  assumes inv: "cinv (h, c) t dn dl xn xl" "cinv (h', c') t' dn dl yn yl"
    and "dom (nodes h') = dom (nodes h)" "dom (leaves h') = dom (leaves h)"
    and p: "pending_del_nodes c' = pending_del_nodes c" "pending_del_leaves c' = pending_del_leaves c"
  shows "mset (naddrs t') + yn = mset (naddrs t) + xn" "mset (laddrs t') + yl = mset (laddrs t) + xl"
proof -
  have "mset (naddrs t') + yn + (mset dn + live (pending_del_nodes c)) = mset (naddrs t) + xn + (mset dn + live (pending_del_nodes c))"
    using cinvD(7) [OF inv(1)] cinvD(7) [OF inv(2)] assms(3) p by (simp add: ac_simps)
  then show "mset (naddrs t') + yn = mset (naddrs t) + xn" by simp
  have "mset (laddrs t') + yl + (mset dl + live (pending_del_leaves c)) = mset (laddrs t) + xl + (mset dl + live (pending_del_leaves c))"
    using cinvD(8) [OF inv(1)] cinvD(8) [OF inv(2)] assms(4) p by (simp add: ac_simps)
  then show "mset (laddrs t') + yl = mset (laddrs t) + xl" by simp
qed

lemma set_of_own: "mset xs + y = mset zs + x \<Longrightarrow> set zs \<subseteq> set xs \<union> set_mset y \<and> set_mset x \<subseteq> set xs \<union> set_mset y"
  by (metis Un_upper1 Un_upper2 set_mset_mset set_mset_union)

lemma quiet_free_leaf:
  assumes "cinv (h, c) t dn dl xn xl" "a \<in># xl" "free_leaf a (h, c) = Some (h', c')"
  shows "quiet D (h, c) t T (h', c')"
proof -
  obtain lf where lf: "leaves h a = Some lf" using cinv_hand(2) [OF assms(1,2)] by auto
  then have "a \<noteq> 0" using no_block_at_NULL(2) [OF cinvD(1) [OF assms(1)]] by auto
  then have e: "h' = set_leaf a (lf\<lparr>val := deleted_leaf c\<rparr>) h" "c' = c\<lparr>deleted_leaf := a\<rparr>" using assms(3) lf by auto
  have "quiet D (h', c) t T (h', c')" by (rule quiet_control) (simp add: e)
  then show ?thesis using quiet_trans [OF quiet_set_leaf [OF assms(1,2)]] e(1) by blast
qed

text \<open>A store that links all blocks in hand into the tree.\<close>

lemma link_quiet:
  assumes inv: "cinv (h, c) t dn dl xn xl" and st: "store (slot_of Q k Root t) x (h, c) = Some (h', c')"
    and inv': "cinv (h', c') t' dn dl {#} {#}"
  shows "set (naddrs t) \<subseteq> set (naddrs t')" "set (laddrs t) \<subseteq> set (laddrs t')" "set_mset xn \<subseteq> set (naddrs t')"
    "quiet D (h, c) t (set (naddrs t')) (h', c')"
proof -
  have "mset (naddrs t') + {#} = mset (naddrs t) + xn" "mset (laddrs t') + {#} = mset (laddrs t) + xl"
    using store_dom [OF st] by (intro cinv_addrs [OF inv inv']; simp)+
  from set_of_own [OF this(1)] set_of_own [OF this(2)]
  show n: "set (naddrs t) \<subseteq> set (naddrs t')" and "set (laddrs t) \<subseteq> set (laddrs t')" "set_mset xn \<subseteq> set (naddrs t')"
    by simp_all
  show "quiet D (h, c) t (set (naddrs t')) (h', c')"
    using quiet_store [OF inv st] slot_owner [OF inv] n by blast
qed

end
