(* ===== verification/Critnib_Insert.thy ===== *)
theory Critnib_Insert
  imports Critnib_Evolve
begin

text \<open>
  \<open>critnib_insert\<close> of \<open>src/critnib.c\<close>.  Its descent stops where \<open>stop\<close> says, its last
  store replaces that subtree, and the result is the tree \<open>t_insert\<close>.  \<open>insert_outcome\<close>
  is the contract: success adds the key, \<open>EEXIST\<close> and \<open>ENOMEM\<close> leave the map alone, and
  \<open>ENOMEM\<close> is only returned when an allocation failed.
\<close>

fun matches :: "u64 \<Rightarrow> ctree \<Rightarrow> bool" where
  "matches k (Node a p s ts) \<longleftrightarrow> up (s + 4) k = up (s + 4) p"
| "matches k t = False"

lemma stop_walk: "stop k t = walk (matches k) k t"
  by (induction k t rule: stop.induct) auto

lemma replace_subst: "replace k r t = subst (matches k) k r t"
  by (induction k r t rule: replace.induct) auto

lemma masked_path:
  assumes "unat p mod 2 ^ (unat sh + 4) = 0"
  shows "p AND path_mask sh = p"
proof (rule bit_eqI)
  fix n
  have "unat (take_bit (unat sh + 4) p) = 0"
    using assms by (simp only: unsigned_take_bit_eq) (simp add: take_bit_eq_mod)
  then have "take_bit (unat sh + 4) p = 0" by (simp only: unat_eq_0)
  then have "\<not> bit (take_bit (unat sh + 4) p) n" by simp
  then show "bit (p AND path_mask sh) n = bit p n"
    by (auto simp: bit_and_iff bit_path_mask bit_take_bit_iff dest: bit_imp_le_length)
qed

lemma path_test:
  "unat p mod 2 ^ (unat sh + 4) = 0 \<Longrightarrow> k AND path_mask sh = p \<longleftrightarrow> up (unat sh + 4) k = up (unat sh + 4) p"
  using masked_path [of p sh] masked_eq_iff [of k sh p] by simp

lemma insert_descend_stop:
  "holds h t \<Longrightarrow> wft t \<Longrightarrow>
   \<exists>pr. insert_descend h k (tptr t) par prev = Some (tptr (stop k t), slot_of (matches k) k par t, pr) \<and>
     (stop k t = Null \<longrightarrow> t = Null \<or>
        (\<exists>nd. nodes h pr = Some nd \<and> slot_of (matches k) k par t = Child pr (slice_index k (shift nd))))"
proof (induction k t arbitrary: par prev rule: stop.induct)
  case (1 k a p s ts)
  note D = wft_NodeD [OF 1(3)]
  let ?c = "ts ! idx k s"
  have rd: "nodes h a = Some \<lparr>child = map tptr ts, path = p, shift = of_nat s\<rparr>" "aligned a"
    "unat (of_nat s :: 'a word) = s" using 1(2) by auto
  have pt: "k AND path_mask (of_nat s :: 'a word) = p \<longleftrightarrow> up (s + 4) k = up (s + 4) p"
    using path_test [of p "of_nat s :: 'a word" k] D(4) rd(3) by simp
  show ?case
  proof (cases "up (s + 4) k = up (s + 4) p")
    case False
    then show ?thesis using rd pt by (subst insert_descend.simps) auto
  next
    case True
    have i: "idx k s < length ts" using D(1) by simp
    then have "holds h ?c" "wft ?c" using 1(2) D(5) by auto
    with 1(1) [of "Child a (idx k s)" a] True i obtain pr where
      pr: "insert_descend h k (tptr ?c) (Child a (idx k s)) a = Some (tptr (stop k ?c), slot_of (matches k) k (Child a (idx k s)) ?c, pr)"
      "stop k ?c = Null \<longrightarrow> ?c = Null \<or>
        (\<exists>nd. nodes h pr = Some nd \<and> slot_of (matches k) k (Child a (idx k s)) ?c = Child pr (slice_index k (shift nd)))"
      by blast
    have eq: "insert_descend h k (tptr (Node a p s ts)) par prev = insert_descend h k (tptr ?c) (Child a (idx k s)) a"
      using rd pt True i by (subst insert_descend.simps) (simp add: slice_index_up)
    have "?c = Null \<Longrightarrow> pr = a" using pr(1) by (subst (asm) insert_descend.simps) simp
    then show ?thesis using pr eq True i rd by (auto simp: slice_index_up)
  qed
qed (subst insert_descend.simps; simp)+

lemma sh_word:
  assumes "6 \<le> LENGTH('l::len)" "p \<noteq> k"
  shows "unat (ucast (util_mssb_index64 (p XOR k)) AND NOT (3 :: 'l word)) = crit_shift p k"
    and "of_nat (crit_shift p k) = (ucast (util_mssb_index64 (p XOR k)) AND NOT (3 :: 'l word))"
    and "unat (of_nat (crit_shift p k) :: 'l word) = crit_shift p k"
proof -
  let ?m = "util_mssb_index64 (p XOR k)"
  have "p XOR k \<noteq> 0" using assms(2) by (simp add: xor_zero_iff)
  from mssb_spec(1) [OF this] have "unat ?m < 2 ^ 6" by simp
  also have "\<dots> \<le> 2 ^ LENGTH('l)" using assms(1) by (intro power_increasing) auto
  finally have "unat (ucast ?m :: 'l word) = unat ?m"
    by (simp add: take_bit_nat_eq_self unsigned_ucast_eq)
  then show 1: "unat (ucast ?m AND NOT (3 :: 'l word)) = crit_shift p k"
    unfolding and_not_3 crit_shift_def by simp
  then show "of_nat (crit_shift p k) = (ucast ?m AND NOT (3 :: 'l word))"
    unfolding 1 [symmetric] by simp
  with 1 show "unat (of_nat (crit_shift p k) :: 'l word) = crit_shift p k" by simp
qed


lemma stop_present: "wft t \<Longrightarrow> k \<in> keys t \<Longrightarrow> \<exists>a v. stop k t = Leaf a k v"
  using stop_matches [of t k] wft_stop [of t k] stop_result [of t k] wft_key_prefix(1)
  by (cases "stop k t") auto

lemma node_path_tptr: "holds h t \<Longrightarrow> t \<noteq> Null \<Longrightarrow> node_path h (tptr t) = Some (t_path t)"
  by (cases t) (auto simp: node_path_def t_path_def)

lemma tmap_insert:
  "wft t \<Longrightarrow> k \<notin> keys t \<Longrightarrow> tmap (t_insert m a k v t) = (tmap t)(k \<mapsto> v)"
proof (rule tmap_eqI)
  assume w: "wft t" and k: "k \<notin> keys t"
  note C = t_insert_correct [OF w k, of m a v]
  show "wft (t_insert m a k v t)" by (rule C(1))
  show "(x, y) \<in> Ent (t_insert m a k v t) \<longleftrightarrow> ((tmap t)(k \<mapsto> v)) x = Some y" for x y
    using k unfolding C(2) by (auto simp: tmap_Some_iff [OF w] keys_def) force
qed

text \<open>
  The effect of the last store of an insertion: the blocks of the old tree are in the new one, and
  nothing else that a reader may see has changed.
\<close>

definition linked ::
  "'l::len word cstate \<Rightarrow> ctree \<Rightarrow> u64 \<Rightarrow> ptr \<Rightarrow> 'l word cstate \<Rightarrow> bool" where
  "linked s t k v s' \<longleftrightarrow> (\<exists>t'. crel (unlock s') t' \<and> tmap t' = (tmap t)(k \<mapsto> v)
     \<and> quiet {} s t (set (naddrs t')) s' \<and> set (naddrs t) \<subseteq> set (naddrs t') \<and> set (laddrs t) \<subseteq> set (laddrs t'))"

lemma linkedI:
  assumes "quiet {} s t (set (naddrs (t_insert m a k v t))) (h', c')"
    "set (naddrs t) \<subseteq> set (naddrs (t_insert m a k v t))" "set (laddrs t) \<subseteq> set (laddrs (t_insert m a k v t))"
    "cinv (h', c') (t_insert m a k v t) dn dl {#} {#}" "root c' = tptr (t_insert m a k v t)" "wft t" "k \<notin> keys t"
  shows "linked s t k v (h', c')"
  unfolding linked_def using assms(1-3) unlock_crel [OF assms(4,5) t_insert_correct(1) [OF assms(6,7)]] tmap_insert [OF assms(6,7)]
  by blast

text \<open>Linking the new leaf into an empty slot.\<close>

lemma insert_leaf_store:
  assumes inv: "cinv (h, c) t dn dl {#} {#a#}" and root: "root c = tptr t" and w: "wft t"
    and lf: "leaves h a = Some \<lparr>key = k, val = v\<rparr>" and n: "stop k t = Null" and k: "k \<notin> keys t"
  shows "\<exists>h' c'. store (slot_of (matches k) k Root t) (a OR 1) (h, c) = Some (h', c')
    \<and> linked (h, c) t k v (h', c') \<and> remove_count c' = remove_count c"
proof -
  let ?t = "t_insert 0 a k v t"
  have "aligned a" using cinvD(1) [OF inv] lf by (simp add: heap_ok_def)
  then have "holds h (Leaf a k v)" using lf by simp
  from store_subst [OF inv root this, of "matches k" k "{#}" "{#}"] n obtain h' c' where
    s: "store (slot_of (matches k) k Root t) (a OR 1) (h, c) = Some (h', c')" "cinv (h', c') ?t dn dl {#} {#}"
      "root c' = tptr ?t" "\<exists>x. c' = c\<lparr>root := x\<rparr>"
    by (auto simp: t_insert_def replace_subst stop_walk)
  have "linked (h, c) t k v (h', c')" by (rule linkedI [OF link_quiet(4,1,2) [OF inv s(1,2)] s(2,3) w k])
  with s(1,4) show ?thesis by auto
qed

text \<open>Linking a new node that holds the new leaf and the subtree at which the descent stopped.\<close>

lemma map_tptr_join:
  "map tptr ((replicate 16 Null)[i := t, j := t']) = (replicate 16 NULL)[i := tptr t, j := tptr t']"
  by (simp add: map_update)

lemma holds_join:
  fixes h :: "'l::len word heap"
  assumes "6 \<le> LENGTH('l)" "holds h n" "t_path n \<noteq> k" "holds h (Leaf a k v)" "aligned m"
    and "nodes h m = Some nd"
    and "child nd = (replicate SLNODES NULL)[slice_index k (shift nd) := a OR 1, slice_index (t_path n) (shift nd) := tptr n]"
    and "path nd = k AND path_mask (shift nd)"
    and "shift nd = (ucast (util_mssb_index64 (t_path n XOR k)) AND NOT 3)"
  shows "holds h (t_join m (Leaf a k v) k n)"
proof -
  let ?sh = "crit_shift (t_path n) k"
  note S = sh_word [OF assms(1,3)]
  have sh: "unat (shift nd) = ?sh" "shift nd = of_nat ?sh" using S assms(9) by simp_all
  have nd: "nd = \<lparr>child = child nd, path = path nd, shift = shift nd\<rparr>" by simp
  have ch: "child nd = map tptr ((replicate 16 Null)[idx k ?sh := Leaf a k v, idx (t_path n) ?sh := n])"
    unfolding assms(7) map_tptr_join by (simp add: slice_index_up sh(1) SLNODES_def)
  have "path nd = k AND push_bit ?sh (NOT NIB)" unfolding assms(8) path_mask_def sh(1) ..
  with ch sh(2) nd have nd': "nodes h m = Some \<lparr>child = map tptr ((replicate 16 Null)[idx k ?sh := Leaf a k v, idx (t_path n) ?sh := n]),
    path = k AND push_bit ?sh (NOT NIB), shift = of_nat ?sh\<rparr>"
    using assms(6) by simp
  have "holds h t" if "t \<in> set ((replicate 16 Null)[idx k ?sh := Leaf a k v, idx (t_path n) ?sh := n])" for t
  proof -
    have "t = n \<or> t = Leaf a k v \<or> t = Null"
      using that by (auto dest!: subsetD [OF set_update_subset_insert])
    then show ?thesis using assms(2,4) by auto
  qed
  then show ?thesis using nd' S(3) assms(5) by (simp add: t_join_def Let_def)
qed

lemma mset_join:
  assumes "t_path n \<noteq> k"
  shows "mset (naddrs (t_join m (Leaf a k v) k n)) = add_mset m (mset (naddrs n))"
    "mset (laddrs (t_join m (Leaf a k v) k n)) = add_mset a (mset (laddrs n))"
proof -
  let ?sh = "crit_shift (t_path n) k"
  let ?i = "idx k ?sh" and ?j = "idx (t_path n) ?sh"
  have ij: "?j \<noteq> ?i" using crit_shift(5) [OF assms] .
  have two: "mset (concat (map f ((replicate 16 Null)[?i := t, ?j := t']))) = mset (f t) + mset (f t')"
    if "f Null = []" for f :: "ctree \<Rightarrow> ptr list" and t t'
    using mset_concat_update [of ?i "replicate 16 Null" f t]
      mset_concat_update [of ?j "(replicate 16 Null)[?i := t]" f t'] ij that by simp
  show "mset (naddrs (t_join m (Leaf a k v) k n)) = add_mset m (mset (naddrs n))"
    using two [of naddrs] by (simp add: t_join_def Let_def)
  show "mset (laddrs (t_join m (Leaf a k v) k n)) = add_mset a (mset (laddrs n))"
    using two [of laddrs] by (simp add: t_join_def Let_def)
qed

lemma insert_join_store:
  fixes h :: "'l::len word heap"
  assumes len: "6 \<le> LENGTH('l)" and inv: "cinv (h, c) t dn dl {#m#} {#a#}" and root: "root c = tptr t"
    and n: "stop k t = n" "n \<noteq> Null" "t_path n \<noteq> k"
    and lf: "leaves h a = Some \<lparr>key = k, val = v\<rparr>"
    and sh: "sh = (ucast (util_mssb_index64 (t_path n XOR k)) AND NOT (3 :: 'l word))"
    and nd': "nd' = nd\<lparr>child := (replicate SLNODES NULL)[slice_index k sh := a OR 1, slice_index (t_path n) sh := tptr n],
                 shift := sh, path := k AND path_mask sh\<rparr>"
    and k: "k \<notin> keys t" "wft t" and before: "\<And>T. m \<in> T \<Longrightarrow> quiet {} s t T (h, c)"
  shows "\<exists>h' c'. store (slot_of (matches k) k Root t) m (set_node m nd' h, c) = Some (h', c')
    \<and> linked s t k v (h', c') \<and> remove_count c' = remove_count c"
proof -
  let ?h = "set_node m nd' h" and ?r = "t_join m (Leaf a k v) k n"
  have inv': "cinv (?h, c) t dn dl {#m#} {#a#}" using nd' by (intro cinv_set_node [OF inv]) (simp_all add: SLNODES_def)
  have hn: "holds ?h n" using holds_walk [OF cinvD(2) [OF inv'], of "matches k" k] n(1) by (simp add: stop_walk)
  have al: "aligned m" "aligned a"
    using cinvD(1) [OF inv'] cinv_hand [OF inv'] lf by (auto simp: heap_ok_def)
  have hl: "holds ?h (Leaf a k v)" using al lf by simp
  have "holds ?h ?r"
    by (rule holds_join [OF len hn n(3) hl al(1), where nd = nd']) (simp_all add: nd' sh)
  moreover have "tptr ?r = m" by (simp add: t_join_def Let_def)
  moreover have "subst (matches k) k ?r t = t_insert m a k v t" "walk (matches k) k t = n"
    using n by (simp_all add: t_insert_def replace_subst stop_walk)
  moreover have "set (naddrs ?r) = insert m (set (naddrs n))"
    using arg_cong [OF mset_join(1) [OF n(3), of m a v], of set_mset] by simp
  ultimately obtain h' c' where
    s: "store (slot_of (matches k) k Root t) m (?h, c) = Some (h', c')" "cinv (h', c') (t_insert m a k v t) dn dl {#} {#}"
      "root c' = tptr (t_insert m a k v t)" "\<exists>x. c' = c\<lparr>root := x\<rparr>"
    using store_subst [OF inv' root, of ?r "matches k" k "{#}" "{#}"] mset_join [OF n(3), of m a v] by auto
  note L = link_quiet [OF inv' s(1,2)]
  have m: "m \<in> set (naddrs (t_insert m a k v t))" using L(3) by simp
  have "quiet {} (h, c) t (set (naddrs (t_insert m a k v t))) (?h, c)" using quiet_set_node [OF inv _ m] by simp
  with before [OF m] L(4) have "quiet {} s t (set (naddrs (t_insert m a k v t))) (h', c')" by (meson quiet_trans)
  then have "linked s t k v (h', c')" by (rule linkedI [OF _ L(1,2) s(2,3) k(2,1)])
  then show ?thesis using s(1,4) by auto
qed


text \<open>
  When \<open>ENOMEM\<close> may be returned: \<open>malloc\<close> failed on the heap the insertion started with
  (for the leaf) or on that heap with at most one leaf more (for the node), and the pool that
  would have made the call unnecessary was empty.
\<close>

definition malloc_failed :: "'w allocator \<Rightarrow> 'w cstate \<Rightarrow> bool" where
  "malloc_failed mal s \<longleftrightarrow>
     deleted_leaf (snd s) = NULL \<and> fst (malloc_leaf mal (fst s)) = NULL
     \<or> deleted_node (snd s) = NULL
        \<and> (\<exists>h a. nodes h = nodes (fst s) \<and> dom (leaves h) \<subseteq> insert a (dom (leaves (fst s)))
              \<and> fst (malloc_node mal h) = NULL)"

definition insert_outcome ::
  "'l::len word allocator \<Rightarrow> u64 \<Rightarrow> ptr \<Rightarrow> 'l word cstate \<Rightarrow> (u64 \<rightharpoonup> ptr) \<Rightarrow> int \<Rightarrow> 'l word cstate \<Rightarrow> bool" where
  "insert_outcome mal k v s m r s' \<longleftrightarrow>
     remove_count (snd s') = remove_count (snd s) \<and>
     (r = 0 \<and> k \<notin> dom m \<and> critnib_rel s' (m(k \<mapsto> v))
      \<or> r = EEXIST \<and> k \<in> dom m \<and> critnib_rel s' m
      \<or> r = ENOMEM \<and> malloc_failed mal s \<and> critnib_rel s' m)"

lemma alloc_leaf_dom: "alloc_leaf mal (h, c) = Some (a, (h', c')) \<Longrightarrow> dom (leaves h') \<subseteq> insert a (dom (leaves h))"
  by (auto simp: Let_def split: if_splits prod.splits bind_splits)

lemma unlock_rel:
  "cinv (h, c) t dn dl {#} {#} \<Longrightarrow> root c = tptr t \<Longrightarrow> wft t \<Longrightarrow> critnib_rel (unlock (h, c)) (tmap t)"
  by (auto intro!: critnib_relI simp: cinv_irrelevant)

text \<open>
  The same with the trees: \<open>insert_step\<close> says in addition what the insertion leaves alone of the
  blocks that a reader may hold.
\<close>

definition insert_step ::
  "'l::len word allocator \<Rightarrow> u64 \<Rightarrow> ptr \<Rightarrow> 'l word cstate \<Rightarrow> ctree \<Rightarrow> int \<Rightarrow> 'l word cstate \<Rightarrow> bool" where
  "insert_step mal k v s t r s' \<longleftrightarrow>
     remove_count (snd s') = remove_count (snd s) \<and>
     (\<exists>t'. crel s' t' \<and> evolves s t {} k s' t' \<and>
        (r = 0 \<and> k \<notin> keys t \<and> tmap t' = (tmap t)(k \<mapsto> v)
         \<or> r = EEXIST \<and> k \<in> keys t \<and> tmap t' = tmap t
         \<or> r = ENOMEM \<and> malloc_failed mal s \<and> tmap t' = tmap t))"

lemma insert_step_outcome: "insert_step mal k v s t r s' \<Longrightarrow> insert_outcome mal k v s (tmap t) r s'"
  unfolding insert_step_def insert_outcome_def critnib_rel_crel dom_tmap by metis

lemma insert_step_linked:
  assumes "linked s1 t k v s'" "\<And>T. quiet {} s t T s1" "remove_count (snd s') = remove_count (snd s)" "k \<notin> keys t"
  shows "insert_step mal k v s t 0 (unlock s')"
proof -
  obtain t' where t': "crel (unlock s') t'" "tmap t' = (tmap t)(k \<mapsto> v)" "quiet {} s1 t (set (naddrs t')) s'"
    "set (naddrs t) \<subseteq> set (naddrs t')" "set (laddrs t) \<subseteq> set (laddrs t')" using assms(1) unfolding linked_def by blast
  have "evolves s t {} k (unlock s') t'"
    using evolves_grow [OF quiet_trans [OF assms(2) t'(3)] t'(4,5)] by simp
  moreover have "remove_count (snd (unlock s')) = remove_count (snd s)" using assms(3) by (cases s') simp
  ultimately show ?thesis using t'(1,2) assms(4) unfolding insert_step_def by blast
qed

text \<open>A failed insertion gives its leaf to the pool and changes nothing else.\<close>

lemma give_back:
  assumes inv: "cinv (h, c) t dn dl {#} {#a#}" and root: "root c = tptr t" and w: "wft t"
    and before: "\<And>T. quiet {} s t T (h, c)" and rc: "remove_count c = remove_count (snd s)"
    and r: "r = EEXIST \<and> k \<in> keys t \<or> r = ENOMEM \<and> malloc_failed mal s"
  shows "\<exists>s'. free_leaf a (h, c) = Some s' \<and> insert_step mal k v s t r (unlock s')"
proof -
  obtain h' c' dl' where f: "free_leaf a (h, c) = Some (h', c')" "cinv (h', c') t dn dl' {#} {#}" "root c' = tptr t"
    "remove_count c' = remove_count (snd s)" using free_leaf_inv [OF inv] root rc by auto
  have "quiet {} s t (set (naddrs t)) (h', c')" using quiet_trans [OF before quiet_free_leaf [OF inv _ f(1)]] by simp
  then have "evolves s t {} k (unlock (h', c')) t" unfolding evolves_unlock by (rule evolves_grow) simp_all
  moreover have "crel (unlock (h', c')) t" by (rule unlock_crel [OF f(2,3) w])
  moreover have "remove_count (snd (unlock (h', c'))) = remove_count (snd s)" using f(4) by simp
  ultimately have "insert_step mal k v s t r (unlock (h', c'))" using r unfolding insert_step_def by blast
  with f(1) show ?thesis by blast
qed

text \<open>The part of \<open>critnib_insert\<close> after the new leaf has been filled in.\<close>

lemma insert_link_step:
  fixes h :: "'l::len word heap"
  assumes len: "6 \<le> LENGTH('l)" and mal: "malloc_ok mal"
    and inv: "cinv (h, c) t dn dl {#} {#a#}" and root: "root c = tptr t" and w: "wft t" and t: "t \<noteq> Null"
    and lf: "leaves h a = Some \<lparr>key = k, val = v\<rparr>"
    and before: "\<And>T. quiet {} s t T (h, c)" and rc: "remove_count c = remove_count (snd s)"
    and dn: "deleted_node c = deleted_node (snd s)" "nodes h = nodes (fst s)" "dom (leaves h) \<subseteq> insert x (dom (leaves (fst s)))"
  shows "\<exists>r s'. insert_link mal k (a OR 1) (h, c) = Some (r, s') \<and> insert_step mal k v s t r s'"
  (is "\<exists>r s'. ?P = _ \<and> _")
proof -
  have ht: "holds h t" by (rule cinvD(2) [OF inv])
  have al: "aligned a" using cinvD(1) [OF inv] lf by (simp add: heap_ok_def)
  let ?n = "stop k t"
  have hn: "holds h ?n" using holds_walk [OF ht] by (simp add: stop_walk)
  obtain pr where d: "insert_descend h k (root c) Root (root c) = Some (tptr ?n, slot_of (matches k) k Root t, pr)"
    and pr: "?n = Null \<Longrightarrow> \<exists>nd. nodes h pr = Some nd \<and> slot_of (matches k) k Root t = Child pr (slice_index k (shift nd))"
    using insert_descend_stop [OF ht w, of k Root "root c"] root t by auto
  note give = give_back [OF inv root w before rc]
  consider (hit) "k \<in> keys t" | (empty) "k \<notin> keys t" "?n = Null" | (join) "k \<notin> keys t" "?n \<noteq> Null" by blast
  then show ?thesis
  proof cases
    case hit
    then obtain b v' where n: "?n = Leaf b k v'" using stop_present [OF w] by blast
    then have p: "node_path h (tptr ?n) = Some k" using node_path_tptr [OF hn] by (simp add: t_path_def)
    obtain s' where f: "free_leaf a (h, c) = Some s'" "insert_step mal k v s t EEXIST (unlock s')" using give hit by blast
    have "?P = Some (EEXIST, unlock s')" using d n p f(1) al by (simp add: insert_link_def del: free_leaf.simps)
    with f(2) show ?thesis by blast
  next
    case empty
    from pr [OF empty(2)] obtain nd where nd: "nodes h pr = Some nd"
      "slot_of (matches k) k Root t = Child pr (slice_index k (shift nd))" by blast
    obtain h' c' where s: "store (Child pr (slice_index k (shift nd))) (a OR 1) (h, c) = Some (h', c')"
      "linked (h, c) t k v (h', c')" "remove_count c' = remove_count c"
      using insert_leaf_store [OF inv root w lf empty(2,1)] nd(2) by auto
    have "?P = Some (0, unlock (h', c'))" using d empty nd s(1) by (simp add: insert_link_def)
    with insert_step_linked [OF s(2) before _ empty(1)] s(3) rc show ?thesis by auto
  next
    case join
    have p: "node_path h (tptr ?n) = Some (t_path ?n)" by (rule node_path_tptr [OF hn join(2)])
    have nk: "t_path ?n \<noteq> k"
      using t_path_prefix(1) [OF wft_stop [OF w] join(2) _ stop_stop] join(1) keys_stop_subset by blast
    then have at: "t_path ?n XOR k \<noteq> 0" by (simp add: xor_zero_iff)
    have nz: "tptr ?n \<noteq> 0" using tptr_NULL_iff [OF hn] join(2) by simp
    obtain m h1 c1 dn1 where m: "alloc_node mal (h, c) = Some (m, (h1, c1))" "leaves h1 = leaves h"
      "\<exists>x. c1 = c\<lparr>deleted_node := x\<rparr>"
      "if m = NULL then h1 = h \<and> c1 = c \<and> deleted_node c = NULL \<and> fst (malloc_node mal h) = NULL
       else cinv (h1, c1) t dn1 dl {#m#} {#a#}"
      using alloc_node_inv [OF inv mal] by blast
    show ?thesis
    proof (cases "m = 0")
      case True
      then have "malloc_failed mal s" using m(4) dn unfolding malloc_failed_def by auto
      then obtain s' where f: "free_leaf a (h, c) = Some s'" "insert_step mal k v s t ENOMEM (unlock s')" using give by blast
      have "?P = Some (ENOMEM, unlock s')" using d p at nz m True f(1) al
        by (simp add: insert_link_def Let_def del: free_leaf.simps)
      with f(2) show ?thesis by blast
    next
      case False
      then have inv1: "cinv (h1, c1) t dn1 dl {#m#} {#a#}" using m(4) by simp
      obtain nd where nd: "nodes h1 m = Some nd" using cinv_hand(1) [OF inv1, of m] by auto
      have c1: "root c1 = tptr t" "remove_count c1 = remove_count (snd s)" using m(3) root rc by auto
      have lf1: "leaves h1 a = Some \<lparr>key = k, val = v\<rparr>" using m(2) lf by simp
      have b1: "quiet {} (h, c) t T (h1, c1)" if "m \<in> T" for T by (rule quiet_alloc_node [OF inv mal m(1) that])
      obtain h' c' where
        s: "store (slot_of (matches k) k Root t) m (set_node m (nd\<lparr>child := (replicate SLNODES NULL)[slice_index k (ucast (util_mssb_index64 (t_path ?n XOR k)) AND NOT (3::'l word)) := a OR 1,
             slice_index (t_path ?n) (ucast (util_mssb_index64 (t_path ?n XOR k)) AND NOT (3::'l word)) := tptr ?n],
             shift := ucast (util_mssb_index64 (t_path ?n XOR k)) AND NOT (3::'l word),
             path := k AND path_mask (ucast (util_mssb_index64 (t_path ?n XOR k)) AND NOT (3::'l word))\<rparr>) h1, c1) = Some (h', c')"
        "linked (h, c) t k v (h', c')" "remove_count c' = remove_count c1"
        using insert_join_store [OF len inv1 c1(1) refl join(2) nk lf1 refl refl join(1) w b1, of nd] by blast
      have "?P = Some (0, unlock (h', c'))" using d p at nz m(1) False nd s(1) by (simp add: insert_link_def Let_def)
      with insert_step_linked [OF s(2) before _ join(1)] s(3) c1(2) show ?thesis by auto
    qed
  qed
qed

lemma critnib_insert_step:
  fixes s :: "'l::len word cstate"
  assumes len: "6 \<le> LENGTH('l)" and mal: "malloc_ok mal" and rel: "crel s t"
  shows "\<exists>r s'. critnib_insert mal k v s = Some (r, s') \<and> insert_step mal k v s t r s'"
proof -
  obtain h c where s: "s = (h, c)" by fastforce
  from rel s obtain dn dl where t: "cinv (h, c) t dn dl {#} {#}" "root c = tptr t" "wft t" "\<not> mutex c"
    by (auto elim: crelE)
  let ?c = "c\<lparr>mutex := True\<rparr>"
  have inv: "cinv (h, ?c) t dn dl {#} {#}" using t(1) by simp
  from alloc_leaf_inv [OF this mal] obtain a h1 c1 dl1 where
    a: "alloc_leaf mal (h, ?c) = Some (a, (h1, c1))" "nodes h1 = nodes h" "\<exists>x. c1 = ?c\<lparr>deleted_leaf := x\<rparr>"
      "if a = NULL then h1 = h \<and> c1 = ?c \<and> deleted_leaf ?c = NULL \<and> fst (malloc_leaf mal h) = NULL
       else cinv (h1, c1) t dn dl1 {#} {#a#}" by blast
  have c1: "root c1 = tptr t" "remove_count c1 = remove_count (snd s)" using a(3) t(2) s by auto
  have q0: "quiet {} s t T (h, ?c)" for T unfolding s by (rule quiet_control) simp
  show ?thesis
  proof (cases "a = 0")
    case True
    then have "critnib_insert mal k v s = Some (ENOMEM, unlock (h, ?c))"
      using a s t(4) by (simp add: critnib_insert_def del: alloc_leaf.simps)
    moreover have "crel (unlock (h, ?c)) t" using unlock_crel [OF inv] t(2,3) by simp
    moreover have "evolves s t {} k (unlock (h, ?c)) t" unfolding evolves_unlock by (rule evolves_grow [OF q0]) simp_all
    moreover have "malloc_failed mal s" using a(4) True s by (auto simp: malloc_failed_def)
    moreover have "remove_count (snd (unlock (h, ?c))) = remove_count (snd s)" using s by simp
    ultimately show ?thesis unfolding insert_step_def by blast
  next
    case False
    then have inv1: "cinv (h1, c1) t dn dl1 {#} {#a#}" using a(4) by simp
    obtain lf where lf: "leaves h1 a = Some lf" using cinv_hand(2) [OF inv1, of a] by auto
    let ?h = "set_leaf a (lf\<lparr>key := k, val := v\<rparr>) h1"
    have inv2: "cinv (?h, c1) t dn dl1 {#} {#a#}" using cinv_set_leaf [OF inv1] by simp
    have lf2: "leaves ?h a = Some \<lparr>key = k, val = v\<rparr>" by simp
    have "quiet {} (h, ?c) t T (h1, c1)" "quiet {} (h1, c1) t T (?h, c1)" for T
      using quiet_alloc_leaf [OF inv mal a(1)] quiet_set_leaf [OF inv1] by simp_all
    then have q2: "quiet {} s t T (?h, c1)" for T using q0 by (meson quiet_trans)
    have go: "critnib_insert mal k v s =
        (if root c1 = NULL then Some (0, unlock (?h, c1\<lparr>root := a OR 1\<rparr>)) else insert_link mal k (a OR 1) (?h, c1))"
      using a(1) s t(4) False lf by (simp add: critnib_insert_def del: alloc_leaf.simps)
    show ?thesis
    proof (cases "t = Null")
      case True
      from insert_leaf_store [OF inv2 c1(1) t(3) lf2] True
      have l: "linked (?h, c1) t k v (?h, c1\<lparr>root := a OR 1\<rparr>)" by simp
      have "insert_step mal k v s t 0 (unlock (?h, c1\<lparr>root := a OR 1\<rparr>))"
        by (rule insert_step_linked [OF l q2]) (use c1 True in simp_all)
      then show ?thesis using go c1(1) True by auto
    next
      case False
      then have "root c1 \<noteq> 0" using c1(1) tptr_NULL_iff [OF cinvD(2) [OF inv2]] by simp
      have pre: "deleted_node c1 = deleted_node (snd s)" "nodes ?h = nodes (fst s)"
        "dom (leaves ?h) \<subseteq> insert a (dom (leaves (fst s)))"
        using a(2,3) s alloc_leaf_dom [OF a(1)] by auto
      from \<open>root c1 \<noteq> 0\<close> show ?thesis
        using go insert_link_step [OF len mal inv2 c1(1) t(3) False lf2 q2 c1(2) pre] by simp
    qed
  qed
qed

lemma critnib_insert_rel:
  fixes s :: "'l::len word cstate"
  assumes "6 \<le> LENGTH('l)" "malloc_ok mal" "critnib_rel s m"
  shows "\<exists>r s'. critnib_insert mal k v s = Some (r, s') \<and> insert_outcome mal k v s m r s'"
  using critnib_insert_step [OF assms(1,2)] insert_step_outcome assms(3) unfolding critnib_rel_crel by blast

end
