(* ===== verification/Critnib_Remove.thy ===== *)
theory Critnib_Remove
  imports Critnib_Insert
begin

text \<open>
  \<open>critnib_remove\<close> of \<open>src/critnib.c\<close>.  The blocks that wait in the pending slot of this
  removal go to the pools, the descent ends at the last node \<open>walk (deeper k) k t\<close>, and the
  result is the tree \<open>t_remove\<close>; the removed leaf, and the node that is left with one child,
  go to the pending slot.  The value returned is the one the map held.
\<close>

subsection \<open>Recycling the pending blocks\<close>

lemma live_concat: "live ps = mset (concat (map (\<lambda>p. if p \<noteq> NULL then [p] else []) ps))"
  by (induction ps) (auto simp: live_def)

lemma live_update: "i < length ps \<Longrightarrow> live (ps[i := q]) + live [ps ! i] = live ps + live [q]"
  using mset_concat_update [of i ps "\<lambda>p. if p \<noteq> NULL then [p] else []" q] unfolding live_concat by simp

lemma live_simps [simp]: "live [0] = {#}" "q \<noteq> 0 \<Longrightarrow> live [q] = {#q#}"
  by (simp_all add: live_def)

lemma upd_order [simp]:
  "c\<lparr>pending_del_nodes := p, deleted_node := x\<rparr> = c\<lparr>deleted_node := x, pending_del_nodes := p\<rparr>"
  "c\<lparr>pending_del_nodes := p, deleted_leaf := x\<rparr> = c\<lparr>deleted_leaf := x, pending_del_nodes := p\<rparr>"
  "c\<lparr>pending_del_leaves := p, deleted_leaf := x\<rparr> = c\<lparr>deleted_leaf := x, pending_del_leaves := p\<rparr>"
  by simp_all

lemma own_pend:
  fixes p :: "'a :: cancel_comm_monoid_add"
  assumes "p' + o' = p + q" "q + y = o' + x" "t + d + p + x = m"
  shows "t + d + p' + y = m"
proof -
  have "p' + y = p + x" by (rule exchange [OF assms(1,2)])
  then show ?thesis using assms(3) by (simp add: add.assoc)
qed

lemma cinv_pend_node:
  assumes inv: "cinv (h, c) t dn dl xn xl" and i: "i < 16" and "live [q] + yn = live [pending_del_nodes c ! i] + xn"
  shows "cinv (h, c\<lparr>pending_del_nodes := (pending_del_nodes c)[i := q]\<rparr>) t dn dl yn xl"
  using cinvD [OF inv] own_pend [OF live_update assms(3) cinvD(7) [OF inv]] i by (intro cinvI) simp_all

lemma cinv_pend_leaf:
  assumes inv: "cinv (h, c) t dn dl xn xl" and i: "i < 16" and "live [q] + yl = live [pending_del_leaves c ! i] + xl"
  shows "cinv (h, c\<lparr>pending_del_leaves := (pending_del_leaves c)[i := q]\<rparr>) t dn dl xn yl"
  using cinvD [OF inv] own_pend [OF live_update assms(3) cinvD(8) [OF inv]] i by (intro cinvI) simp_all

text \<open>No reader holds a block whose pending slot is reused.\<close>

lemma quiet_recycle:
  assumes inv: "cinv (h, c) t dn dl xn xl"
    and c': "\<forall>j<16. j \<noteq> i \<longrightarrow> pending_del_nodes c' ! j = pending_del_nodes c ! j \<and> pending_del_leaves c' ! j = pending_del_leaves c ! j"
    and e: "\<forall>j<16. j \<noteq> i \<longrightarrow> pending_del_nodes c'' ! j = pending_del_nodes c ! j \<and> pending_del_leaves c'' ! j = pending_del_leaves c ! j"
  shows "nodes h a = Some nd \<Longrightarrow> a \<in># xn \<Longrightarrow> x \<in> insert NULL (dom (nodes h)) \<Longrightarrow>
      quiet {i} (h, c') t T (set_node a (nd\<lparr>child := (child nd)[0 := x]\<rparr>) h, c'')"
    and "a \<in># xl \<Longrightarrow> quiet {i} (h, c') t T (set_leaf a lf h, c'')"
proof -
  have p: "pnodes c' {i} = pnodes c {i}" "pleaves c' {i} = pleaves c {i}" using pend_cong [of "{i}" c' c] c' by auto
  have d: "\<forall>j<16. j \<notin> {i} \<longrightarrow> pending_del_nodes c'' ! j = pending_del_nodes c' ! j \<and> pending_del_leaves c'' ! j = pending_del_leaves c' ! j"
    using c' e by simp
  show "quiet {i} (h, c') t T (set_node a (nd\<lparr>child := (child nd)[0 := x]\<rparr>) h, c'')"
    if "nodes h a = Some nd" "a \<in># xn" "x \<in> insert NULL (dom (nodes h))"
    using cinv_apart(2) [OF inv that(2), of "{i}"] d that extends_set_child [OF that(1)]
    unfolding quiet_def p fst_conv snd_conv by (simp add: keeps_set_node p)
  show "quiet {i} (h, c') t T (set_leaf a lf h, c'')" if "a \<in># xl"
    using cinv_apart(3) [OF inv that, of "{i}"] d unfolding quiet_def p fst_conv snd_conv
    by (simp add: keeps_set_leaf extends_set_leaf p)
qed

lemma recycle_node:
  assumes inv: "cinv (h, c) t dn dl {#} xl" and i: "i < 16"
  shows "\<exists>h' x dn'. free_node (pending_del_nodes c ! i) (h, c) = Some (h', c\<lparr>deleted_node := x\<rparr>)
    \<and> leaves h' = leaves h
    \<and> cinv (h', c\<lparr>deleted_node := x, pending_del_nodes := (pending_del_nodes c)[i := NULL]\<rparr>) t dn' dl {#} xl
    \<and> (\<forall>T. quiet {i} (h, c) t T (h', c\<lparr>deleted_node := x\<rparr>)) \<and> (\<forall>a\<in>set (naddrs t). nodes h' a = nodes h a)"
proof (cases "pending_del_nodes c ! i = 0")
  case True
  then have "(pending_del_nodes c)[i := NULL] = pending_del_nodes c" by (metis list_update_id)
  then show ?thesis using True inv by (auto intro!: exI [of _ h] exI [of _ "deleted_node c"] exI [of _ dn] quiet_control)
next
  case False
  let ?a = "pending_del_nodes c ! i" and ?c = "c\<lparr>pending_del_nodes := (pending_del_nodes c)[i := NULL]\<rparr>"
  have I: "cinv (h, ?c) t dn dl {#?a#} xl" using cinv_pend_node [OF inv i, of NULL "{#?a#}"] False by simp
  then have "\<not> is_leaf ?a" using cinv_hand(1) [OF I, of ?a] cinvD(1) [OF I] by (auto simp: heap_ok_def)
  moreover obtain nd where nd: "nodes h ?a = Some nd"
    "cinv (set_node ?a (nd\<lparr>child := (child nd)[0 := deleted_node c]\<rparr>) h, ?c\<lparr>deleted_node := ?a\<rparr>) t (?a # dn) dl {#} xl"
    using free_node_inv [OF I] by auto
  moreover have "deleted_node c \<in> insert NULL (dom (nodes h))" using cinvD(3) [OF inv] by (cases dn) auto
  then have "quiet {i} (h, c) t T (set_node ?a (nd\<lparr>child := (child nd)[0 := deleted_node c]\<rparr>) h, c\<lparr>deleted_node := ?a\<rparr>)" for T
    using quiet_recycle(1) [OF I _ _ nd(1), of i c "c\<lparr>deleted_node := ?a\<rparr>"] by simp
  moreover have "?a \<notin> set (naddrs t)" using cinv_hand(1) [OF I, of ?a] by simp
  ultimately show ?thesis using False
    by (intro exI [of _ "set_node ?a (nd\<lparr>child := (child nd)[0 := deleted_node c]\<rparr>) h"] exI [of _ ?a] exI [of _ "?a # dn"]) auto
qed

lemma recycle_leaf:
  assumes inv: "cinv (h, c) t dn dl xn {#}" and i: "i < 16"
  shows "\<exists>h' x dl'. (\<forall>c'. deleted_leaf c' = deleted_leaf c \<longrightarrow>
        free_leaf (pending_del_leaves c ! i) (h, c') = Some (h', c'\<lparr>deleted_leaf := x\<rparr>))
    \<and> (\<forall>T c' c''. (\<forall>j<16. j \<noteq> i \<longrightarrow> pending_del_nodes c' ! j = pending_del_nodes c ! j \<and> pending_del_leaves c' ! j = pending_del_leaves c ! j)
        \<and> (\<forall>j<16. j \<noteq> i \<longrightarrow> pending_del_nodes c'' ! j = pending_del_nodes c ! j \<and> pending_del_leaves c'' ! j = pending_del_leaves c ! j)
        \<longrightarrow> quiet {i} (h, c') t T (h', c'')) \<and> nodes h' = nodes h
    \<and> cinv (h', c\<lparr>deleted_leaf := x, pending_del_leaves := (pending_del_leaves c)[i := NULL]\<rparr>) t dn dl' xn {#}"
proof (cases "pending_del_leaves c ! i = 0")
  case True
  then have "(pending_del_leaves c)[i := NULL] = pending_del_leaves c" by (metis list_update_id)
  then show ?thesis using True inv by (auto intro!: exI [of _ h] exI [of _ "deleted_leaf c"] exI [of _ dl] quiet_control)
next
  case False
  let ?a = "pending_del_leaves c ! i" and ?c = "c\<lparr>pending_del_leaves := (pending_del_leaves c)[i := NULL]\<rparr>"
  have I: "cinv (h, ?c) t dn dl xn {#?a#}" using cinv_pend_leaf [OF inv i, of NULL "{#?a#}"] False by simp
  from free_leaf_inv [OF I] obtain lf where
    lf: "leaves h ?a = Some lf" "cinv (set_leaf ?a (lf\<lparr>val := deleted_leaf c\<rparr>) h, ?c\<lparr>deleted_leaf := ?a\<rparr>) t dn (?a # dl) xn {#}"
    by auto
  have "quiet {i} (h, c') t T (set_leaf ?a (lf\<lparr>val := deleted_leaf c\<rparr>) h, c'')"
    if "\<forall>j<16. j \<noteq> i \<longrightarrow> pending_del_nodes c' ! j = pending_del_nodes c ! j \<and> pending_del_leaves c' ! j = pending_del_leaves c ! j"
      "\<forall>j<16. j \<noteq> i \<longrightarrow> pending_del_nodes c'' ! j = pending_del_nodes c ! j \<and> pending_del_leaves c'' ! j = pending_del_leaves c ! j" for T c' c''
    by (rule quiet_recycle(2) [OF I]) (use that in simp_all)
  then show ?thesis using lf False
    by (intro exI [of _ "set_leaf ?a (lf\<lparr>val := deleted_leaf c\<rparr>) h"] exI [of _ ?a] exI [of _ "?a # dl"]) auto
qed

lemma recycle_inv:
  assumes inv: "cinv (h, c) t dn dl {#} {#}" and i: "i < 16"
  shows "\<exists>h' c' s1 dn' dl'. free_node (pending_del_nodes c ! i) (h, c) = Some s1
    \<and> (\<exists>c2. free_leaf (pending_del_leaves c ! i) s1 = Some (h', c2)
         \<and> c' = c2\<lparr>pending_del_nodes := (pending_del_nodes c2)[i := NULL], pending_del_leaves := (pending_del_leaves c2)[i := NULL]\<rparr>)
    \<and> cinv (h', c') t dn' dl' {#} {#} \<and> root c' = root c \<and> remove_count c' = remove_count c
    \<and> pending_del_nodes c' ! i = NULL \<and> pending_del_leaves c' ! i = NULL
    \<and> (\<forall>T. quiet {i} (h, c) t T (h', c')) \<and> (\<forall>a\<in>set (naddrs t). nodes h' a = nodes h a)"
proof -
  have len: "length (pending_del_nodes c) = 16" "length (pending_del_leaves c) = 16" using cinvD [OF inv] by simp_all
  obtain h1 x dn' where 1: "free_node (pending_del_nodes c ! i) (h, c) = Some (h1, c\<lparr>deleted_node := x\<rparr>)"
    "cinv (h1, c\<lparr>deleted_node := x, pending_del_nodes := (pending_del_nodes c)[i := NULL]\<rparr>) t dn' dl {#} {#}"
    "\<And>T. quiet {i} (h, c) t T (h1, c\<lparr>deleted_node := x\<rparr>)" "\<forall>a\<in>set (naddrs t). nodes h1 a = nodes h a"
    using recycle_node [OF inv i] by blast
  from recycle_leaf [OF 1(2) i] obtain h2 y dl' where
    2: "free_leaf (pending_del_leaves c ! i) (h1, c\<lparr>deleted_node := x\<rparr>) = Some (h2, c\<lparr>deleted_node := x, deleted_leaf := y\<rparr>)"
    "cinv (h2, c\<lparr>deleted_node := x, pending_del_nodes := (pending_del_nodes c)[i := NULL],
       deleted_leaf := y, pending_del_leaves := (pending_del_leaves c)[i := NULL]\<rparr>) t dn' dl' {#} {#}"
    and q: "\<And>T. quiet {i} (h1, c\<lparr>deleted_node := x\<rparr>) t T (h2, c\<lparr>deleted_node := x, pending_del_nodes := (pending_del_nodes c)[i := NULL],
       deleted_leaf := y, pending_del_leaves := (pending_del_leaves c)[i := NULL]\<rparr>)" "nodes h2 = nodes h1"
    by (auto simp del: free_leaf.simps)
  show ?thesis using 1(1,4) 2 len i q(2) quiet_trans [OF 1(3) q(1)] by (auto simp del: free_leaf.simps free_node.simps)
qed


subsection \<open>The descent\<close>

fun deeper :: "u64 \<Rightarrow> ctree \<Rightarrow> bool" where
  "deeper k (Node a p s ts) \<longleftrightarrow> is_node (ts ! idx k s)"
| "deeper k t = False"

lemma walk_deeper:
  "wft t \<Longrightarrow> is_node t \<Longrightarrow> \<exists>b p s ts. walk (deeper k) k t = Node b p s ts
     \<and> wft (Node b p s ts) \<and> \<not> is_node (ts ! idx k s)"
proof (induction "deeper k" k t rule: walk.induct)
  case (1 k a p s ts)
  have "idx k s < length ts" using wft_NodeD(1) [OF 1(2)] by simp
  then show ?case using 1 wft_NodeD(5) [OF 1(2)] by (cases "deeper k (Node a p s ts)") auto
qed auto

lemma walk_Ent: "Ent (walk Q k t) \<subseteq> Ent t"
  by (induction Q k t rule: walk.induct) (auto, meson nth_mem subsetD)

lemma subst_walk: "subst Q k (walk Q k t) t = t"
  by (induction Q k t rule: walk.induct) auto

lemma t_remove_subst:
  "wft t \<Longrightarrow> is_node t \<Longrightarrow> t_remove k t = subst (deeper k) k (t_remove k (walk (deeper k) k t)) t"
proof (induction "deeper k" k t rule: walk.induct)
  case (1 k a p s ts)
  have "idx k s < length ts" using wft_NodeD(1) [OF 1(2)] by simp
  then show ?case using 1 wft_NodeD(5) [OF 1(2)] by (cases "deeper k (Node a p s ts)") auto
qed auto

lemma is_node_subst: "is_node r \<Longrightarrow> is_node t \<Longrightarrow> is_node (subst Q k r t)"
  by (cases t) auto

lemma subst_twice:
  "is_node r \<Longrightarrow> walk (deeper k) k (subst (deeper k) k r t) = walk (deeper k) k r"
  "is_node r \<Longrightarrow> slot_of (deeper k) k par (subst (deeper k) k r t) = slot_of (deeper k) k (slot_of (deeper k) k par t) r"
  "is_node r \<Longrightarrow> subst (deeper k) k r' (subst (deeper k) k r t) = subst (deeper k) k (subst (deeper k) k r' r) t"
  by (induction "deeper k" k r t arbitrary: par rule: subst.induct) (auto simp: is_node_subst)

lemma to_the_end:
  assumes "wft t" "walk (deeper k) k t = Node b p s ts" "is_node t"
  shows "walk (\<lambda>_. True) k t = ts ! idx k s \<and> slot_of (\<lambda>_. True) k par t = Child b (idx k s)
    \<and> subst (\<lambda>_. True) k r t = subst (deeper k) k (Node b p s (ts[idx k s := r])) t"
  using assms
proof (induction "deeper k" k t arbitrary: par rule: walk.induct)
  case (1 k a p' s' ts')
  have i: "idx k s' < length ts'" using wft_NodeD(1) [OF 1(2)] by simp
  show ?case
  proof (cases "deeper k (Node a p' s' ts')")
    case True
    then show ?thesis using 1(1) [of "Child a (idx k s')"] 1(2,3) i wft_NodeD(5) [OF 1(2)] by simp
  next
    case False
    then have "walk (\<lambda>_. True) k (ts' ! idx k s') = ts' ! idx k s'"
      "slot_of (\<lambda>_. True) k (Child a (idx k s')) (ts' ! idx k s') = Child a (idx k s')"
      "subst (\<lambda>_. True) k r (ts' ! idx k s') = r"
      by (cases "ts' ! idx k s'"; simp)+
    then show ?thesis using 1(2,3) False i by auto
  qed
qed auto

lemma remove_descend_end:
  assumes "holds h t" "wft t" "is_node t" "walk (deeper k) k t = Node b p s ts"
  shows "remove_descend h k (tptr t) kpar n npar =
    Some (if ts ! idx k s = Null then None else Some (tptr (ts ! idx k s), b, slot_of (deeper k) k kpar t))"
  using assms
proof (induction "deeper k" k t arbitrary: kpar n npar rule: walk.induct)
  case (1 k a p' s' ts')
  let ?c = "ts' ! idx k s'"
  have i: "idx k s' < length ts'" using wft_NodeD(1) [OF 1(3)] by simp
  then have hc: "holds h ?c" "wft ?c" using 1(2) wft_NodeD(5) [OF 1(3)] by auto
  have go: "remove_descend h k (tptr (Node a p' s' ts')) kpar n npar =
     (if tptr ?c = NULL then Some None else remove_descend h k (tptr ?c) (Child a (idx k s')) a kpar)"
    using 1(2) i by (subst remove_descend.simps) (simp add: slice_index_up Let_def)
  show ?case
  proof (cases "deeper k (Node a p' s' ts')")
    case True
    then have "tptr ?c \<noteq> 0" using tptr_NULL_iff [OF hc(1)] by auto
    then show ?thesis using go 1(1) [of "Child a (idx k s')" a kpar] True i hc 1(5) by simp
  next
    case False
    then consider "?c = Null" | b' k' v where "?c = Leaf b' k' v" by (cases ?c) auto
    then show ?thesis
      using go 1(5) False i by cases (simp, subst (asm) remove_descend.simps, simp)+
  qed
qed auto


subsection \<open>Unlinking\<close>

lemma scan_rest: "ochild \<noteq> -1 \<Longrightarrow> scan_ochild ps i ochild = (if \<forall>p\<in>set ps. p = NULL then Some ochild else None)"
  by (induction ps i ochild rule: scan_ochild.induct) auto

lemma filter_all_null: "filter (\<lambda>t. t \<noteq> Null) ts = [] \<longleftrightarrow> (\<forall>t\<in>set ts. t = Null)"
  by (auto simp: filter_empty_conv)

lemma scan_one:
  "filter (\<lambda>t. t \<noteq> Null) ts = [t'] \<Longrightarrow> \<forall>t\<in>set ts. holds h t \<Longrightarrow>
   \<exists>j<length ts. scan_ochild (map tptr ts) i (-1) = Some (int (i + j)) \<and> ts ! j = t'"
proof (induction ts arbitrary: i)
  case (Cons t ts)
  show ?case
  proof (cases "t = Null")
    case True
    with Cons.prems have "filter (\<lambda>t. t \<noteq> Null) ts = [t']" "\<forall>t\<in>set ts. holds h t" by simp_all
    from Cons.IH [OF this, of "Suc i"] obtain j where
      "j < length ts" "scan_ochild (map tptr ts) (Suc i) (-1) = Some (int (Suc i + j))" "ts ! j = t'" by blast
    with True show ?thesis by (intro exI [of _ "Suc j"]) simp
  next
    case False
    then have "filter (\<lambda>t. t \<noteq> Null) ts = []" "t' = t" using Cons.prems(1) by auto
    moreover have "tptr t \<noteq> 0" using False Cons.prems(2) tptr_NULL_iff [of h] by auto
    ultimately show ?thesis
      by (intro exI [of _ 0]) (auto simp: filter_all_null scan_rest)
  qed
qed simp

lemma scan_more:
  "filter (\<lambda>t. t \<noteq> Null) ts = x # y # zs \<Longrightarrow> \<forall>t\<in>set ts. holds h t \<Longrightarrow> scan_ochild (map tptr ts) i (-1) = None"
proof (induction ts arbitrary: i)
  case (Cons t ts)
  show ?case
  proof (cases "t = Null")
    case True
    with Cons show ?thesis by simp
  next
    case False
    then have "filter (\<lambda>t. t \<noteq> Null) ts \<noteq> []" using Cons.prems(1) by auto
    then obtain u where u: "u \<in> set ts" "u \<noteq> Null" by (auto simp: filter_all_null)
    then have "tptr u \<noteq> 0" "tptr t \<noteq> 0" using False Cons.prems(2) tptr_NULL_iff [of h] by auto
    with u show ?thesis by (auto simp: scan_rest)
  qed
qed simp

lemma concat_filter_null:
  "f Null = [] \<Longrightarrow> concat (map f ts) = concat (map f (filter (\<lambda>t. t \<noteq> Null) ts))"
  by (induction ts) auto

lemma t_remove_last:
  assumes "wft t" "is_node t" "walk (deeper k) k t = Node b p s ts" "ts ! idx k s = Leaf a k v"
  shows "t_remove k t = subst (deeper k) k (shrink b p s (ts[idx k s := Null])) t" "(k, v) \<in> Ent t"
proof -
  have w: "wft (Node b p s ts)" using walk_deeper [OF assms(1,2), of k] assms(3) by auto
  then have i: "idx k s < length ts" using wft_NodeD(1) by simp
  have "t_remove k (Node b p s ts) = shrink b p s (ts[idx k s := Null])" using assms(4) i by simp
  then show "t_remove k t = subst (deeper k) k (shrink b p s (ts[idx k s := Null])) t"
    using t_remove_subst [OF assms(1,2), of k] assms(3) by simp
  have "(k, v) \<in> Ent (Node b p s ts)" unfolding Ent_Node_nth using i assms(4) by force
  with walk_Ent [of "deeper k" k t] assms(3) show "(k, v) \<in> Ent t" by auto
qed

text \<open>
  The second store of a removal, which takes the node \<open>b\<close> out of the tree: \<open>b\<close> keeps its other
  children, and it has lost the leaf of \<open>k\<close> by the first store.
\<close>

lemma unlink_evolves:
  assumes inv: "cinv (h, c) t dn dl {#} {#}" and s1: "store (Child b (idx k s)) NULL (h, c) = Some (h1, c1)"
      "cinv (h1, c1) t1 dn dl {#} {#a#}" and q1: "\<And>T. quiet {del} (h, c) t T (h1, c1)"
    and b: "b \<in> set (naddrs t)" and o1: "mset (naddrs t1) + {#} = mset (naddrs t) + {#}" "mset (laddrs t1) + {#a#} = mset (laddrs t) + {#}"
    and nd: "holds h (Node b p s ts)" "ts ! idx k s = Leaf a k v" "leaves h a = Some \<lparr>key = k, val = v\<rparr>"
    and w1: "walk (deeper k) k t1 = Node b p s ts'"
    and i: "idx k s < length ts"
    and s2: "store (slot_of (deeper k) k Root t1) x (h1, c1) = Some (h2, c2)" "cinv (h2, c2) t' dn dl {#b#} {#a#}"
    and del: "del < 16" "length (pending_del_nodes c2) = 16" "length (pending_del_leaves c2) = 16"
  shows "evolves (h, c) t {del} k (h2, c2\<lparr>pending_del_nodes := (pending_del_nodes c2)[del := b],
    pending_del_leaves := (pending_del_leaves c2)[del := a]\<rparr>) t'"
proof -
  let ?nd = "\<lparr>child = map tptr ts, path = p, shift = of_nat s\<rparr> :: 'a word critnib_node"
  have n: "mset (naddrs t') + {#b#} = mset (naddrs t1) + {#}" "mset (laddrs t') + {#a#} = mset (laddrs t1) + {#a#}"
    using store_dom [OF s2(1)] by (intro cinv_addrs [OF s1(2) s2(2)]; simp)+
  have own: "b' \<in> set (naddrs t') \<and> b' \<noteq> b \<and> b' \<notin> pnodes c1 {del}" if "slot_of (deeper k) k Root t1 = Child b' j" for b' j
    using slot_owner [OF s1(2) that] cinv_apart(1) [OF s1(2), of b' "{del}"] w1 set_of_own [OF n(1)] by auto
  have "quiet {del} (h1, c1) t (set (naddrs t')) (h2, c2)" by (rule quiet_slot [OF s2(1)]) (use own in blast)
  from quiet_trans [OF quiet_trans [OF q1 this] quiet_control]
  have q: "quiet {del} (h, c) t (set (naddrs t')) (h2, c2\<lparr>pending_del_nodes := (pending_del_nodes c2)[del := b],
    pending_del_leaves := (pending_del_leaves c2)[del := a]\<rparr>)" by simp
  have "nodes h1 b = Some (?nd\<lparr>child := (child ?nd)[idx k s := NULL]\<rparr>)" using s1(1) nd(1) by auto
  moreover have "nodes h2 b = nodes h1 b"
    using s2(1) own by (cases "slot_of (deeper k) k Root t1") (auto simp: bind_eq_Some_conv)
  ultimately have "nodes h2 b = Some (?nd\<lparr>child := (child ?nd)[idx k s := NULL]\<rparr>)" by simp
  moreover have "child ?nd ! idx k s = a OR 1" "nodes h b = Some ?nd" using i nd(1,2) by simp_all
  moreover have "a \<in> set (laddrs t)" using set_of_own [OF o1(2) [symmetric]] by auto
  ultimately have cut: "cuts k h t h2 b" unfolding cuts_def using b nd(3) by (intro conjI exI [of _ ?nd] exI [of _ "idx k s"]) auto
  have "set (naddrs t) \<subseteq> set (naddrs t') \<union> {b}" "set (laddrs t) \<subseteq> set (laddrs t') \<union> {a}"
    using set_of_own [OF n(1)] set_of_own [OF n(2)] set_of_own [OF o1(1)] set_of_own [OF o1(2)] by auto
  with q cut del show ?thesis by (simp add: evolves_def)
qed

lemma unlink_inv:
  assumes inv: "cinv (h, c) t dn dl {#} {#}" and root: "root c = tptr t" and t: "wft t" "is_node t"
    and last: "walk (deeper k) k t = Node b p s ts" "ts ! idx k s = Leaf a k v"
    and del: "del < 16" "pending_del_nodes c ! del = NULL" "pending_del_leaves c ! del = NULL"
  shows "\<exists>h' c'. remove_unlink k del (a OR 1) b (slot_of (deeper k) k Root t) (h, c) = Some (v, unlock (h', c'))
    \<and> cinv (h', c') (t_remove k t) dn dl {#} {#} \<and> root c' = tptr (t_remove k t) \<and> remove_count c' = remove_count c
    \<and> evolves (h, c) t {del} k (h', c') (t_remove k t)"
proof -
  let ?i = "idx k s" and ?ts = "ts[idx k s := Null]"
  define t1 where "t1 = subst (deeper k) k (Node b p s ?ts) t"
  have wl: "wft (Node b p s ts)" "\<not> is_node (ts ! ?i)" using walk_deeper [OF t, of k] last(1) by auto
  then have i: "?i < length ts" using wft_NodeD(1) [OF wl(1)] by simp
  have hl: "holds h (Node b p s ts)" using holds_walk [OF cinvD(2) [OF inv], of "deeper k" k] last(1) by simp
  then have "holds h (ts ! ?i)" using i by simp
  then have lf: "aligned a" "leaves h a = Some \<lparr>key = k, val = v\<rparr>" unfolding last(2) by auto
  note E = to_the_end [OF t(1) last(1) t(2), of Root Null]
  obtain h1 c1 where s1: "store (Child b ?i) NULL (h, c) = Some (h1, c1)" "cinv (h1, c1) t1 dn dl {#} {#a#}"
    "root c1 = tptr t1" "\<exists>x. c1 = c\<lparr>root := x\<rparr>"
    using store_subst [OF inv root, of Null "\<lambda>_. True" k "{#}" "{#a#}"] E last(2) by (auto simp: t1_def)
  have q1: "quiet {del} (h, c) t T (h1, c1)" for T
    by (rule quiet_store [OF inv, where Q = "\<lambda>_. True" and k = k and x = NULL]) (use E s1(1) in \<open>simp_all del: store.simps\<close>)
  have o1: "mset (naddrs t1) + {#} = mset (naddrs t) + {#}" "mset (laddrs t1) + {#a#} = mset (laddrs t) + {#}"
    using store_dom [OF s1(1)] by (intro cinv_addrs [OF inv s1(2)]; simp)+
  have w1: "walk (deeper k) k t1 = Node b p s ?ts" "slot_of (deeper k) k Root t1 = slot_of (deeper k) k Root t"
    "subst (deeper k) k r t1 = subst (deeper k) k r t" for r
    using i by (simp_all add: t1_def subst_twice)
  have hl1: "holds h1 (Node b p s ?ts)" using holds_walk [OF cinvD(2) [OF s1(2)], of "deeper k" k] w1(1) by simp
  have rem: "t_remove k t = subst (deeper k) k (shrink b p s ?ts) t" by (rule t_remove_last(1) [OF t last])
  have c1: "pending_del_nodes c1 ! del = NULL" "pending_del_leaves c1 ! del = NULL" "remove_count c1 = remove_count c"
    using s1(4) del by auto
  have a0: "a \<noteq> 0" "b \<noteq> 0" using lf(1) hl by auto
  have go: "remove_unlink k del (a OR 1) b (slot_of (deeper k) k Root t) (h, c) =
    (case scan_ochild (map tptr ?ts) 0 (-1) of
         None \<Rightarrow> Some (v, unlock (h1, c1\<lparr>pending_del_leaves := (pending_del_leaves c1)[del := a]\<rparr>))
       | Some ochild \<Rightarrow>
           (if ochild = -1 then None
            else do {
              (h, c) \<leftarrow> store (slot_of (deeper k) k Root t) (map tptr ?ts ! nat ochild) (h1, c1);
              Some (v, unlock (h, c\<lparr>
                pending_del_nodes := (pending_del_nodes c)[del := b],
                pending_del_leaves := (pending_del_leaves c)[del := a]\<rparr>))
            }))"
    using lf hl hl1 s1(1) by (simp add: remove_unlink_def slice_index_up del: store.simps cong: option.case_cong if_cong)
  obtain j where j: "j < 16" "j \<noteq> ?i" "ts ! j \<noteq> Null"
    using wft_two_children [OF wl(1)] by metis
  have nn: "\<exists>t\<in>set ?ts. t \<noteq> Null"
    using j wft_NodeD(1) [OF wl(1)] by (metis length_list_update nth_list_update_neq nth_mem)
  show ?thesis
  proof (cases "filter (\<lambda>t. t \<noteq> Null) ?ts")
    case Nil
    then show ?thesis using nn by (simp add: filter_all_null)
  next
    case (Cons t' us)
    show ?thesis
    proof (cases us)
      case Nil
      with Cons have one: "filter (\<lambda>t. t \<noteq> Null) ?ts = [t']" by simp
      then have sh: "shrink b p s ?ts = t'" by (simp add: shrink_def)
      obtain m where m: "m < length ?ts" "scan_ochild (map tptr ?ts) 0 (-1) = Some (int m)" "?ts ! m = t'"
        using scan_one [OF one, of h1 0] hl1 by auto
      have ht': "holds h1 t'" using m hl1 by (metis holds.simps(3) nth_mem)
      have ad: "concat (map naddrs ?ts) = naddrs t'" "concat (map laddrs ?ts) = laddrs t'"
        using concat_filter_null [of naddrs ?ts] concat_filter_null [of laddrs ?ts] one by simp_all
      obtain h2 c2 where s2: "store (slot_of (deeper k) k Root t) (tptr t') (h1, c1) = Some (h2, c2)"
        "cinv (h2, c2) (t_remove k t) dn dl {#b#} {#a#}" "root c2 = tptr (t_remove k t)" "\<exists>x. c2 = c1\<lparr>root := x\<rparr>"
        using store_subst [OF s1(2,3) ht', of "deeper k" k "{#b#}" "{#a#}"] w1 rem sh ad by (auto simp del: store.simps)
      have c2: "pending_del_nodes c2 ! del = NULL" "pending_del_leaves c2 ! del = NULL" "remove_count c2 = remove_count c"
        using s2(4) c1 by auto
      let ?c = "c2\<lparr>pending_del_nodes := (pending_del_nodes c2)[del := b]\<rparr>"
      have "cinv (h2, ?c) (t_remove k t) dn dl {#} {#a#}"
        using cinv_pend_node [OF s2(2) del(1), of b "{#}"] c2(1) a0 by simp
      from cinv_pend_leaf [OF this del(1), of a "{#}"]
      have "cinv (h2, ?c\<lparr>pending_del_leaves := (pending_del_leaves c2)[del := a]\<rparr>) (t_remove k t) dn dl {#} {#}"
        using c2(2) a0 by simp
      moreover have "map tptr ?ts ! nat (int m) = tptr t'" using m by simp
      moreover have s2': "store (slot_of (deeper k) k Root t1) (tptr t') (h1, c1) = Some (h2, c2)" using s2(1) w1(2) by simp
      moreover have "evolves (h, c) t {del} k (h2, ?c\<lparr>pending_del_leaves := (pending_del_leaves c2)[del := a]\<rparr>) (t_remove k t)"
        using walk_addrs [of "deeper k" k t] last(1)
        by (intro unlink_evolves [OF inv s1(1,2) q1 _ o1 hl last(2) lf(2) w1(1) i s2' s2(2) del(1) cinvD(5,6) [OF s2(2)]]) auto
      ultimately show ?thesis using go m(2) s2(1,3) c2(3)
        by (intro exI [of _ h2] exI [of _ "?c\<lparr>pending_del_leaves := (pending_del_leaves c2)[del := a]\<rparr>"]) (simp del: store.simps)
    next
      case (Cons u us')
      then have more: "filter (\<lambda>t. t \<noteq> Null) ?ts = t' # u # us'" using \<open>filter _ _ = t' # us\<close> by simp
      then have "t_remove k t = t1" unfolding rem t1_def by (simp add: shrink_def)
      moreover have "scan_ochild (map tptr ?ts) 0 (-1) = None" using scan_more [OF more, of h1] hl1 by simp
      moreover have "cinv (h1, c1\<lparr>pending_del_leaves := (pending_del_leaves c1)[del := a]\<rparr>) t1 dn dl {#} {#}"
        using cinv_pend_leaf [OF s1(2) del(1), of a "{#}"] c1(2) a0 by simp
      moreover have "evolves (h, c) t {del} k (h1, c1\<lparr>pending_del_leaves := (pending_del_leaves c1)[del := a]\<rparr>) t1"
        using quiet_trans [OF q1 quiet_control] set_of_own [OF o1(1)] set_of_own [OF o1(2)] c1(1) del(1) cinvD(6) [OF s1(2)]
        by (auto simp: evolves_def)
      ultimately show ?thesis using go s1(3) c1(3)
        by (intro exI [of _ h1] exI [of _ "c1\<lparr>pending_del_leaves := (pending_del_leaves c1)[del := a]\<rparr>"]) simp
    qed
  qed
qed


subsection \<open>The whole operation\<close>

lemma tmap_remove: "wft t \<Longrightarrow> tmap (t_remove k t) = (tmap t)(k := None)"
  by (rule tmap_eqI) (auto simp: t_remove_wft t_remove_Ent tmap_Some_iff)

lemma tmap_absent: "t_remove k t = t \<Longrightarrow> wft t \<Longrightarrow> k \<notin> keys t"
  using t_remove_Ent [of t k] by (auto simp: keys_def)

lemma del_index: "unat (rc mod DELETED_LIFE) < 16"
  by (simp add: DELETED_LIFE_def unat_mod)

text \<open>
  The contract of a removal with the trees: \<open>D\<close> are the pending slots it uses, at most the one
  that the counter of removals names.
\<close>

definition removed :: "nat set \<Rightarrow> 'l::len word cstate \<Rightarrow> ctree \<Rightarrow> u64 \<Rightarrow> 'l word cstate \<Rightarrow> bool" where
  "removed D s t k s' \<longleftrightarrow> (\<exists>t'. crel s' t' \<and> tmap t' = (tmap t)(k := None) \<and> evolves s t D k s' t')"

definition remove_step :: "u64 \<Rightarrow> 'l::len word cstate \<Rightarrow> ctree \<Rightarrow> 'l word cstate \<Rightarrow> bool" where
  "remove_step k s t s' \<longleftrightarrow>
     (if t = Null then removed {} s t k s' \<and> remove_count (snd s') = remove_count (snd s)
      else removed {unat (remove_count (snd s) mod DELETED_LIFE)} s t k s' \<and> remove_count (snd s') = remove_count (snd s) + 1)"

lemma removed_absent:
  assumes "cinv (h, c) t dn dl {#} {#}" "root c = tptr t" "wft t" "tmap t k = None" "c' = c" "\<forall>i\<in>D. pending_del_nodes c ! i = NULL"
  shows "removed D (h, c) t k (unlock (h, c'))"
proof -
  have "evolves (h, c) t D k (unlock (h, c)) t" unfolding evolves_unlock by (rule evolves_same) (use assms(6) in simp_all)
  moreover have "(tmap t)(k := None) = tmap t" using assms(4) by auto
  ultimately show ?thesis unfolding removed_def assms(5) using unlock_crel [OF assms(1-3)] by auto
qed

lemma removed_leaf:
  assumes inv: "cinv (h, c) (Leaf a k v) dn dl {#} {#}" and a: "t = Leaf a k v" "aligned a"
    and del: "del < 16" "pending_del_nodes c ! del = NULL" "pending_del_leaves c ! del = NULL"
  shows "removed {del} (h, c) t k (unlock (h, c\<lparr>root := NULL, pending_del_leaves := (pending_del_leaves c)[del := a]\<rparr>))"
proof -
  let ?c = "c\<lparr>root := NULL, pending_del_leaves := (pending_del_leaves c)[del := a]\<rparr>"
  have "cinv (h, c) Null dn dl {#} {#a#}" by (rule cinv_tree [OF inv]) simp_all
  from cinv_pend_leaf [OF this del(1), of a "{#}"] del(3) a(2)
  have "cinv (h, c\<lparr>pending_del_leaves := (pending_del_leaves c)[del := a]\<rparr>) Null dn dl {#} {#}" by simp
  then have "crel (unlock (h, ?c)) Null" by (intro unlock_crel [where dn = dn and dl = dl]) (simp_all add: cinv.simps)
  moreover have "evolves (h, c) t {del} k (h, ?c) Null"
    using quiet_control [of "{del}" ?c c h t "{}"] del(1,2) a cinvD(6) [OF inv] by (simp add: evolves_def)
  moreover have "tmap Null = (tmap t)(k := None)" using a by (auto simp: tmap_def)
  ultimately show ?thesis unfolding removed_def evolves_unlock by blast
qed

lemma remove_node_root:
  fixes h :: "'l::len word heap"
  assumes inv: "cinv (h, c) t dn dl {#} {#}" and root: "root c = tptr t" and t: "wft t" "is_node t"
    and del: "del < 16" "pending_del_nodes c ! del = NULL" "pending_del_leaves c ! del = NULL"
  shows "\<exists>s'. (do { r \<leftarrow> remove_descend h k (tptr t) Root (tptr t) Root;
         case r of
           None \<Rightarrow> Some (NULL, unlock (h, c))
         | Some (kn, n, n_parent) \<Rightarrow> remove_unlink k del kn n n_parent (h, c) })
      = Some (val_of (tmap t k), s') \<and> removed {del} (h, c) t k s' \<and> remove_count (snd s') = remove_count c"
proof -
  obtain b p s ts where last: "walk (deeper k) k t = Node b p s ts" "wft (Node b p s ts)" "\<not> is_node (ts ! idx k s)"
    using walk_deeper [OF t] by blast
  have i: "idx k s < length ts" using wft_NodeD(1) [OF last(2)] by simp
  note H = cinvD(2) [OF inv]
  note d = remove_descend_end [OF H t last(1), of Root "tptr t" Root]
  have hl: "holds h (Node b p s ts)" using holds_walk [OF H, of "deeper k" k] last(1) by simp
  have absent: ?thesis if a: "k \<notin> keys (ts ! idx k s)"
    "(do { r \<leftarrow> remove_descend h k (tptr t) Root (tptr t) Root;
         case r of
           None \<Rightarrow> Some (NULL, unlock (h, c))
         | Some (kn, n, n_parent) \<Rightarrow> remove_unlink k del kn n n_parent (h, c) }) = Some (NULL, unlock (h, c))"
  proof -
    have "t_remove k t = t" using t_remove_subst [OF t, of k] last(1,3) a(1) i subst_walk [of "deeper k" k t] by simp
    then have "tmap t k = None" using tmap_absent [OF _ t(1)] dom_tmap by fast
    with a(2) removed_absent [OF inv root t(1), of k c "{del}"] del(2) show ?thesis by (simp add: val_of_def)
  qed
  show ?thesis
  proof (cases "ts ! idx k s")
    case Null
    then show ?thesis using absent d by simp
  next
    case (Node a' p' s' ts')
    with last(3) show ?thesis by simp
  next
    case (Leaf a k' v)
    then have "holds h (Leaf a k' v)" using hl i by (metis holds.simps(3) nth_mem)
    then have lf: "aligned a" "leaves h a = Some \<lparr>key = k', val = v\<rparr>" by auto
    show ?thesis
    proof (cases "k' = k")
      case False
      then show ?thesis using absent d Leaf lf by (simp add: remove_unlink_def)
    next
      case True
      with Leaf have lk: "ts ! idx k s = Leaf a k v" by simp
      from unlink_inv [OF inv root t last(1) lk del] obtain h' c' where
        u: "remove_unlink k del (a OR 1) b (slot_of (deeper k) k Root t) (h, c) = Some (v, unlock (h', c'))"
        "cinv (h', c') (t_remove k t) dn dl {#} {#}" "root c' = tptr (t_remove k t)" "remove_count c' = remove_count c"
        "evolves (h, c) t {del} k (h', c') (t_remove k t)"
        by blast
      have "tmap t k = Some v" using t_remove_last(2) [OF t last(1) lk] tmap_Some_iff [OF t(1)] by blast
      moreover have "removed {del} (h, c) t k (unlock (h', c'))"
        unfolding removed_def using unlock_crel [OF u(2,3) t_remove_wft [OF t(1)]] tmap_remove [OF t(1)] u(5) unfolding evolves_unlock by blast
      ultimately show ?thesis using d lk u(1,4) by (simp add: val_of_def)
    qed
  qed
qed

lemma critnib_remove_step:
  assumes rel: "crel s t"
  shows "\<exists>s'. critnib_remove k s = Some (val_of (tmap t k), s') \<and> remove_step k s t s'"
proof -
  obtain h c where s: "s = (h, c)" by fastforce
  from rel s obtain dn dl where t: "cinv (h, c) t dn dl {#} {#}" "root c = tptr t" "wft t" "\<not> mutex c"
    by (auto elim: crelE)
  show ?thesis
  proof (cases "t = Null")
    case True
    then have "critnib_remove k s = Some (NULL, unlock (h, c\<lparr>mutex := True\<rparr>))"
      using s t(2,4) by (simp add: critnib_remove_def)
    moreover have "unlock (h, c\<lparr>mutex := True\<rparr>) = unlock (h, c)" by simp
    moreover have "removed {} s t k (unlock (h, c))" unfolding s
      by (rule removed_absent [OF t(1-3)]) (use True in \<open>simp_all add: tmap_def\<close>)
    ultimately show ?thesis using s True by (simp add: val_of_def tmap_def remove_step_def)
  next
    case False
    define del where "del = unat (remove_count c mod DELETED_LIFE)"
    let ?c = "c\<lparr>mutex := True, remove_count := remove_count c + 1\<rparr>"
    have del: "del < 16" by (simp add: del_def del_index)
    have inv: "cinv (h, ?c) t dn dl {#} {#}" using t(1) by simp
    from recycle_inv [OF this del] obtain h1 c1 s1 c2 dn1 dl1 where
      r: "free_node (pending_del_nodes ?c ! del) (h, ?c) = Some s1"
      "free_leaf (pending_del_leaves ?c ! del) s1 = Some (h1, c2)"
      "c1 = c2\<lparr>pending_del_nodes := (pending_del_nodes c2)[del := NULL], pending_del_leaves := (pending_del_leaves c2)[del := NULL]\<rparr>"
      "cinv (h1, c1) t dn1 dl1 {#} {#}" "root c1 = tptr t" "remove_count c1 = remove_count c + 1"
      "pending_del_nodes c1 ! del = NULL" "pending_del_leaves c1 ! del = NULL"
      and q: "\<And>T. quiet {del} (h, ?c) t T (h1, c1)" "\<forall>a\<in>set (naddrs t). nodes h1 a = nodes h a"
      using t(2) by auto
    have q0: "quiet {del} s t T (h1, c1)" for T
      using quiet_trans [OF quiet_control [of "{del}" ?c c h t] q(1)] unfolding s by simp
    have q2: "\<forall>a\<in>set (naddrs t). nodes (fst (h1, c1)) a = nodes (fst s) a" using q(2) s by simp
    have after: "removed {del} s t k s'" if "removed {del} (h1, c1) t k s'" for s'
      using that evolves_after [OF q0 q2] unfolding removed_def by blast
    note H = cinvD(2) [OF r(4)]
    obtain h0 c0 where s1: "s1 = (h0, c0)" by fastforce
    have "root c \<noteq> 0" using t(2) False tptr_NULL_iff [OF H] by simp
    then have go: "critnib_remove k s = 
       (if is_leaf (tptr t) then do {
         lf \<leftarrow> leaves h1 (to_leaf (tptr t));
         if key lf = k then
           Some (val lf, unlock (h1, c1\<lparr>root := NULL,
             pending_del_leaves := (pending_del_leaves c1)[del := to_leaf (tptr t)]\<rparr>))
         else Some (NULL, unlock (h1, c1))
       } else do {
         r \<leftarrow> remove_descend h1 k (tptr t) Root (tptr t) Root;
         case r of
           None \<Rightarrow> Some (NULL, unlock (h1, c1))
         | Some (kn, n, n_parent) \<Rightarrow> remove_unlink k del kn n n_parent (h1, c1)
       })"
      using r(1,2) t(2,4) s unfolding critnib_remove_def r(3)
      by (simp add: del_def [symmetric] Let_def del: free_node.simps free_leaf.simps unlock.simps cong: if_cong)
    have "\<exists>s'. critnib_remove k s = Some (val_of (tmap t k), s') \<and> removed {del} (h1, c1) t k s' \<and> remove_count (snd s') = remove_count c1"
    proof (cases t)
      case (Leaf a k' v)
      then have lf: "aligned a" "leaves h1 a = Some \<lparr>key = k', val = v\<rparr>" using H by auto
      show ?thesis
      proof (cases "k' = k")
        case True
        have "removed {del} (h1, c1) t k (unlock (h1, c1\<lparr>root := NULL, pending_del_leaves := (pending_del_leaves c1)[del := a]\<rparr>))"
          using removed_leaf [of h1 c1 a k v dn1 dl1 t del] r(4,7,8) lf(1) del Leaf True by simp
        then show ?thesis using go Leaf lf True by (simp add: val_of_def tmap_def)
      next
        case False
        then have k: "tmap t k = None" using Leaf by (simp add: tmap_def)
        have "removed {del} (h1, c1) t k (unlock (h1, c1))" by (rule removed_absent [OF r(4,5) t(3) k]) (use r(7) in simp_all)
        then show ?thesis using go Leaf lf False k by (simp add: val_of_def)
      qed
    next
      case (Node a p sh ts)
      then have "is_node t" by simp
      from remove_node_root [OF r(4,5) t(3) this del r(7,8), of k] show ?thesis using go Node H by auto
    qed (use False in simp)
    then show ?thesis using after r(6) False s unfolding remove_step_def del_def by auto
  qed
qed

lemma critnib_remove_rel:
  assumes rel: "critnib_rel s m"
  shows "\<exists>s'. critnib_remove k s = Some (val_of (m k), s') \<and> critnib_rel s' (m(k := None))
    \<and> remove_count (snd s') = remove_count (snd s) + (if m = Map.empty then 0 else 1)"
proof -
  obtain t where t: "crel s t" "m = tmap t" using rel unfolding critnib_rel_crel by blast
  have "m = Map.empty \<longleftrightarrow> t = Null"
    using wft_nonempty [of t] dom_tmap [of t] t unfolding crel_def by (metis dom_eq_empty_conv keys_simps(1))
  moreover obtain s' where s': "critnib_remove k s = Some (val_of (m k), s')" "remove_step k s t s'"
    using critnib_remove_step [OF t(1), of k] t(2) by blast
  moreover have "critnib_rel s' (m(k := None))"
    using s'(2) unfolding remove_step_def removed_def critnib_rel_crel t(2) by (metis (mono_tags))
  ultimately show ?thesis by (simp add: remove_step_def split: if_splits)
qed

end
