(* ===== verification/Critnib_Delete.thy ===== *)
theory Critnib_Delete
  imports Critnib_Remove
begin

text \<open>
  \<open>critnib_delete\<close> and \<open>critnib_new\<close> of \<open>src/critnib.c\<close>.  Deleting a structure in a
  consistent state frees every block of the heap exactly once: the blocks of the tree, of the two
  pools and of the pending slots; nothing is freed twice and nothing is leaked.  A structure
  that has just been created represents the empty map.
\<close>

definition wipe :: "ptr set \<Rightarrow> ptr set \<Rightarrow> 'w heap \<Rightarrow> 'w heap" where
  "wipe N L h = h\<lparr>nodes := (nodes h) |` (- N), leaves := (leaves h) |` (- L)\<rparr>"

lemma wipe_simps [simp]:
  "nodes (wipe N L h) a = (if a \<in> N then None else nodes h a)"
  "leaves (wipe N L h) a = (if a \<in> L then None else leaves h a)"
  "wipe {} {} h = h" "wipe N' L' (wipe N L h) = wipe (N \<union> N') (L \<union> L') h"
  by (auto simp: wipe_def restrict_map_def fun_eq_iff)

lemma dom_wipe: "dom (nodes (wipe N L h)) = dom (nodes h) - N" "dom (leaves (wipe N L h)) = dom (leaves h) - L"
  by (auto simp: domIff split: if_splits)

lemma Free_node_wipe: "nodes h a \<noteq> None \<Longrightarrow> a \<noteq> NULL \<Longrightarrow> Free_node a h = Some (wipe {a} {} h)"
  by (auto simp: Free_node_def wipe_def restrict_map_def fun_eq_iff)

lemma Free_leaf_wipe: "leaves h a \<noteq> None \<Longrightarrow> a \<noteq> NULL \<Longrightarrow> Free_leaf a h = Some (wipe {} {a} h)"
  by (auto simp: Free_leaf_def wipe_def restrict_map_def fun_eq_iff)

lemma holds_wipe:
  "holds h t \<Longrightarrow> set (naddrs t) \<inter> N = {} \<Longrightarrow> set (laddrs t) \<inter> L = {} \<Longrightarrow> holds (wipe N L h) t"
  by (erule holds_frame) auto

lemma set_concat_nth: "set (concat (map f ts)) = (\<Union>l<length ts. set (f (ts ! l)))"
proof -
  have "set ts = (\<lambda>l. ts ! l) ` {..<length ts}" by (auto simp: in_set_conv_nth)
  then show ?thesis by simp
qed

lemma child_addrs: "l < length ts \<Longrightarrow> set (f (ts ! l)) \<subseteq> set (concat (map f ts))"
  unfolding set_concat_nth by (rule UN_upper) simp

lemma disjoint_children:
  "distinct (concat (map f ts)) \<Longrightarrow> i < length ts \<Longrightarrow> j < length ts \<Longrightarrow> i \<noteq> j \<Longrightarrow>
   set (f (ts ! i)) \<inter> set (f (ts ! j)) = {}"
  unfolding distinct_concat_nth by simp

lemma delete_children:
  assumes len: "length ts = 16"
    and IH: "\<And>i N L. i < 16 \<Longrightarrow> ts ! i \<noteq> Null \<Longrightarrow> set (naddrs (ts ! i)) \<inter> N = {} \<Longrightarrow> set (laddrs (ts ! i)) \<inter> L = {} \<Longrightarrow>
          delete_node (wipe N L h) (tptr (ts ! i)) 0 =
          Some (wipe (N \<union> set (naddrs (ts ! i))) (L \<union> set (laddrs (ts ! i))) h)"
    and h: "holds h (Node a p s ts)" "distinct (naddrs (Node a p s ts))" "distinct (laddrs (Node a p s ts))"
    and dj: "set (naddrs (Node a p s ts)) \<inter> N = {}" "set (laddrs (Node a p s ts)) \<inter> L = {}"
    and j: "i + j = 16"
  shows "delete_node (wipe (N \<union> (\<Union>l<i. set (naddrs (ts ! l)))) (L \<union> (\<Union>l<i. set (laddrs (ts ! l)))) h) a i
    = Some (wipe (N \<union> set (naddrs (Node a p s ts))) (L \<union> set (laddrs (Node a p s ts))) h)"
  using j
proof (induction j arbitrary: i)
  case 0
  let ?h = "wipe (N \<union> (\<Union>l<16. set (naddrs (ts ! l)))) (L \<union> (\<Union>l<16. set (laddrs (ts ! l)))) h"
  have u: "(\<Union>l<16. set (naddrs (ts ! l))) = set (concat (map naddrs ts))"
    "(\<Union>l<16. set (laddrs (ts ! l))) = set (concat (map laddrs ts))"
    unfolding set_concat_nth len by (rule refl)+
  have al: "aligned a" "nodes h a \<noteq> None" using h(1) by auto
  have "a \<notin> N" "a \<notin> set (concat (map naddrs ts))" using dj(1) h(2) by auto
  then have "nodes ?h a \<noteq> None" using al u by simp
  then have "Free_node a ?h = Some (wipe {a} {} ?h)" using al by (intro Free_node_wipe) auto
  then show ?case using 0 al u by (subst delete_node.simps) (simp add: SLNODES_def insert_absorb)
next
  case (Suc j)
  then have i: "i < 16" by simp
  let ?N = "N \<union> (\<Union>l<i. set (naddrs (ts ! l)))" and ?L = "L \<union> (\<Union>l<i. set (laddrs (ts ! l)))"
  have dn: "set (naddrs (ts ! i)) \<inter> set (naddrs (ts ! l)) = {}" "set (laddrs (ts ! i)) \<inter> set (laddrs (ts ! l)) = {}" if "l < i" for l
    using disjoint_children [of naddrs ts i l] disjoint_children [of laddrs ts i l] h(2,3) that i len by simp_all
  have sub: "set (naddrs (ts ! l)) \<subseteq> set (concat (map naddrs ts))" if "l < 16" for l
    by (rule child_addrs) (simp add: that len)
  have subl: "set (laddrs (ts ! l)) \<subseteq> set (concat (map laddrs ts))" if "l < 16" for l
    by (rule child_addrs) (simp add: that len)
  have "(\<Union>l<i. set (naddrs (ts ! l))) \<subseteq> set (concat (map naddrs ts))"
    by (rule UN_least, rule sub) (use i in simp)
  moreover have "a \<notin> N" "a \<notin> set (concat (map naddrs ts))" using dj(1) h(2) by simp_all
  ultimately have an: "a \<notin> ?N" by blast
  have hc: "holds h (ts ! i)" using h(1) i len by simp
  have dj': "set (naddrs (ts ! i)) \<inter> N = {}" "set (laddrs (ts ! i)) \<inter> L = {}"
    using dj sub [OF i] subl [OF i] unfolding naddrs.simps laddrs.simps by auto
  have go: "delete_node (wipe ?N ?L h) a i = (if tptr (ts ! i) \<noteq> NULL then do {
          h' \<leftarrow> delete_node (wipe ?N ?L h) (tptr (ts ! i)) 0;
          delete_node h' a (Suc i)
        } else delete_node (wipe ?N ?L h) a (Suc i))"
    using h(1) an i len by (subst delete_node.simps) (simp add: SLNODES_def)
  have suc: "(\<Union>l<Suc i. F l) = (\<Union>l<i. F l) \<union> F i" for F :: "nat \<Rightarrow> ptr set" by (auto simp: less_Suc_eq)
  have next': "delete_node (wipe (?N \<union> set (naddrs (ts ! i))) (?L \<union> set (laddrs (ts ! i))) h) a (Suc i)
    = Some (wipe (N \<union> set (naddrs (Node a p s ts))) (L \<union> set (laddrs (Node a p s ts))) h)"
    using Suc.IH [of "Suc i"] Suc.prems by (simp add: suc Un_assoc)
  show ?case
  proof (cases "ts ! i = Null")
    case True
    then show ?thesis using go next' by simp
  next
    case False
    then have "tptr (ts ! i) \<noteq> 0" using tptr_NULL_iff [OF hc] by simp
    moreover have "delete_node (wipe ?N ?L h) (tptr (ts ! i)) 0 =
       Some (wipe (?N \<union> set (naddrs (ts ! i))) (?L \<union> set (laddrs (ts ! i))) h)"
      using dn dj' by (intro IH [OF i False]) blast+
    ultimately show ?thesis using go next' by simp
  qed
qed


lemma delete_node_tree:
  "holds h t \<Longrightarrow> wft t \<Longrightarrow> distinct (naddrs t) \<Longrightarrow> distinct (laddrs t) \<Longrightarrow> t \<noteq> Null \<Longrightarrow>
   set (naddrs t) \<inter> N = {} \<Longrightarrow> set (laddrs t) \<inter> L = {} \<Longrightarrow>
   delete_node (wipe N L h) (tptr t) 0 = Some (wipe (N \<union> set (naddrs t)) (L \<union> set (laddrs t)) h)"
proof (induction t arbitrary: N L)
  case (Leaf a k v)
  then have "Free_leaf a (wipe N L h) = Some (wipe {} {a} (wipe N L h))"
    by (intro Free_leaf_wipe) auto
  then show ?case using Leaf by (subst delete_node.simps) simp
next
  case (Node a p s ts)
  have len: "length ts = 16" using wft_NodeD(1) [OF Node.prems(2)] .
  have "delete_node (wipe N' L' h) (tptr (ts ! i)) 0 =
      Some (wipe (N' \<union> set (naddrs (ts ! i))) (L' \<union> set (laddrs (ts ! i))) h)"
    if "i < 16" "ts ! i \<noteq> Null" "set (naddrs (ts ! i)) \<inter> N' = {}" "set (laddrs (ts ! i)) \<inter> L' = {}" for i N' L'
  proof (rule Node.IH)
    show "ts ! i \<in> set ts" "holds h (ts ! i)" using that(1) len Node.prems(1) by simp_all
    show "wft (ts ! i)" by (rule wft_NodeD(5) [OF Node.prems(2) that(1)])
    show "distinct (naddrs (ts ! i))" "distinct (laddrs (ts ! i))"
      using Node.prems(3,4) that(1) len unfolding naddrs.simps laddrs.simps distinct.simps distinct_concat_nth by simp_all
  qed (rule that)+
  then have "delete_node (wipe (N \<union> (\<Union>l<0. set (naddrs (ts ! l)))) (L \<union> (\<Union>l<0. set (laddrs (ts ! l)))) h) a 0
    = Some (wipe (N \<union> set (naddrs (Node a p s ts))) (L \<union> set (laddrs (Node a p s ts))) h)"
    by (rule delete_children [OF len _ Node.prems(1,3,4,6,7), of 0 16]) simp_all
  then show ?case by simp
qed simp

lemma free_deleted_nodes_wipe:
  "node_chain h p dn \<Longrightarrow> distinct dn \<Longrightarrow> NULL \<notin> set dn \<Longrightarrow>
   free_deleted_nodes h p = Some (wipe (set dn) {} h)"
proof (induction dn arbitrary: h p)
  case Nil
  then show ?case by (subst free_deleted_nodes.simps) simp
next
  case (Cons a dn)
  then obtain nd where nd: "p = a" "nodes h a = Some nd" "node_chain h (child nd ! 0) dn" by auto
  let ?h = "wipe {a} {} h"
  have "node_chain ?h (child nd ! 0) dn" using nd(3) Cons.prems(2) by (auto intro: node_chain_frame [of h])
  then have "free_deleted_nodes ?h (child nd ! 0) = Some (wipe (set dn) {} ?h)" using Cons by simp
  moreover have "Free_node a h = Some ?h" using nd Cons.prems(3) by (intro Free_node_wipe) auto
  ultimately show ?case using nd Cons.prems(3) by (subst free_deleted_nodes.simps) (simp add: Let_def)
qed

lemma free_deleted_leaves_wipe:
  "leaf_chain h p dl \<Longrightarrow> distinct dl \<Longrightarrow> NULL \<notin> set dl \<Longrightarrow>
   free_deleted_leaves h p = Some (wipe {} (set dl) h)"
proof (induction dl arbitrary: h p)
  case Nil
  then show ?case by (subst free_deleted_leaves.simps) simp
next
  case (Cons a dl)
  then obtain lf where lf: "p = a" "leaves h a = Some lf" "leaf_chain h (val lf) dl" by auto
  let ?h = "wipe {} {a} h"
  have "leaf_chain ?h (val lf) dl" using lf(3) Cons.prems(2) by (auto intro: leaf_chain_frame [of h])
  then have "free_deleted_leaves ?h (val lf) = Some (wipe {} (set dl) ?h)" using Cons by simp
  moreover have "Free_leaf a h = Some ?h" using lf Cons.prems(3) by (intro Free_leaf_wipe) auto
  ultimately show ?case using lf Cons.prems(3) by (subst free_deleted_leaves.simps) (simp add: Let_def)
qed

lemma free_pending_wipe:
  "length ns = length ks \<Longrightarrow> distinct (filter (\<lambda>p. p \<noteq> NULL) ns) \<Longrightarrow> distinct (filter (\<lambda>p. p \<noteq> NULL) ks) \<Longrightarrow>
   set_mset (live ns) \<subseteq> dom (nodes h) \<Longrightarrow> set_mset (live ks) \<subseteq> dom (leaves h) \<Longrightarrow>
   free_pending ns ks h = Some (wipe (set_mset (live ns)) (set_mset (live ks)) h)"
proof (induction ns ks arbitrary: h rule: list_induct2)
  case (Cons n ns k ks)
  have l: "set_mset (live (x # xs)) = (if x = 0 then {} else {x}) \<union> set_mset (live xs)" for x xs
    by (auto simp: live_def)
  define h1 where "h1 = wipe (if n = 0 then {} else {n}) {} h"
  define h2 where "h2 = wipe {} (if k = 0 then {} else {k}) h1"
  have f: "Free_node n h = Some h1"
    using Cons.prems(3) l [of n ns] Free_node_wipe [of h n] by (auto simp: h1_def Free_node_def split: if_splits)
  have g: "Free_leaf k h1 = Some h2"
    using Cons.prems(4) l [of k ks] Free_leaf_wipe [of h1 k] by (auto simp: h1_def h2_def Free_leaf_def split: if_splits)
  have "n \<noteq> 0 \<Longrightarrow> n \<notin># live ns" "k \<noteq> 0 \<Longrightarrow> k \<notin># live ks" using Cons.prems(1,2) by (auto simp: live_def)
  then have "set_mset (live ns) \<subseteq> dom (nodes h2)" "set_mset (live ks) \<subseteq> dom (leaves h2)"
    using Cons.prems(3,4) l [of n ns] l [of k ks] by (auto simp: h1_def h2_def)
  then have "free_pending ns ks h2 = Some (wipe (set_mset (live ns)) (set_mset (live ks)) h2)"
    using Cons by (auto split: if_splits)
  then show ?case using f g l [of n ns] l [of k ks] by (simp add: h1_def h2_def)
qed (simp add: live_def)


lemma own_all: "finite S \<Longrightarrow> A + B + C = mset_set S \<Longrightarrow> set_mset A \<union> set_mset B \<union> set_mset C = S"
  by (metis finite_set_mset_mset_set set_mset_union)

lemma cinv_lists:
  assumes "cinv (h, c) t dn dl {#} {#}"
  shows "distinct dn" "distinct dl" "NULL \<notin> set dn" "NULL \<notin> set dl"
    "distinct (filter (\<lambda>p. p \<noteq> NULL) (pending_del_nodes c))" "distinct (filter (\<lambda>p. p \<noteq> NULL) (pending_del_leaves c))"
    "set (naddrs t) \<inter> set dn = {}" "set (laddrs t) \<inter> set dl = {}"
    "set (naddrs t) \<inter> set_mset (live (pending_del_nodes c)) = {}" "set (laddrs t) \<inter> set_mset (live (pending_del_leaves c)) = {}"
    "set dn \<inter> set_mset (live (pending_del_nodes c)) = {}" "set dl \<inter> set_mset (live (pending_del_leaves c)) = {}"
    "set (naddrs t) \<union> set dn \<union> set_mset (live (pending_del_nodes c)) = dom (nodes h)"
    "set (laddrs t) \<union> set dl \<union> set_mset (live (pending_del_leaves c)) = dom (leaves h)"
proof -
  note D = cinvD [OF assms]
  have fin: "finite (dom (nodes h))" "finite (dom (leaves h))" using D(1) by (auto simp: heap_ok_def)
  have n: "mset (naddrs t) + mset dn + live (pending_del_nodes c) = mset_set (dom (nodes h))"
    "mset dn + (mset (naddrs t) + live (pending_del_nodes c)) = mset_set (dom (nodes h))"
    "live (pending_del_nodes c) + (mset (naddrs t) + mset dn) = mset_set (dom (nodes h))"
    using D(7) by (simp_all add: ac_simps)
  have l: "mset (laddrs t) + mset dl + live (pending_del_leaves c) = mset_set (dom (leaves h))"
    "mset dl + (mset (laddrs t) + live (pending_del_leaves c)) = mset_set (dom (leaves h))"
    "live (pending_del_leaves c) + (mset (laddrs t) + mset dl) = mset_set (dom (leaves h))"
    using D(8) by (simp_all add: ac_simps)
  show "distinct dn" "distinct dl" using own_distinct n(2) l(2) by blast+
  show "distinct (filter (\<lambda>p. p \<noteq> NULL) (pending_del_nodes c))" "distinct (filter (\<lambda>p. p \<noteq> NULL) (pending_del_leaves c))"
    using own_distinct n(3) l(3) unfolding live_def by blast+
  show "set (naddrs t) \<inter> set dn = {}" "set dn \<inter> set_mset (live (pending_del_nodes c)) = {}"
    using own_disjoint [OF n(2)] by auto
  show "set (laddrs t) \<inter> set dl = {}" "set dl \<inter> set_mset (live (pending_del_leaves c)) = {}"
    using own_disjoint [OF l(2)] by auto
  show "set (naddrs t) \<inter> set_mset (live (pending_del_nodes c)) = {}" using own_disjoint [OF n(3)] by auto
  show "set (laddrs t) \<inter> set_mset (live (pending_del_leaves c)) = {}" using own_disjoint [OF l(3)] by auto
  show all: "set (naddrs t) \<union> set dn \<union> set_mset (live (pending_del_nodes c)) = dom (nodes h)"
    "set (laddrs t) \<union> set dl \<union> set_mset (live (pending_del_leaves c)) = dom (leaves h)"
    using own_all [OF fin(1) n(1)] own_all [OF fin(2) l(1)] by simp_all
  have "NULL \<notin> dom (nodes h)" "NULL \<notin> dom (leaves h)" using D(1) unfolding heap_ok_def dom_def aligned_def by blast+
  then show "NULL \<notin> set dn" "NULL \<notin> set dl" unfolding all [symmetric] by simp_all
qed

lemma critnib_delete_rel:
  assumes "critnib_rel s m"
  shows "critnib_delete s = Some \<lparr>nodes = Map.empty, leaves = Map.empty\<rparr>"
proof -
  obtain h c where s: "s = (h, c)" by fastforce
  from assms s obtain t dn dl where t: "cinv (h, c) t dn dl {#} {#}" "root c = tptr t" "wft t" "\<not> mutex c"
    by (auto elim: critnib_relE)
  note D = cinvD [OF t(1)] and L = cinv_lists [OF t(1)]
  let ?pn = "set_mset (live (pending_del_nodes c))" and ?pl = "set_mset (live (pending_del_leaves c))"
  define h1 where "h1 = wipe (set (naddrs t)) (set (laddrs t)) h"
  have 1: "(if root c \<noteq> NULL then delete_node h (root c) 0 else Some h) = Some h1"
  proof (cases "t = Null")
    case False
    then have "root c \<noteq> 0" using tptr_NULL_iff [OF D(2)] t(2) by simp
    with delete_node_tree [OF D(2) t(3) cinv_distinct [OF t(1)] False, of "{}" "{}"] show ?thesis
      by (simp add: h1_def t(2))
  qed (simp add: t(2) h1_def)
  define h2 where "h2 = wipe (set dn) {} h1"
  have "node_chain h1 (deleted_node c) dn" using L(7) by (intro node_chain_frame [OF D(3)]) (auto simp: h1_def)
  then have 2: "free_deleted_nodes h1 (deleted_node c) = Some h2"
    unfolding h2_def by (rule free_deleted_nodes_wipe [OF _ L(1,3)])
  define h3 where "h3 = wipe {} (set dl) h2"
  have "leaf_chain h2 (deleted_leaf c) dl" using L(8) by (intro leaf_chain_frame [OF D(4)]) (auto simp: h1_def h2_def)
  then have 3: "free_deleted_leaves h2 (deleted_leaf c) = Some h3"
    unfolding h3_def by (rule free_deleted_leaves_wipe [OF _ L(2,4)])
  have h3: "h3 = wipe (set (naddrs t) \<union> set dn) (set (laddrs t) \<union> set dl) h" by (simp add: h1_def h2_def h3_def)
  have "?pn \<subseteq> dom (nodes h3)" "?pl \<subseteq> dom (leaves h3)"
    unfolding h3 dom_wipe using L(9-14) by blast+
  then have 4: "free_pending (pending_del_nodes c) (pending_del_leaves c) h3 = Some (wipe ?pn ?pl h3)"
    using D(5,6) L(5,6) by (intro free_pending_wipe) simp_all
  have "wipe ?pn ?pl h3 = wipe (dom (nodes h)) (dom (leaves h)) h" unfolding h3 using L(13,14) by simp
  also have "\<dots> = \<lparr>nodes = Map.empty, leaves = Map.empty\<rparr>"
    by (simp add: wipe_def) (auto simp: restrict_map_def fun_eq_iff domIff)
  finally show ?thesis using s t(4) 1 2 3 4 by simp
qed

lemma critnib_new_rel:
  assumes "critnib_new mal \<lparr>nodes = Map.empty, leaves = Map.empty\<rparr> = Some s"
  shows "critnib_rel s Map.empty" "remove_count (snd s) = 0"
proof -
  obtain h c where s: "s = (h, c)" by fastforce
  have h: "h = \<lparr>nodes = Map.empty, leaves = Map.empty\<rparr>"
    and c: "c = \<lparr>root = NULL, deleted_node = NULL, deleted_leaf = NULL,
       pending_del_nodes = replicate 16 NULL, pending_del_leaves = replicate 16 NULL,
       remove_count = 0, mutex = False\<rparr>"
    using assms s by (simp_all add: critnib_new_def split: if_splits)
  have "cinv (h, c) Null [] [] {#} {#}"
    unfolding h c by (intro cinvI) (simp_all add: heap_ok_def live_def)
  then have "critnib_rel (h, c) (tmap Null)" by (rule critnib_relI) (simp_all add: c)
  then show "critnib_rel s Map.empty" by (simp add: s tmap_def)
  show "remove_count (snd s) = 0" by (simp add: s c)
qed

end
