(* ===== verification/Corr_Tests.thy ===== *)
theory Corr_Tests
  imports Hashmap
begin

text \<open>
  The tests of \<open>src/1corr.c\<close> as client programs of the interface: each takes a table of
  operations, runs the statements of the C function in the option monad and ends with the memory
  that \<open>hm_delete\<close> leaves; a failed \<open>CHECK\<close> (which exits) is \<open>None\<close>.  The lemmas, proved
  once inside the locales \<open>hashmap\<close> and \<open>hashmap_le\<close>, say that every structure that keeps
  the contract passes every test and leaves no memory behind.  \<open>run_test\<close> runs the tests that
  need duplicates or \<open>find_le\<close> only on structures whose flag \<open>hm_immutable\<close> allows it.
\<close>

definition CHECK :: "bool \<Rightarrow> unit option" where
  "CHECK b = (if b then Some () else None)"

fun for_each :: "('a \<Rightarrow> 's \<Rightarrow> 's option) \<Rightarrow> 'a list \<Rightarrow> 's \<Rightarrow> 's option" where
  "for_each f [] s = Some s"
| "for_each f (x # xs) s = do { s \<leftarrow> f x s; for_each f xs s }"

text \<open>The statements the tests are made of; the result of \<open>hm_insert\<close> is dropped.\<close>

definition INS :: "('s, 'h) hm \<Rightarrow> u64 \<Rightarrow> ptr \<Rightarrow> 's \<Rightarrow> 's option" where
  "INS hm k v c = do { (r, c) \<leftarrow> hm_insert hm k v c; Some c }"

definition GET :: "('s, 'h) hm \<Rightarrow> u64 \<Rightarrow> ptr \<Rightarrow> 's \<Rightarrow> 's option" where
  "GET hm k v c = do { x \<leftarrow> hm_get hm k c; CHECK (x = v); Some c }"

definition REM :: "('s, 'h) hm \<Rightarrow> u64 \<Rightarrow> ptr \<Rightarrow> 's \<Rightarrow> 's option" where
  "REM hm k v c = do { (x, c) \<leftarrow> hm_remove hm k c; CHECK (x = v); Some c }"

definition LE :: "('s, 'h) hm \<Rightarrow> u64 \<Rightarrow> ptr \<Rightarrow> 's \<Rightarrow> 's option" where
  "LE hm k v c = do { x \<leftarrow> hm_find_le hm k c; CHECK (x = v); Some c }"

definition test_smoke :: "('s, 'h) hm \<Rightarrow> 'h option" where
  "test_smoke hm = do {
     c \<leftarrow> hm_new hm;
     c \<leftarrow> INS hm 123 456 c;
     c \<leftarrow> GET hm 123 456 c;
     c \<leftarrow> GET hm 124 0 c;
     hm_delete hm c
   }"

definition test_key0 :: "('s, 'h) hm \<Rightarrow> 'h option" where
  "test_key0 hm = do {
     c \<leftarrow> hm_new hm;
     c \<leftarrow> INS hm 1 1 c;
     c \<leftarrow> INS hm 0 2 c;
     c \<leftarrow> INS hm 65536 3 c;
     c \<leftarrow> GET hm 1 1 c;
     c \<leftarrow> REM hm 1 1 c;
     c \<leftarrow> GET hm 0 2 c;
     c \<leftarrow> REM hm 0 2 c;
     c \<leftarrow> GET hm 65536 3 c;
     c \<leftarrow> REM hm 65536 3 c;
     hm_delete hm c
   }"

definition test_1to1000 :: "('s, 'h) hm \<Rightarrow> 'h option" where
  "test_1to1000 hm = do {
     c \<leftarrow> hm_new hm;
     c \<leftarrow> for_each (\<lambda>i. INS hm (of_nat i) (of_nat i)) [0..<1000] c;
     c \<leftarrow> for_each (\<lambda>i. GET hm (of_nat i) (of_nat i)) [0..<1000] c;
     hm_delete hm c
   }"

definition test_insert_delete1M :: "('s, 'h) hm \<Rightarrow> 'h option" where
  "test_insert_delete1M hm = do {
     c \<leftarrow> hm_new hm;
     c \<leftarrow> for_each (\<lambda>i c. do {
         c \<leftarrow> GET hm (of_nat i) 0 c;
         c \<leftarrow> INS hm (of_nat i) (of_nat i) c;
         c \<leftarrow> GET hm (of_nat i) (of_nat i) c;
         c \<leftarrow> REM hm (of_nat i) (of_nat i) c;
         GET hm (of_nat i) 0 c }) [0..<1048576] c;
     hm_delete hm c
   }"

definition test_insert_bulk_delete1M :: "('s, 'h) hm \<Rightarrow> 'h option" where
  "test_insert_bulk_delete1M hm = do {
     c \<leftarrow> hm_new hm;
     c \<leftarrow> for_each (\<lambda>i c. do {
         c \<leftarrow> GET hm (of_nat i) 0 c;
         c \<leftarrow> INS hm (of_nat i) (of_nat i) c;
         GET hm (of_nat i) (of_nat i) c }) [0..<1048576] c;
     c \<leftarrow> for_each (\<lambda>i c. do {
         c \<leftarrow> GET hm (of_nat i) (of_nat i) c;
         c \<leftarrow> REM hm (of_nat i) (of_nat i) c;
         GET hm (of_nat i) 0 c }) [0..<1048576] c;
     hm_delete hm c
   }"

definition vals :: "u64 list" where
  "vals = [0, 0x7fffffff, 0x80000000, 0xffffffff,
           0x7fffffffffffffff, 0x8000000000000000, 0xffffffffffffffff]"

definition test_ffffffff_and_friends :: "('s, 'h) hm \<Rightarrow> 'h option" where
  "test_ffffffff_and_friends hm = do {
     c \<leftarrow> hm_new hm;
     c \<leftarrow> for_each (\<lambda>x. INS hm x (NOT x)) vals c;
     c \<leftarrow> for_each (\<lambda>x. GET hm x (NOT x)) vals c;
     c \<leftarrow> for_each (\<lambda>x. REM hm x (NOT x)) vals c;
     hm_delete hm c
   }"

text \<open>\<open>rnd64\<close> is an argument: the list of the numbers it returns.\<close>

definition test_insert_delete_random :: "('s, 'h) hm \<Rightarrow> u64 list \<Rightarrow> 'h option" where
  "test_insert_delete_random hm rnd = do {
     c \<leftarrow> hm_new hm;
     c \<leftarrow> for_each (\<lambda>v c. do {
         c \<leftarrow> INS hm v v c;
         c \<leftarrow> GET hm v v c;
         c \<leftarrow> REM hm v v c;
         GET hm v 0 c }) rnd c;
     hm_delete hm c
   }"

definition test_le_basic :: "('s, 'h) hm \<Rightarrow> 'h option" where
  "test_le_basic hm = do {
     c \<leftarrow> hm_new hm;
     c \<leftarrow> for_each (\<lambda>x. INS hm x x) [1, 2, 3, 0, 4, 0xf, 0xe, 0x11, 0x12, 0x20] c;
     c \<leftarrow> GET hm 122 0 c;
     c \<leftarrow> GET hm 1 1 c;
     c \<leftarrow> GET hm 2 2 c;
     c \<leftarrow> GET hm 3 3 c;
     c \<leftarrow> GET hm 4 4 c;
     c \<leftarrow> GET hm 5 0 c;
     c \<leftarrow> GET hm 0x11 0x11 c;
     c \<leftarrow> GET hm 0x12 0x12 c;
     c \<leftarrow> LE hm 1 1 c;
     c \<leftarrow> LE hm 2 2 c;
     c \<leftarrow> LE hm 5 4 c;
     c \<leftarrow> LE hm 6 4 c;
     c \<leftarrow> LE hm 0x11 0x11 c;
     c \<leftarrow> LE hm 0x15 0x12 c;
     c \<leftarrow> LE hm 0xfffffff 0x20 c;
     hm_delete hm c
   }"

definition test_same_only :: "('s, 'h) hm \<Rightarrow> 'h option" where
  "test_same_only hm = do {
     c \<leftarrow> hm_new hm;
     c \<leftarrow> INS hm 123 456 c;
     c \<leftarrow> INS hm 123 457 c;
     c \<leftarrow> GET hm 123 456 c;
     c \<leftarrow> GET hm 124 0 c;
     hm_delete hm c
   }"

definition test_same_two :: "('s, 'h) hm \<Rightarrow> 'h option" where
  "test_same_two hm = do {
     c \<leftarrow> hm_new hm;
     c \<leftarrow> INS hm 122 111 c;
     c \<leftarrow> INS hm 123 456 c;
     c \<leftarrow> INS hm 123 457 c;
     c \<leftarrow> GET hm 122 111 c;
     c \<leftarrow> GET hm 123 456 c;
     c \<leftarrow> GET hm 124 0 c;
     hm_delete hm c
   }"

text \<open>The program of \<open>src/test.c\<close>; the two strings are any two addresses.\<close>

definition test_main :: "('s, 'h) hm \<Rightarrow> ptr \<Rightarrow> ptr \<Rightarrow> 'h option" where
  "test_main hm a b = do {
     c \<leftarrow> hm_new hm;
     c \<leftarrow> INS hm 0xdf19b817a2a574f0 a c;
     c \<leftarrow> INS hm 0xc624b394880c9216 b c;
     (v, c) \<leftarrow> hm_remove hm 0xb2dfb9f1c6c36aa2 c;
     hm_delete hm c
   }"

lemma for_each_inv:
  assumes "\<And>i s. i < length xs \<Longrightarrow> I i s \<Longrightarrow> \<exists>s'. f (xs ! i) s = Some s' \<and> I (Suc i) s'" "I 0 s"
  shows "\<exists>s'. for_each f xs s = Some s' \<and> I (length xs) s'"
  using assms
proof (induction xs arbitrary: I s)
  case (Cons x xs)
  from Cons.prems(1) [of 0 s] Cons.prems(2) obtain s1 where s1: "f x s = Some s1" "I 1 s1" by auto
  have "\<exists>s'. for_each f xs s1 = Some s' \<and> (\<lambda>i. I (Suc i)) (length xs) s'"
    by (rule Cons.IH [of "\<lambda>i. I (Suc i)"]) (use Cons.prems(1) [of "Suc _"] s1 in auto)
  with s1 show ?case by simp
qed simp

text \<open>The map after the keys below \<open>n\<close> have been inserted, each as its own value.\<close>

definition ident_below :: "nat \<Rightarrow> u64 \<rightharpoonup> ptr" where
  "ident_below n = (\<lambda>k. if unat k < n then Some k else None)"

text \<open>The map from the given keys to a function of the key.\<close>

definition map_on :: "u64 list \<Rightarrow> (u64 \<Rightarrow> ptr) \<Rightarrow> u64 \<rightharpoonup> ptr" where
  "map_on ks f = (\<lambda>k. if k \<in> set ks then Some (f k) else None)"

lemma map_on_Nil [simp]: "map_on [] f = Map.empty"
  by (simp add: map_on_def)

lemma ident_below_Suc: "i < 2 ^ 64 \<Longrightarrow> (ident_below i)(of_nat i \<mapsto> of_nat i) = ident_below (Suc i)"
  by (auto simp: ident_below_def fun_eq_iff unat_of_nat take_bit_nat_eq_self less_Suc_eq)

lemma ident_below_at: "i < 2 ^ 64 \<Longrightarrow> ident_below n (of_nat i) = (if i < n then Some (of_nat i) else None)"
  by (simp add: ident_below_def unat_of_nat take_bit_nat_eq_self)

context hashmap
begin

lemma INS_bind:
  "rel (Suc n) s m \<Longrightarrow> k \<notin> dom m \<Longrightarrow> (\<And>s'. rel n s' (m(k \<mapsto> v)) \<Longrightarrow> f s' = R) \<Longrightarrow> (INS hm k v s \<bind> f) = R"
  using insert_ok [of n s m k v] by (auto simp: INS_def)

lemma GET_bind: "rel n s m \<Longrightarrow> val_of (m k) = v \<Longrightarrow> f s = R \<Longrightarrow> (GET hm k v s \<bind> f) = R"
  using get_ok [of n s m k] by (auto simp: GET_def CHECK_def)

lemma REM_bind:
  "rel (Suc n) s m \<Longrightarrow> m k = Some v \<Longrightarrow> (\<And>s'. rel n s' (m(k := None)) \<Longrightarrow> f s' = R) \<Longrightarrow> (REM hm k v s \<bind> f) = R"
  using remove_ok [of n s m k, OF _ disjI1 [OF domI]] by (auto simp: REM_def CHECK_def)

lemma for_each_bind:
  assumes "\<And>i s. i < length xs \<Longrightarrow> rel (N i) s (M i) \<Longrightarrow> \<exists>s'. f (xs ! i) s = Some s' \<and> rel (N (Suc i)) s' (M (Suc i))"
    "rel (N 0) s (M 0)" "\<And>s'. rel (N (length xs)) s' (M (length xs)) \<Longrightarrow> g s' = R"
  shows "(for_each f xs s \<bind> g) = R"
  using for_each_inv [of xs "\<lambda>i s. rel (N i) s (M i)" f s] assms by fastforce

lemma for_upto_bind:
  assumes "\<And>i s. i < n \<Longrightarrow> rel (N i) s (M i) \<Longrightarrow> \<exists>s'. f i s = Some s' \<and> rel (N (Suc i)) s' (M (Suc i))"
    "rel (N 0) s (M 0)" "\<And>s'. rel (N n) s' (M n) \<Longrightarrow> g s' = R"
  shows "(for_each f [0..<n] s \<bind> g) = R"
proof (rule for_each_bind [where N = N and M = M])
  show "\<exists>s'. f ([0..<n] ! i) s = Some s' \<and> rel (N (Suc i)) s' (M (Suc i))"
    if "i < length [0..<n]" "rel (N i) s (M i)" for i s
    using assms(1) [of i s] that by simp
qed (use assms in simp_all)

lemma new_bind: "(\<And>s. rel budget s Map.empty \<Longrightarrow> f s = R) \<Longrightarrow> (hm_new hm \<bind> f) = R"
  using new_ok by auto

lemmas step_bind = new_bind INS_bind GET_bind REM_bind

lemma REM_last: "rel (Suc n) s m \<Longrightarrow> m k = Some v \<Longrightarrow> \<exists>s'. REM hm k v s = Some s' \<and> rel n s' (m(k := None))"
  using remove_ok [of n s m k, OF _ disjI1 [OF domI]] by (auto simp: REM_def CHECK_def)

lemma GET_last: "rel n s m \<Longrightarrow> val_of (m k) = v \<Longrightarrow> GET hm k v s = Some s"
  using get_ok [of n s m k] by (auto simp: GET_def CHECK_def)

lemma INS_last: "rel (Suc n) s m \<Longrightarrow> k \<notin> dom m \<Longrightarrow> \<exists>s'. INS hm k v s = Some s' \<and> rel n s' (m(k \<mapsto> v))"
  using insert_ok [of n s m k v] by (auto simp: INS_def)

lemma test_smoke_ok: "1 \<le> budget \<Longrightarrow> test_smoke hm = Some clean"
proof -
  assume "1 \<le> budget"
  then obtain n where n: "budget = Suc n" by (cases budget) auto
  show ?thesis unfolding test_smoke_def
    by (rule new_bind, unfold n) ((rule step_bind, assumption, simp) | erule delete_ok)+
qed

lemma remove_absent_bind:
  "absents \<Longrightarrow> rel (Suc n) s m \<Longrightarrow> k \<notin> dom m \<Longrightarrow> (\<And>s'. rel n s' m \<Longrightarrow> f (NULL, s') = R) \<Longrightarrow>
   (hm_remove hm k s \<bind> f) = R"
proof -
  assume a: absents "rel (Suc n) s m" "k \<notin> dom m" and f: "\<And>s'. rel n s' m \<Longrightarrow> f (NULL, s') = R"
  have "m(k := None) = m" "m k = None" using a(3) by auto
  with remove_ok [OF a(2), of k] a(1) f show ?thesis by auto
qed

lemma test_main_ok: "3 \<le> budget \<Longrightarrow> absents \<Longrightarrow> test_main hm a b = Some clean"
proof -
  assume "3 \<le> budget" and abs: absents
  then obtain n where "budget = 3 + n" using le_Suc_ex by blast
  then have n: "budget = Suc (Suc (Suc n))" by simp
  show ?thesis unfolding test_main_def
    by (rule new_bind, unfold n)
      ((rule step_bind, assumption, (simp; fail)) | (rule remove_absent_bind [OF abs], assumption, simp)
       | (simp only: prod.case, erule delete_ok))+
qed

lemma test_key0_ok: "6 \<le> budget \<Longrightarrow> test_key0 hm = Some clean"
proof -
  assume "6 \<le> budget"
  then obtain n where "budget = 6 + n" using le_Suc_ex by blast
  then have n: "budget = Suc (Suc (Suc (Suc (Suc (Suc n)))))" by simp
  show ?thesis unfolding test_key0_def
    by (rule new_bind, unfold n) ((rule step_bind, assumption, simp) | erule delete_ok)+
qed

lemma fill_step:
  assumes "rel (budget - i) s (ident_below i)" "i < budget" "i < 2 ^ 64"
  shows "\<exists>s'. INS hm (of_nat i) (of_nat i) s = Some s' \<and> rel (budget - Suc i) s' (ident_below (Suc i))"
proof -
  have "rel (Suc (budget - Suc i)) s (ident_below i)" using assms by (simp add: Suc_diff_Suc)
  from INS_last [OF this, of "of_nat i" "of_nat i"] assms(3) show ?thesis
    by (simp add: ident_below_at ident_below_Suc domIff)
qed

lemma test_1to1000_ok:
  assumes "1000 \<le> budget"
  shows "test_1to1000 hm = Some clean"
  unfolding test_1to1000_def
proof (rule new_bind, rule for_upto_bind [where N = "\<lambda>i. budget - i" and M = ident_below])
  show "\<exists>s'. INS hm (of_nat i) (of_nat i) s = Some s' \<and> rel (budget - Suc i) s' (ident_below (Suc i))"
    if "i < 1000" "rel (budget - i) s (ident_below i)" for i s
    using fill_step [OF that(2)] that(1) assms by simp
  show "rel (budget - 0) s (ident_below 0)" if "rel budget s Map.empty" for s
    using that by (simp add: ident_below_def)
  show "for_each (\<lambda>i. GET hm (of_nat i) (of_nat i)) [0..<1000] s \<bind> hm_delete hm = Some clean"
    if "rel (budget - 1000) s (ident_below 1000)" for s
  proof (rule for_upto_bind [where N = "\<lambda>i. budget - 1000" and M = "\<lambda>i. ident_below 1000"])
    show "\<exists>s'. GET hm (of_nat i) (of_nat i) s = Some s' \<and> rel (budget - 1000) s' (ident_below 1000)"
      if "i < 1000" "rel (budget - 1000) s (ident_below 1000)" for i s
      using GET_last [OF that(2), of "of_nat i" "of_nat i"] that by (simp add: ident_below_at)
  qed (use that delete_ok in auto)
qed

text \<open>One round of the insert and remove tests.\<close>

lemma round_trip:
  assumes "rel (Suc (Suc n)) s m" "k \<notin> dom m"
  shows "\<exists>s'. (INS hm k v s \<bind> (\<lambda>c. GET hm k v c \<bind> (\<lambda>c. REM hm k v c \<bind> GET hm k 0))) = Some s' \<and> rel n s' m"
proof -
  obtain s1 where 1: "INS hm k v s = Some s1" "rel (Suc n) s1 (m(k \<mapsto> v))" using INS_last [OF assms] by blast
  obtain s2 where 2: "REM hm k v s1 = Some s2" "rel n s2 ((m(k \<mapsto> v))(k := None))"
    using REM_last [OF 1(2), of k v] by auto
  have "(m(k \<mapsto> v))(k := None) = m" using assms(2) by auto
  with 1 2 GET_last [OF 1(2), of k v] GET_last [OF 2(2), of k 0] show ?thesis by simp
qed

lemma test_insert_delete1M_ok:
  assumes "2097152 \<le> budget"
  shows "test_insert_delete1M hm = Some clean"
  unfolding test_insert_delete1M_def
proof (rule new_bind, rule for_upto_bind [where N = "\<lambda>i. budget - 2 * i" and M = "\<lambda>i. Map.empty"])
  fix i s
  assume i: "i < 1048576" and s: "rel (budget - 2 * i) s Map.empty"
  have "budget - 2 * i = Suc (Suc (budget - 2 * Suc i))" using i assms by simp
  with s round_trip [of "budget - 2 * Suc i" s Map.empty "of_nat i" "of_nat i"]
    GET_last [OF s, where k = "of_nat i" and v = 0]
  show "\<exists>s'. (GET hm (of_nat i) 0 s \<bind> (\<lambda>c. INS hm (of_nat i) (of_nat i) c \<bind> (\<lambda>c. GET hm (of_nat i) (of_nat i) c
      \<bind> (\<lambda>c. REM hm (of_nat i) (of_nat i) c \<bind> GET hm (of_nat i) 0)))) = Some s' \<and> rel (budget - 2 * Suc i) s' Map.empty"
    by simp
qed (use delete_ok in auto)

lemma test_insert_delete_random_ok:
  assumes "2 * length rnd \<le> budget"
  shows "test_insert_delete_random hm rnd = Some clean"
  unfolding test_insert_delete_random_def
proof (rule new_bind, rule for_each_bind [where N = "\<lambda>i. budget - 2 * i" and M = "\<lambda>i. Map.empty"])
  fix i s
  assume i: "i < length rnd" and s: "rel (budget - 2 * i) s Map.empty"
  have "budget - 2 * i = Suc (Suc (budget - 2 * Suc i))" using i assms by simp
  with s round_trip [of "budget - 2 * Suc i" s Map.empty "rnd ! i" "rnd ! i"]
  show "\<exists>s'. (INS hm (rnd ! i) (rnd ! i) s \<bind> (\<lambda>c. GET hm (rnd ! i) (rnd ! i) c
        \<bind> (\<lambda>c. REM hm (rnd ! i) (rnd ! i) c \<bind> GET hm (rnd ! i) 0))) = Some s' \<and> rel (budget - 2 * Suc i) s' Map.empty"
    by simp
qed (use delete_ok in auto)

text \<open>The map after the keys below \<open>i\<close> have been removed from the bulk.\<close>

lemma test_insert_bulk_delete1M_ok:
  assumes "2097152 \<le> budget"
  shows "test_insert_bulk_delete1M hm = Some clean"
  unfolding test_insert_bulk_delete1M_def
proof (rule new_bind, rule for_upto_bind [where N = "\<lambda>i. budget - i" and M = ident_below])
  fix i s
  assume i: "i < 1048576" and s: "rel (budget - i) s (ident_below i)"
  obtain s' where s': "INS hm (of_nat i) (of_nat i) s = Some s'" "rel (budget - Suc i) s' (ident_below (Suc i))"
    using fill_step [OF s] i assms by auto
  show "\<exists>s'. (GET hm (of_nat i) 0 s \<bind> (\<lambda>c. INS hm (of_nat i) (of_nat i) c \<bind> GET hm (of_nat i) (of_nat i))) = Some s'
      \<and> rel (budget - Suc i) s' (ident_below (Suc i))"
    using s' GET_last [OF s, of "of_nat i" 0] GET_last [OF s'(2), of "of_nat i" "of_nat i"] i by (simp add: ident_below_at)
next
  show "rel (budget - 0) s (ident_below 0)" if "rel budget s Map.empty" for s
    using that by (simp add: ident_below_def)
next
  fix s assume s: "rel (budget - 1048576) s (ident_below 1048576)"
  let ?M = "\<lambda>i k. if unat k < i then None else ident_below 1048576 k"
  show "for_each (\<lambda>i c. GET hm (of_nat i) (of_nat i) c \<bind> (\<lambda>c. REM hm (of_nat i) (of_nat i) c \<bind> GET hm (of_nat i) 0))
      [0..<1048576] s \<bind> hm_delete hm = Some clean"
  proof (rule for_upto_bind [where N = "\<lambda>i. budget - 1048576 - i" and M = ?M])
    fix i s
    assume i: "i < 1048576" and s: "rel (budget - 1048576 - i) s (?M i)"
    then have at: "?M i (of_nat i) = Some (of_nat i)" by (simp add: ident_below_at unat_of_nat take_bit_nat_eq_self)
    have "(?M i)(of_nat i := None) = ?M (Suc i)"
      using i by (auto simp: fun_eq_iff unat_of_nat take_bit_nat_eq_self less_Suc_eq)
    moreover have "budget - 1048576 - i = Suc (budget - 1048576 - Suc i)" using i assms by simp
    ultimately obtain s' where s': "REM hm (of_nat i) (of_nat i) s = Some s'" "rel (budget - 1048576 - Suc i) s' (?M (Suc i))"
      using REM_last [of _ s "?M i" "of_nat i" "of_nat i"] s at by fastforce
    show "\<exists>s'. (GET hm (of_nat i) (of_nat i) s \<bind> (\<lambda>c. REM hm (of_nat i) (of_nat i) c \<bind> GET hm (of_nat i) 0)) = Some s'
        \<and> rel (budget - 1048576 - Suc i) s' (?M (Suc i))"
      using s' GET_last [OF s, of "of_nat i" "of_nat i"] at GET_last [OF s'(2), of "of_nat i" 0] i
      by (simp add: unat_of_nat take_bit_nat_eq_self)
  qed (use s delete_ok in auto)
qed

lemma fill_ok:
  assumes "rel n s Map.empty" "distinct ks" "length ks \<le> n"
  shows "\<exists>s'. for_each (\<lambda>k. INS hm k (f k)) ks s = Some s' \<and> rel (n - length ks) s' (map_on ks f)"
proof -
  let ?I = "\<lambda>i s. rel (n - i) s (map_on (take i ks) f)"
  have "\<exists>s'. for_each (\<lambda>k. INS hm k (f k)) ks s = Some s' \<and> ?I (length ks) s'"
  proof (rule for_each_inv)
    show "?I 0 s" using assms(1) by simp
    fix i s assume i: "i < length ks" and s: "?I i s"
    have e: "n - i = Suc (n - Suc i)" using i assms(3) by simp
    have t: "take (Suc i) ks = take i ks @ [ks ! i]" using i by (simp add: take_Suc_conv_app_nth)
    have "distinct (take (Suc i) ks)" using assms(2) by simp
    then have "ks ! i \<notin> dom (map_on (take i ks) f)" unfolding t by (auto simp: map_on_def)
    moreover have "(map_on (take i ks) f)(ks ! i \<mapsto> f (ks ! i)) = map_on (take (Suc i) ks) f"
      unfolding t by (auto simp: map_on_def fun_eq_iff)
    ultimately show "\<exists>s'. INS hm (ks ! i) (f (ks ! i)) s = Some s' \<and> ?I (Suc i) s'"
      using INS_last [of "n - Suc i" s "map_on (take i ks) f" "ks ! i" "f (ks ! i)"] s e by simp
  qed
  then show ?thesis by simp
qed

lemma check_ok: "rel n s (map_on ks f) \<Longrightarrow> set xs \<subseteq> set ks \<Longrightarrow> for_each (\<lambda>k. GET hm k (f k)) xs s = Some s"
proof (induction xs)
  case (Cons x xs)
  then have "val_of (map_on ks f x) = f x" by (simp add: map_on_def)
  from GET_last [OF Cons.prems(1) this] Cons show ?case by simp
qed simp

lemma drain_ok:
  "rel n s (map_on ks f) \<Longrightarrow> distinct ks \<Longrightarrow> length ks \<le> n \<Longrightarrow>
   \<exists>s' n' m'. for_each (\<lambda>k. REM hm k (f k)) ks s = Some s' \<and> rel n' s' m'"
proof (induction ks arbitrary: n s)
  case (Cons k ks)
  then obtain n' where n: "n = Suc n'" by (cases n) auto
  have "(map_on (k # ks) f)(k := None) = map_on ks f" using Cons.prems(2) by (auto simp: map_on_def fun_eq_iff)
  then obtain s' where "REM hm k (f k) s = Some s'" "rel n' s' (map_on ks f)"
    using REM_last [of n' s "map_on (k # ks) f" k "f k"] Cons.prems(1) n by (auto simp: map_on_def)
  then show ?case using Cons.IH [of n' s'] Cons.prems n by auto
qed auto

lemma test_ffffffff_and_friends_ok:
  assumes "14 \<le> budget"
  shows "test_ffffffff_and_friends hm = Some clean"
  unfolding test_ffffffff_and_friends_def
proof (rule new_bind)
  fix s assume s: "rel budget s Map.empty"
  have v: "distinct vals" "length vals = 7" by (simp_all add: vals_def)
  obtain s1 where 1: "for_each (\<lambda>k. INS hm k (NOT k)) vals s = Some s1" "rel (budget - 7) s1 (map_on vals NOT)"
    using fill_ok [OF s v(1), of NOT] v(2) assms by auto
  obtain s2 n2 m2 where 2: "for_each (\<lambda>k. REM hm k (NOT k)) vals s1 = Some s2" "rel n2 s2 m2"
    using drain_ok [OF 1(2) v(1)] v(2) assms by fastforce
  show "for_each (\<lambda>x. INS hm x (NOT x)) vals s \<bind> (\<lambda>c. for_each (\<lambda>x. GET hm x (NOT x)) vals c \<bind>
      (\<lambda>c. for_each (\<lambda>x. REM hm x (NOT x)) vals c \<bind> hm_delete hm)) = Some clean"
    using 1(1) check_ok [OF 1(2) order_refl] 2(1) delete_ok [OF 2(2)] by simp
qed

end

context hashmap_le
begin

lemma LE_bind:
  assumes "rel n s m" "is_floor m k x v" "v \<noteq> NULL" "f s = R"
  shows "(LE hm k v s \<bind> f) = R"
proof -
  have "\<forall>y. \<not> is_floor m k y NULL" using assms(2,3) is_floor_unique by blast
  with find_le_ok [OF assms(1), of k] floor_value_is_floor [OF assms(2)]
  have "hm_find_le hm k s = Some v" unfolding le_value_def by auto
  then show ?thesis using assms(4) by (simp add: LE_def CHECK_def)
qed

lemma LE_self: "rel n s m \<Longrightarrow> is_floor m k v v \<Longrightarrow> v \<noteq> NULL \<Longrightarrow> f s = R \<Longrightarrow> (LE hm k v s \<bind> f) = R"
  by (rule LE_bind)

lemma DUP_bind:
  "rel (Suc n) s m \<Longrightarrow> k \<in> dom m \<Longrightarrow> (\<And>s'. rel n s' m \<Longrightarrow> f s' = R) \<Longrightarrow> (INS hm k v s \<bind> f) = R"
  using insert_dup [OF dups, of n s m k v] by (auto simp: INS_def)

lemma test_same_only_ok: "2 \<le> budget \<Longrightarrow> test_same_only hm = Some clean"
proof -
  assume "2 \<le> budget"
  then obtain n where "budget = 2 + n" using le_Suc_ex by blast
  then have n: "budget = Suc (Suc n)" by simp
  show ?thesis unfolding test_same_only_def
    by (rule new_bind, unfold n) ((rule step_bind, assumption, (simp; fail)) | (rule DUP_bind, assumption, simp) | erule delete_ok)+
qed

lemma test_same_two_ok: "3 \<le> budget \<Longrightarrow> test_same_two hm = Some clean"
proof -
  assume "3 \<le> budget"
  then obtain n where "budget = 3 + n" using le_Suc_ex by blast
  then have n: "budget = Suc (Suc (Suc n))" by simp
  show ?thesis unfolding test_same_two_def
    by (rule new_bind, unfold n) ((rule step_bind, assumption, (simp; fail)) | (rule DUP_bind, assumption, simp) | erule delete_ok)+
qed

lemma test_le_basic_ok: "10 \<le> budget \<Longrightarrow> test_le_basic hm = Some clean"
proof -
  assume "10 \<le> budget"
  then obtain n where "budget = 10 + n" using le_Suc_ex by blast
  then have n: "budget = Suc (Suc (Suc (Suc (Suc (Suc (Suc (Suc (Suc (Suc n)))))))))" by simp
  show ?thesis unfolding test_le_basic_def for_each.simps Option.bind_assoc Option.bind.simps
    by (rule new_bind, unfold n)
      ((rule step_bind, assumption, (simp; fail))
       | (rule LE_self, assumption, simp add: is_floor_def, simp)
       | erule delete_ok)+
qed

end

end
