(* ===== verification/Critnib.thy ===== *)
theory Critnib
  imports Critnib_Delete Corr_Tests
begin

text \<open>
  The critnib structure as a provider of the hashmap contract.  Each insertion takes at most one
  node and one leaf of memory, each only if its pool is empty, and a removal takes none, so an allocator that serves \<open>cap\<close>
  blocks suffices for \<open>cap div 2\<close> updates; \<open>hm_critnib\<close> is the entry of the table
  \<open>hms\<close> of \<open>src/hmload.c\<close>.  The laws are proved for every allocator of the locale
  \<open>serving_allocator\<close> and interpreted with a first-fit allocator.
\<close>

subsection \<open>How much memory an operation takes\<close>

definition blocks :: "'w heap \<Rightarrow> nat" where
  "blocks h = card (dom (nodes h)) + card (dom (leaves h))"

definition grows :: "nat \<Rightarrow> nat \<Rightarrow> 'w cstate \<Rightarrow> 'w cstate \<Rightarrow> bool" where
  "grows i j s s' \<longleftrightarrow>
     (\<exists>A. finite A \<and> card A \<le> i \<and> dom (nodes (fst s')) \<subseteq> dom (nodes (fst s)) \<union> A) \<and>
     (\<exists>A. finite A \<and> card A \<le> j \<and> dom (leaves (fst s')) \<subseteq> dom (leaves (fst s)) \<union> A)"

lemma grows_0I:
  "dom (nodes (fst s')) = dom (nodes (fst s)) \<Longrightarrow> dom (leaves (fst s')) = dom (leaves (fst s)) \<Longrightarrow> grows i j s s'"
  unfolding grows_def by (auto intro!: exI [of _ "{}"])

lemma grows_trans:
  assumes "grows i j s s'" "grows i' j' s' s''"
  shows "grows (i + i') (j + j') s s''"
proof -
  have un: "\<exists>C. finite C \<and> card C \<le> n + n' \<and> Z \<subseteq> X \<union> C"
    if "finite A" "card A \<le> n" "Y \<subseteq> X \<union> A" "finite B" "card B \<le> n'" "Z \<subseteq> Y \<union> B" for A B X Y Z :: "ptr set" and n n'
  proof (intro exI conjI)
    show "finite (A \<union> B)" using that by simp
    show "card (A \<union> B) \<le> n + n'" using card_Un_le [of A B] that by linarith
    show "Z \<subseteq> X \<union> (A \<union> B)" using that by blast
  qed
  from assms show ?thesis unfolding grows_def by (elim conjE exE) (rule conjI; rule un; assumption)
qed

lemma grows_blocks:
  assumes "grows i j s s'" "finite (dom (nodes (fst s)))" "finite (dom (leaves (fst s)))"
  shows "blocks (fst s') \<le> blocks (fst s) + i + j"
proof -
  have c: "card Y \<le> card X + n" if "finite A" "card A \<le> n" "Y \<subseteq> X \<union> A" "finite X" for A X Y :: "ptr set" and n
    using card_mono [OF _ that(3)] card_Un_le [of X A] that by (meson finite_UnI le_trans add_le_mono order.refl)
  obtain A B where "finite A" "card A \<le> i" "dom (nodes (fst s')) \<subseteq> dom (nodes (fst s)) \<union> A"
    "finite B" "card B \<le> j" "dom (leaves (fst s')) \<subseteq> dom (leaves (fst s)) \<union> B"
    using assms(1) unfolding grows_def by blast
  then have "card (dom (nodes (fst s'))) \<le> card (dom (nodes (fst s))) + i"
    "card (dom (leaves (fst s'))) \<le> card (dom (leaves (fst s))) + j"
    using c [OF _ _ _ assms(2)] c [OF _ _ _ assms(3)] by blast+
  then show ?thesis unfolding blocks_def by simp
qed

lemma set_leaf_grows: "leaves h a \<noteq> None \<Longrightarrow> grows 0 0 (h, c) (set_leaf a lf h, c')"
  by (rule grows_0I) (simp_all add: insert_absorb domIff)

lemma set_node_grows: "nodes h a \<noteq> None \<Longrightarrow> grows 0 0 (h, c) (set_node a nd h, c')"
  by (rule grows_0I) (simp_all add: insert_absorb domIff)

lemma heap_grows: "grows 0 0 (h, c) (h, c')"
  by (rule grows_0I) simp_all

lemma store_grows: "store sl p s = Some s' \<Longrightarrow> grows 0 0 s s'"
  by (cases sl; cases s) (auto simp: bind_eq_Some_conv intro!: set_node_grows heap_grows)

lemma free_leaf_grows: "free_leaf a s = Some s' \<Longrightarrow> grows 0 0 s s'"
  by (cases s) (auto simp: bind_eq_Some_conv intro!: set_leaf_grows heap_grows split: if_splits)

lemma free_node_grows: "free_node a s = Some s' \<Longrightarrow> grows 0 0 s s'"
  by (cases s) (auto simp: bind_eq_Some_conv intro!: set_node_grows heap_grows split: if_splits)

lemma unlock_grows: "grows 0 0 s (unlock s)"
  by (cases s) (auto intro!: heap_grows)

lemma grows_mono: "grows 0 0 s s' \<Longrightarrow> grows i j s s'"
  unfolding grows_def by (meson le_trans zero_le)

lemma growsI:
  "finite A \<Longrightarrow> card A \<le> i \<Longrightarrow> dom (nodes (fst s')) \<subseteq> dom (nodes (fst s)) \<union> A \<Longrightarrow>
   finite B \<Longrightarrow> card B \<le> j \<Longrightarrow> dom (leaves (fst s')) \<subseteq> dom (leaves (fst s)) \<union> B \<Longrightarrow> grows i j s s'"
  unfolding grows_def by blast

lemma new_leaf_grows: "grows 0 (Suc 0) (h, c) (set_leaf a lf h, c)"
  by (rule growsI [of "{}" _ _ _ "{a}"]) auto

lemma new_node_grows: "grows (Suc 0) 0 (h, c) (set_node a nd h, c)"
  by (rule growsI [of "{a}" _ _ _ "{}"]) auto

text \<open>\<open>Malloc\<close> is called only when the pool is empty.\<close>

abbreviation no_leaf :: "'w cstate \<Rightarrow> nat" where
  "no_leaf s \<equiv> of_bool (deleted_leaf (snd s) = NULL)"

abbreviation no_node :: "'w cstate \<Rightarrow> nat" where
  "no_node s \<equiv> of_bool (deleted_node (snd s) = NULL)"

lemma alloc_leaf_grows: "alloc_leaf mal s = Some (a, s') \<Longrightarrow> grows 0 (no_leaf s) s s'"
  by (cases s) (auto simp: Let_def bind_eq_Some_conv split: if_splits prod.splits
      intro: new_leaf_grows grows_mono [OF heap_grows])

lemma alloc_node_grows: "alloc_node mal s = Some (a, s') \<Longrightarrow> grows (no_node s) 0 s s'"
  by (cases s) (auto simp: Let_def bind_eq_Some_conv split: if_splits prod.splits
      intro: new_node_grows grows_mono [OF heap_grows])

lemma grows_0_trans: "grows 0 0 s s' \<Longrightarrow> grows i j s' s'' \<Longrightarrow> grows i j s s''"
  "grows i j s s' \<Longrightarrow> grows 0 0 s' s'' \<Longrightarrow> grows i j s s''"
  using grows_trans [of 0 0 s s' i j s''] grows_trans [of i j s s' 0 0 s''] by simp_all

lemma alloc_leaf_root: "alloc_leaf mal s = Some (a, s') \<Longrightarrow> root (snd s') = root (snd s) \<and> deleted_node (snd s') = deleted_node (snd s)"
  by (cases s) (auto simp: Let_def bind_eq_Some_conv split: if_splits prod.splits)

lemma insert_link_grows:
  assumes "insert_link mal k kn s = Some (r, s')"
  shows "grows (no_node s) 0 s s'"
proof -
  obtain h c where s: "s = (h, c)" by fastforce
  from assms obtain n parent prev where d: "insert_descend h k (root c) Root (root c) = Some (n, parent, prev)"
    unfolding insert_link_def s by (auto simp: bind_eq_Some_conv)
  show ?thesis
  proof (cases "n = NULL")
    case True
    then obtain sl s1 where "store sl kn (h, c) = Some s1" "s' = unlock s1"
      using assms d unfolding insert_link_def s by (auto simp: bind_eq_Some_conv simp del: store.simps)
    then show ?thesis unfolding s using grows_mono [OF grows_0_trans(1) [OF store_grows unlock_grows]] by blast
  next
    case False
    then obtain p where p: "node_path h n = Some p"
      using assms d unfolding insert_link_def s by (auto simp: bind_eq_Some_conv)
    show ?thesis
    proof (cases "p XOR k = 0")
      case True
      then obtain s1 where "free_leaf (to_leaf kn) (h, c) = Some s1" "s' = unlock s1"
        using assms d False p unfolding insert_link_def s
        by (auto simp: bind_eq_Some_conv Let_def simp del: free_leaf.simps split: if_splits)
      then show ?thesis unfolding s using grows_mono [OF grows_0_trans(1) [OF free_leaf_grows unlock_grows]] by blast
    next
      case at: False
      then obtain m h1 c1 where m: "alloc_node mal (h, c) = Some (m, (h1, c1))"
        using assms d False p unfolding insert_link_def s
        by (auto simp: bind_eq_Some_conv Let_def simp del: alloc_node.simps split: if_splits)
      show ?thesis
      proof (cases "m = NULL")
        case True
        then obtain s1 where "free_leaf (to_leaf kn) (h1, c1) = Some s1" "s' = unlock s1"
          using assms d False p at m unfolding insert_link_def s
          by (auto simp: bind_eq_Some_conv Let_def simp del: alloc_node.simps free_leaf.simps split: if_splits)
        then have "grows 0 0 (h1, c1) s'" using grows_0_trans(1) [OF free_leaf_grows unlock_grows] by blast
        with alloc_node_grows [OF m] show ?thesis unfolding s by (rule grows_0_trans(2))
      next
        case nz: False
        then obtain nd nd' s1 where "nodes h1 m = Some nd" "store parent m (set_node m nd' h1, c1) = Some s1" "s' = unlock s1"
          using assms d False p at m unfolding insert_link_def s
          by (auto simp: bind_eq_Some_conv Let_def simp del: alloc_node.simps store.simps split: if_splits)
        then have "grows 0 0 (h1, c1) s'"
          using set_node_grows [of h1 m c1 nd' c1] store_grows unlock_grows grows_0_trans(1) by (metis option.distinct(1))
        with alloc_node_grows [OF m] show ?thesis unfolding s by (rule grows_0_trans(2))
      qed
    qed
  qed
qed

lemma critnib_insert_grows:
  assumes "critnib_insert mal k v s = Some (r, s')"
  shows "grows (if root (snd s) = NULL then 0 else no_node s) (no_leaf s) s s'"
proof -
  obtain h c where s: "s = (h, c)" by fastforce
  let ?c = "c\<lparr>mutex := True\<rparr>"
  from assms obtain a h1 c1 where a: "alloc_leaf mal (h, ?c) = Some (a, (h1, c1))"
    unfolding critnib_insert_def s by (auto simp: bind_eq_Some_conv simp del: alloc_leaf.simps split: if_splits)
  have c1: "root c1 = root c" "deleted_node c1 = deleted_node c" using alloc_leaf_root [OF a] by simp_all
  have 1: "grows 0 (no_leaf s) s (h1, c1)"
    using grows_0_trans(1) [OF heap_grows alloc_leaf_grows [OF a]] unfolding s by simp
  have "grows (if root c = NULL then 0 else no_node s) 0 (h1, c1) s'"
  proof (cases "a = NULL")
    case True
    then have "s' = unlock (h1, c1)"
      using assms a unfolding critnib_insert_def s
      by (auto simp: bind_eq_Some_conv simp del: alloc_leaf.simps split: if_splits)
    then show ?thesis using grows_mono unlock_grows by blast
  next
    case False
    then obtain lf where lf: "leaves h1 a = Some lf"
      and r: "(if root c1 = NULL then Some (0, unlock (set_leaf a (lf\<lparr>key := k, val := v\<rparr>) h1, c1\<lparr>root := a OR 1\<rparr>))
        else insert_link mal k (a OR 1) (set_leaf a (lf\<lparr>key := k, val := v\<rparr>) h1, c1)) = Some (r, s')"
      using assms a unfolding critnib_insert_def s
      by (auto simp: bind_eq_Some_conv Let_def simp del: alloc_leaf.simps unlock.simps split: if_splits)
    have g: "grows 0 0 (h1, c1) (set_leaf a (lf\<lparr>key := k, val := v\<rparr>) h1, c')" for c'
      by (rule set_leaf_grows) (simp add: lf)
    show ?thesis
    proof (cases "root c1 = NULL")
      case True
      then have "s' = unlock (set_leaf a (lf\<lparr>key := k, val := v\<rparr>) h1, c1\<lparr>root := a OR 1\<rparr>)" using r by simp
      then show ?thesis using grows_0_trans(1) [OF g unlock_grows] grows_mono by blast
    next
      case False
      then have "insert_link mal k (a OR 1) (set_leaf a (lf\<lparr>key := k, val := v\<rparr>) h1, c1) = Some (r, s')" using r by simp
      from grows_0_trans(1) [OF g insert_link_grows [OF this]] show ?thesis using False c1 s by simp
    qed
  qed
  from grows_trans [OF 1 this] show ?thesis unfolding s by simp
qed

lemma remove_unlink_grows:
  assumes "remove_unlink k del kn n n_parent s = Some (r, s')"
  shows "grows 0 0 s s'"
proof -
  obtain h c where s: "s = (h, c)" by fastforce
  from assms obtain lf where lf: "leaves h (to_leaf kn) = Some lf"
    unfolding remove_unlink_def s by (auto simp: bind_eq_Some_conv)
  show ?thesis
  proof (cases "key lf = k")
    case False
    then show ?thesis using assms lf unlock_grows [of s] unfolding remove_unlink_def s by simp
  next
    case True
    obtain sl h1 c1 nd where 1: "store sl NULL (h, c) = Some (h1, c1)" "nodes h1 n = Some nd"
      and r: "(case scan_ochild (child nd) 0 (-1) of
         None \<Rightarrow>
           Some (val lf, unlock (h1, c1\<lparr>pending_del_leaves :=
             (pending_del_leaves c1)[del := to_leaf kn]\<rparr>))
       | Some ochild \<Rightarrow>
           (if ochild = -1 then None
            else do {
              (h, c) \<leftarrow> store n_parent (child nd ! nat ochild) (h1, c1);
              Some (val lf, unlock (h, c\<lparr>
                pending_del_nodes := (pending_del_nodes c)[del := n],
                pending_del_leaves := (pending_del_leaves c)[del := to_leaf kn]\<rparr>))
            })) = Some (r, s')"
      using assms lf True unfolding remove_unlink_def s
      by (auto simp: bind_eq_Some_conv simp del: store.simps unlock.simps)
    have "\<exists>h2 c2 c3. grows 0 0 (h1, c1) (h2, c2) \<and> s' = unlock (h2, c3)"
    proof (cases "scan_ochild (child nd) 0 (-1)")
      case None
      then have "\<exists>c3. s' = unlock (h1, c3)"
        using r 1 by (auto simp: bind_eq_Some_conv simp del: store.simps unlock.simps)
      then show ?thesis using heap_grows by blast
    next
      case (Some ochild)
      then have "\<exists>h2 c2 c3. store n_parent (child nd ! nat ochild) (h1, c1) = Some (h2, c2) \<and> s' = unlock (h2, c3)"
        using r 1 by (auto simp: bind_eq_Some_conv simp del: store.simps unlock.simps split: if_splits)
      then show ?thesis using store_grows by blast
    qed
    then show ?thesis unfolding s
      using store_grows [OF 1(1)] by (metis grows_0_trans(1) heap_grows unlock_grows)
  qed
qed


lemma critnib_remove_grows:
  assumes "critnib_remove k s = Some (r, s')"
  shows "grows 0 0 s s'"
proof -
  obtain h c where s: "s = (h, c)" by fastforce
  let ?c = "c\<lparr>mutex := True\<rparr>" and ?del = "unat (remove_count c mod DELETED_LIFE)"
  show ?thesis
  proof (cases "root c = NULL")
    case True
    then show ?thesis
      using assms heap_grows unfolding critnib_remove_def s by (auto simp: bind_eq_Some_conv split: if_splits)
  next
    case False
    then obtain s1 h2 c2 where
      f: "free_node (pending_del_nodes c ! ?del) (h, ?c\<lparr>remove_count := remove_count c + 1\<rparr>) = Some s1"
        "free_leaf (pending_del_leaves c ! ?del) s1 = Some (h2, c2)"
      using assms unfolding critnib_remove_def s
      by (auto simp: bind_eq_Some_conv Let_def simp del: free_node.simps free_leaf.simps split: if_splits)
    have g: "grows 0 0 s (h2, c3)" for c3
      using grows_0_trans(1) [OF heap_grows grows_0_trans(1) [OF free_node_grows [OF f(1)] grows_0_trans(1) [OF free_leaf_grows [OF f(2)] heap_grows]]]
      unfolding s .
    define c3 where "c3 = c2\<lparr>pending_del_nodes := (pending_del_nodes c2)[?del := NULL],
                 pending_del_leaves := (pending_del_leaves c2)[?del := NULL]\<rparr>"
    have "(\<exists>c4. s' = unlock (h2, c4)) \<or> (\<exists>kn n np. remove_unlink k ?del kn n np (h2, c3) = Some (r, s'))"
      using assms False f unfolding critnib_remove_def s c3_def
      by (auto simp: bind_eq_Some_conv Let_def simp del: free_node.simps free_leaf.simps unlock.simps split: if_splits option.splits)
    then show ?thesis
      using grows_0_trans(1) [OF g unlock_grows] grows_0_trans(1) [OF g remove_unlink_grows] by blast
  qed
qed

subsection \<open>The contract of the allocator and of the structure\<close>

text \<open>An allocator that serves every request as long as fewer than \<open>cap\<close> blocks are allocated.\<close>

definition malloc_serves :: "nat \<Rightarrow> 'w allocator \<Rightarrow> bool" where
  "malloc_serves cap mal \<longleftrightarrow>
     (\<forall>h. finite (dom (nodes h)) \<and> finite (dom (leaves h)) \<and> blocks h < cap \<longrightarrow>
        fst (malloc_node mal h) \<noteq> NULL \<and> fst (malloc_leaf mal h) \<noteq> NULL)"

definition critnib_repr :: "nat \<Rightarrow> nat \<Rightarrow> 'l::len word cstate \<Rightarrow> (u64 \<rightharpoonup> ptr) \<Rightarrow> bool" where
  "critnib_repr cap n s m \<longleftrightarrow>
     critnib_rel s m \<and> unat (remove_count (snd s)) + n + 16 < 2 ^ 64 \<and> blocks (fst s) + 2 * n \<le> cap"

lemma critnib_rel_heap: "critnib_rel s m \<Longrightarrow> finite (dom (nodes (fst s))) \<and> finite (dom (leaves (fst s)))"
  by (cases s) (auto elim!: critnib_relE dest: cinvD(1) simp: heap_ok_def)

lemma malloc_not_failed:
  assumes "malloc_serves cap mal" "critnib_rel s m" "blocks (fst s) + 2 \<le> cap"
  shows "\<not> malloc_failed mal s"
proof
  assume "malloc_failed mal s"
  note fin = critnib_rel_heap [OF assms(2)]
  have serve: "blocks h < cap \<Longrightarrow> finite (dom (nodes h)) \<Longrightarrow> finite (dom (leaves h)) \<Longrightarrow>
      fst (malloc_node mal h) \<noteq> NULL \<and> fst (malloc_leaf mal h) \<noteq> NULL" for h
    using assms(1) by (auto simp: malloc_serves_def)
  from \<open>malloc_failed mal s\<close> consider "fst (malloc_leaf mal (fst s)) = NULL"
    | h a where "nodes h = nodes (fst s)" "dom (leaves h) \<subseteq> insert a (dom (leaves (fst s)))" "fst (malloc_node mal h) = NULL"
    unfolding malloc_failed_def by blast
  then show False
  proof cases
    case 1
    then show False using serve [of "fst s"] fin assms(3) by simp
  next
    case (2 h a)
    then have f: "finite (dom (leaves h))" using fin by (meson finite_insert finite_subset)
    have "card (dom (leaves h)) \<le> Suc (card (dom (leaves (fst s))))"
      using card_mono [OF _ 2(2)] card_insert_le_m1 fin
      by (metis (no_types, lifting) card_insert_if finite_insert le_SucI le_refl le_trans)
    then have "blocks h < cap" using assms(3) 2(1) by (simp add: blocks_def)
    then show False using serve [of h] f 2 fin by simp
  qed
qed

definition hm_critnib :: "8 word allocator \<Rightarrow> (8 word cstate, 8 word heap) hm" where
  "hm_critnib mal =
     \<lparr>hm_new = critnib_new mal \<lparr>nodes = Map.empty, leaves = Map.empty\<rparr>,
      hm_delete = critnib_delete,
      hm_insert = critnib_insert mal, hm_remove = critnib_remove,
      hm_get = critnib_get, hm_find_le = critnib_find_le, hm_immutable = 0\<rparr>"

lemma unat_incr: "unat ((x::u64) + (if b then 0 else 1)) \<le> Suc (unat x)"
proof -
  have "unat (x + 1) = (unat x + 1) mod 2 ^ 64" by (simp only: unat_word_ariths) simp
  also have "\<dots> \<le> Suc (unat x)" using mod_less_eq_dividend [of "unat x + 1" "2 ^ 64"] by linarith
  finally show ?thesis by simp
qed

locale serving_allocator =
  fixes mal :: "'l::len word allocator" and cap :: nat
  assumes ok: "malloc_ok mal" and serves: "malloc_serves cap mal"
    and new_serves: "malloc_critnib mal \<lparr>nodes = Map.empty, leaves = Map.empty\<rparr> \<noteq> NULL"
    and width: "6 \<le> LENGTH('l)" and cap: "cap < 2 ^ 63"
begin

lemma new_repr:
  "\<exists>s. critnib_new mal \<lparr>nodes = Map.empty, leaves = Map.empty\<rparr> = Some s \<and> critnib_repr cap (cap div 2) s Map.empty"
proof -
  obtain s where s: "critnib_new mal \<lparr>nodes = Map.empty, leaves = Map.empty\<rparr> = Some s"
    using new_serves by (simp add: critnib_new_def)
  then have "fst s = \<lparr>nodes = Map.empty, leaves = Map.empty\<rparr>" by (auto simp: critnib_new_def split: if_splits)
  then have "blocks (fst s) = 0" by (simp add: blocks_def)
  then show ?thesis using s critnib_new_rel [OF s] cap by (simp add: critnib_repr_def)
qed

lemma insert_repr:
  assumes "critnib_repr cap (Suc n) s m"
  shows "\<exists>r s'. critnib_insert mal k v s = Some (r, s')
    \<and> (if k \<in> dom m then r = EEXIST \<and> critnib_repr cap n s' m else r = 0 \<and> critnib_repr cap n s' (m(k \<mapsto> v)))"
proof -
  have rel: "critnib_rel s m" and b: "blocks (fst s) + 2 * Suc n \<le> cap"
    and rc: "unat (remove_count (snd s)) + Suc n + 16 < 2 ^ 64"
    using assms by (simp_all add: critnib_repr_def)
  obtain r s' where r: "critnib_insert mal k v s = Some (r, s')" "insert_outcome mal k v s m r s'"
    using critnib_insert_rel [OF width ok rel] by blast
  have "blocks (fst s') \<le> blocks (fst s) + 2"
    using grows_blocks [OF critnib_insert_grows [OF r(1)]] critnib_rel_heap [OF rel]
    by (auto simp: of_bool_def split: if_splits)
  moreover have "\<not> malloc_failed mal s" using malloc_not_failed [OF serves rel] b by simp
  ultimately show ?thesis using r b rc by (auto simp: insert_outcome_def critnib_repr_def)
qed

lemma remove_repr:
  assumes "critnib_repr cap (Suc n) s m"
  shows "\<exists>s'. critnib_remove k s = Some (val_of (m k), s') \<and> critnib_repr cap n s' (m(k := None))"
proof -
  have rel: "critnib_rel s m" and b: "blocks (fst s) + 2 * Suc n \<le> cap"
    and rc: "unat (remove_count (snd s)) + Suc n + 16 < 2 ^ 64"
    using assms by (simp_all add: critnib_repr_def)
  obtain s' where s': "critnib_remove k s = Some (val_of (m k), s')" "critnib_rel s' (m(k := None))"
    "remove_count (snd s') = remove_count (snd s) + (if m = Map.empty then 0 else 1)"
    using critnib_remove_rel [OF rel] by blast
  have "blocks (fst s') \<le> blocks (fst s)"
    using grows_blocks [OF critnib_remove_grows [OF s'(1)]] critnib_rel_heap [OF rel] by simp
  moreover have "unat (remove_count (snd s')) \<le> Suc (unat (remove_count (snd s)))"
    unfolding s'(3) by (rule unat_incr)
  ultimately show ?thesis using s'(1,2) b rc by (simp add: critnib_repr_def)
qed

lemma get_repr: "critnib_repr cap n s m \<Longrightarrow> critnib_get k s = Some (val_of (m k))"
  by (cases s) (auto simp: critnib_repr_def intro!: critnib_get_rel)

lemma find_le_repr:
  "critnib_repr cap n s m \<Longrightarrow>
   \<exists>v. critnib_find_le k s = Some v \<and> le_value m k v"
  by (cases s) (auto simp: critnib_repr_def intro!: critnib_find_le_rel)

lemma delete_repr:
  "critnib_repr cap n s m \<Longrightarrow> critnib_delete s = Some \<lparr>nodes = Map.empty, leaves = Map.empty\<rparr>"
  unfolding critnib_repr_def by (elim conjE) (rule critnib_delete_rel)

end

lemma hm_critnib_hashmap_le:
  assumes "serving_allocator mal cap"
  shows "hashmap_le (hm_critnib mal) (cap div 2) (critnib_repr cap) \<lparr>nodes = Map.empty, leaves = Map.empty\<rparr> True True"
proof unfold_locales
  note A = serving_allocator.new_repr [OF assms] serving_allocator.insert_repr [OF assms]
    serving_allocator.remove_repr [OF assms] serving_allocator.get_repr [OF assms]
    serving_allocator.find_le_repr [OF assms] serving_allocator.delete_repr [OF assms]
  show "\<exists>s. hm_new (hm_critnib mal) = Some s \<and> critnib_repr cap (cap div 2) s Map.empty"
    using A(1) by (simp add: hm_critnib_def)
  fix n s m k v
  show "critnib_repr cap n s m \<Longrightarrow> hm_delete (hm_critnib mal) s = Some \<lparr>nodes = Map.empty, leaves = Map.empty\<rparr>"
    using A(6) by (simp add: hm_critnib_def)
  show "critnib_repr cap (Suc n) s m \<Longrightarrow> k \<notin> dom m \<Longrightarrow>
      \<exists>s'. hm_insert (hm_critnib mal) k v s = Some (0, s') \<and> critnib_repr cap n s' (m(k \<mapsto> v))"
    using A(2) [of n s m k v] by (auto simp: hm_critnib_def)
  show "critnib_repr cap (Suc n) s m \<Longrightarrow>
      \<exists>s'. hm_remove (hm_critnib mal) k s = Some (val_of (m k), s') \<and> critnib_repr cap n s' (m(k := None))"
    using A(3) by (simp add: hm_critnib_def)
  show "critnib_repr cap n s m \<Longrightarrow> hm_get (hm_critnib mal) k s = Some (val_of (m k))"
    using A(4) by (simp add: hm_critnib_def)
  show "critnib_repr cap (Suc n) s m \<Longrightarrow> k \<in> dom m \<Longrightarrow>
      \<exists>s'. hm_insert (hm_critnib mal) k v s = Some (EEXIST, s') \<and> critnib_repr cap n s' m"
    using A(2) [of n s m k v] by (auto simp: hm_critnib_def)
  show "critnib_repr cap n s m \<Longrightarrow>
      \<exists>v. hm_find_le (hm_critnib mal) k s = Some v \<and> le_value m k v"
    using A(5) by (simp add: hm_critnib_def)
qed simp

subsection \<open>A first-fit allocator\<close>

text \<open>Blocks at the addresses 16, 32, \<dots>, 16 n, with non-zero garbage in them.\<close>

definition addrs :: "nat \<Rightarrow> ptr list" where
  "addrs n = map (\<lambda>i. of_nat (16 * Suc i)) [0..<n]"

definition free_addr :: "nat \<Rightarrow> 'w heap \<Rightarrow> ptr" where
  "free_addr n h =
     (case filter (\<lambda>a. Option.is_none (nodes h a) \<and> Option.is_none (leaves h a)) (addrs n) of
        [] \<Rightarrow> NULL | a # _ \<Rightarrow> a)"

definition first_fit :: "nat \<Rightarrow> 'l::len word allocator" where
  "first_fit n =
     \<lparr>malloc_node = (\<lambda>h. (free_addr n h, \<lparr>child = replicate 16 3735928559, path = 3735928559, shift = 63\<rparr>)),
      malloc_leaf = (\<lambda>h. (free_addr n h, \<lparr>key = 3735928559, val = 3735928559\<rparr>)),
      malloc_critnib = (\<lambda>h. 8)\<rparr>"

lemma unat_addr: "16 * Suc i < 2 ^ 64 \<Longrightarrow> unat (of_nat (16 * Suc i) :: ptr) = 16 * Suc i"
  by (simp only: unat_of_nat) (simp only: len_bit0 len_num1, simp)

lemma addrs_ok:
  assumes "n < 2 ^ 59"
  shows "distinct (addrs n)" "length (addrs n) = n" "a \<in> set (addrs n) \<Longrightarrow> aligned a"
proof -
  have u: "unat (of_nat (16 * Suc i) :: ptr) = 16 * Suc i" if "i < n" for i
    using that assms by (intro unat_addr) simp
  have "inj_on (\<lambda>i. of_nat (16 * Suc i) :: ptr) {0..<n}"
  proof (rule inj_onI)
    fix i j assume "i \<in> {0..<n}" "j \<in> {0..<n}" "(of_nat (16 * Suc i) :: ptr) = of_nat (16 * Suc j)"
    then show "i = j" using u [of i] u [of j] by (metis atLeastLessThan_iff nat.inject mult_left_cancel zero_neq_numeral)
  qed
  then show "distinct (addrs n)" by (simp add: addrs_def distinct_map)
  show "length (addrs n) = n" by (simp add: addrs_def)
  show "aligned a" if "a \<in> set (addrs n)"
  proof -
    obtain i where i: "i < n" "a = of_nat (16 * Suc i)" using \<open>a \<in> set (addrs n)\<close> by (auto simp: addrs_def)
    have "even (of_nat (16 * Suc i) :: ptr)" by (simp only: of_nat_mult) simp
    moreover have "a \<noteq> 0" using u [OF i(1)] i(2) by (metis mult_is_0 nat.distinct(1) unat_0 zero_neq_numeral)
    ultimately show ?thesis using i(2) by (simp only: aligned_def is_leaf_odd) simp
  qed
qed

lemma free_addr_cases:
  obtains (none) "free_addr n h = NULL" "set (addrs n) \<subseteq> dom (nodes h) \<union> dom (leaves h)"
  | (some) "free_addr n h \<in> set (addrs n)" "free_addr n h \<notin> dom (nodes h)" "free_addr n h \<notin> dom (leaves h)"
proof (cases "filter (\<lambda>a. Option.is_none (nodes h a) \<and> Option.is_none (leaves h a)) (addrs n)")
  case Nil
  then have "set (addrs n) \<subseteq> dom (nodes h) \<union> dom (leaves h)"
    by (auto simp: filter_empty_conv Option.is_none_def domIff)
  with none Nil show ?thesis by (simp add: free_addr_def)
next
  case (Cons a as)
  then have "a \<in> set (filter (\<lambda>a. Option.is_none (nodes h a) \<and> Option.is_none (leaves h a)) (addrs n))" by simp
  then show ?thesis using some Cons by (auto simp: free_addr_def Option.is_none_def domIff)
qed

lemma first_fit_serving:
  assumes "n < 2 ^ 59" "6 \<le> LENGTH('l::len)"
  shows "serving_allocator (first_fit n :: 'l word allocator) n"
proof
  note A = addrs_ok [OF assms(1)]
  show "malloc_ok (first_fit n :: 'l word allocator)"
  proof -
    have "free_addr n h \<noteq> NULL \<Longrightarrow> aligned (free_addr n h) \<and> free_addr n h \<notin> dom (nodes h) \<and> free_addr n h \<notin> dom (leaves h)"
      for h :: "'l word heap"
      by (rule free_addr_cases [of n h]) (use A(3) in simp_all)
    then show ?thesis unfolding malloc_ok_def first_fit_def by auto
  qed
  show "malloc_serves n (first_fit n :: 'l word allocator)"
    unfolding malloc_serves_def
  proof (intro allI impI)
    fix h :: "'l word heap"
    assume h: "finite (dom (nodes h)) \<and> finite (dom (leaves h)) \<and> blocks h < n"
    have "card (dom (nodes h) \<union> dom (leaves h)) < card (set (addrs n))"
      using card_Un_le [of "dom (nodes h)" "dom (leaves h)"] h A(2) distinct_card [OF A(1)] by (simp add: blocks_def)
    then have ns: "\<not> set (addrs n) \<subseteq> dom (nodes h) \<union> dom (leaves h)"
      using h card_mono [of "dom (nodes h) \<union> dom (leaves h)" "set (addrs n)"] by auto
    have "free_addr n h \<in> set (addrs n)" by (rule free_addr_cases [of n h]) (rule notE [OF ns], assumption+)
    then have "free_addr n h \<noteq> NULL" by (rule aligned_simps(1) [OF A(3)])
    then show "fst (malloc_node (first_fit n :: 'l word allocator) h) \<noteq> NULL
        \<and> fst (malloc_leaf (first_fit n :: 'l word allocator) h) \<noteq> NULL"
      by (simp add: first_fit_def)
  qed
qed (use assms in \<open>simp_all add: first_fit_def\<close>)

interpretation ff8: serving_allocator "first_fit 8388608 :: 8 word allocator" 8388608
  by (rule first_fit_serving) simp_all

interpretation critnib_hm: hashmap_le "hm_critnib (first_fit 8388608)" 4194304 "critnib_repr 8388608"
  "\<lparr>nodes = Map.empty, leaves = Map.empty\<rparr>" True True
  using hm_critnib_hashmap_le [OF ff8.serving_allocator_axioms] by simp

end
