(* ===== verification/Critnib_Properties.thy ===== *)
theory Critnib_Properties
  imports Critnib
begin

text \<open>
  The properties of the operations of \<open>src/critnib.c\<close>, for the 8-bit shift field of that file.  \<open>demo\<close> is a
  structure with the keys 1 and 2, at which the hypotheses of the theorems are shown to hold.
\<close>

subsection \<open>A concrete structure\<close>

definition demo_heap :: "'l::len word heap" where
  "demo_heap =
     \<lparr>nodes = [48 \<mapsto> \<lparr>child = [0, 17, 33, 0, 0, 0, 0, 0, 0, 0, 0, 0, 0, 0, 0, 0], path = 0, shift = 0\<rparr>],
      leaves = [16 \<mapsto> \<lparr>key = 1, val = 10\<rparr>, 32 \<mapsto> \<lparr>key = 2, val = 20\<rparr>]\<rparr>"

definition demo :: "'l::len word cstate" where
  "demo = (demo_heap,
     \<lparr>root = 48, deleted_node = 0, deleted_leaf = 0,
      pending_del_nodes = replicate 16 0, pending_del_leaves = replicate 16 0,
      remove_count = 0, mutex = False\<rparr>)"

definition demo_tree :: ctree where
  "demo_tree = Node 48 0 0 [Null, Leaf 16 1 10, Leaf 32 2 20,
     Null, Null, Null, Null, Null, Null, Null, Null, Null, Null, Null, Null, Null]"

lemma upto_16: "(\<forall>i<16. P i) \<longleftrightarrow> P 0 \<and> P 1 \<and> P 2 \<and> P 3 \<and> P 4 \<and> P 5 \<and> P 6 \<and> P 7 \<and> P 8 \<and> P 9 \<and> P 10
   \<and> P 11 \<and> P 12 \<and> P 13 \<and> P 14 \<and> P (15::nat)"
  by (simp add: eval_nat_numeral All_less_Suc) blast

lemma demo_rel: "critnib_rel demo [1 \<mapsto> 10, 2 \<mapsto> 20]"
proof -
  have al: "aligned 16" "aligned 32" "aligned 48" by (simp_all add: aligned_def is_leaf_def)
  let ?ts = "[Null, Leaf 16 1 10, Leaf 32 2 20,
     Null, Null, Null, Null, Null, Null, Null, Null, Null, Null, Null, Null, Null]"
  have "\<forall>i<16. wft (?ts ! i)" "\<forall>i<16. \<forall>k\<in>keys (?ts ! i). up 0 k = 16 * up (0 + 4) 0 + i"
    unfolding upto_16 by (simp_all add: up_def)
  then have w: "wft demo_tree"
    unfolding demo_tree_def by (intro wft_NodeI [where i = 1 and j = 2]) auto
  have "cinv (demo_heap, snd demo) demo_tree [] [] {#} {#}"
    by (rule cinvI) (auto simp: demo_heap_def demo_def demo_tree_def heap_ok_def live_def al)
  then have "critnib_rel (demo_heap, snd demo) (tmap demo_tree)"
    by (rule critnib_relI) (simp_all add: demo_def demo_tree_def w [unfolded demo_tree_def])
  moreover have "tmap demo_tree = [1 \<mapsto> 10, 2 \<mapsto> 20]"
    by (auto simp: demo_tree_def tmap_def)
  ultimately show ?thesis by (simp add: demo_def)
qed

lemma demo_count: "unat (remove_count (snd demo)) + 16 < 2 ^ 64"
  by (simp add: demo_def)

subsection \<open>The operations\<close>

text \<open>
  C1.  Insertion, on every branch: \<open>critnib_insert\<close> always returns; it returns 0 and adds the
  key when the key was absent, \<open>EEXIST\<close> without changing the map when it was present, and
  \<open>ENOMEM\<close> without changing the map only if \<open>malloc\<close> failed with an empty pool.
  The structure stays consistent and unlocked in all cases.
\<close>

theorem critnib_insert_correct:
  fixes s :: "8 word cstate"
  assumes "malloc_ok mal" and "critnib_rel s m"
  shows "\<exists>r s'. critnib_insert mal k v s = Some (r, s') \<and>
    remove_count (snd s') = remove_count (snd s) \<and>
    (r = 0 \<and> k \<notin> dom m \<and> critnib_rel s' (m(k \<mapsto> v))
     \<or> r = EEXIST \<and> k \<in> dom m \<and> critnib_rel s' m
     \<or> r = ENOMEM \<and> malloc_failed mal s \<and> critnib_rel s' m)"
  using critnib_insert_rel [OF _ assms, of k v] unfolding insert_outcome_def by simp

theorem critnib_insert_correct_witness:
  "malloc_ok (first_fit 8388608 :: 8 word allocator) \<and> critnib_rel (demo :: 8 word cstate) [1 \<mapsto> 10, 2 \<mapsto> 20] \<and>
   (\<exists>r s'. critnib_insert (first_fit 8388608) 17 30 (demo :: 8 word cstate) = Some (r, s') \<and> r \<noteq> EEXIST)"
  using critnib_insert_correct [OF ff8.ok demo_rel, of 17 30] ff8.ok demo_rel
  by (auto simp: EEXIST_def ENOMEM_def)

text \<open>
  C2.  Removal: \<open>critnib_remove\<close> always returns, with the value the key had (NULL if it was
  absent); afterwards the map lacks the key, and every other key keeps its value.
\<close>

theorem critnib_remove_correct:
  fixes s :: "8 word cstate"
  assumes "critnib_rel s m"
  shows "\<exists>s'. critnib_remove k s = Some (val_of (m k), s') \<and> critnib_rel s' (m(k := None))
    \<and> remove_count (snd s') = remove_count (snd s) + (if m = Map.empty then 0 else 1)"
  by (rule critnib_remove_rel [OF assms])

theorem critnib_remove_correct_witness:
  "\<exists>s'. critnib_remove 2 (demo :: 8 word cstate) = Some (20, s') \<and> critnib_rel s' [1 \<mapsto> 10]"
  using critnib_remove_correct [OF demo_rel, of 2] by auto

text \<open>
  C3.  Lookup: as long as the counter of removals is not within 16 of wrapping around,
  \<open>critnib_get\<close> returns the value of the key, and NULL for an absent key.
\<close>

theorem critnib_get_correct:
  fixes s :: "8 word cstate"
  assumes "critnib_rel s m" "unat (remove_count (snd s)) + 16 < 2 ^ 64"
  shows "critnib_get k s = Some (val_of (m k))"
  using assms by (cases s) (simp add: critnib_get_rel)

theorem critnib_get_correct_witness: "critnib_get 2 (demo :: 8 word cstate) = Some 20"
  using critnib_get_correct [OF demo_rel demo_count, of 2] by simp

text \<open>
  C4.  The predecessor query: under the same condition \<open>critnib_find_le\<close> returns, and the
  result is the value of the greatest key that is at most \<open>k\<close>, or NULL when there is no such
  key; only when the value stored with that greatest key is itself NULL may the result be the value
  of a smaller key.  A result other than NULL is always the value of a key that is at most \<open>k\<close>.
\<close>

theorem critnib_find_le_correct:
  fixes s :: "8 word cstate"
  assumes "critnib_rel s m" "unat (remove_count (snd s)) + 16 < 2 ^ 64"
  shows "\<exists>v. critnib_find_le k s = Some v \<and> le_value m k v"
  using assms critnib_find_le_rel [of "fst s" "snd s" m k] by simp

theorem critnib_find_le_correct_witness:
  "critnib_find_le 9 (demo :: 8 word cstate) = Some 20"
proof -
  have f: "is_floor [1 \<mapsto> 10, 2 \<mapsto> 20] 9 2 20" by (simp add: is_floor_def)
  then have "\<forall>x. \<not> is_floor [1 \<mapsto> 10, 2 \<mapsto> 20] 9 x NULL" using is_floor_unique [OF f] by force
  with critnib_find_le_correct [OF demo_rel demo_count, of 9] floor_value_is_floor [OF f]
  show ?thesis unfolding le_value_def by auto
qed

text \<open>
  C5.  Memory safety of deletion: \<open>critnib_delete\<close> on a consistent structure frees every
  block of the heap exactly once (the tree, both pools and the pending slots) and leaves none.
\<close>

theorem critnib_delete_frees_all:
  fixes s :: "8 word cstate"
  assumes "critnib_rel s m"
  shows "critnib_delete s = Some \<lparr>nodes = Map.empty, leaves = Map.empty\<rparr>"
  by (rule critnib_delete_rel [OF assms])

theorem critnib_delete_frees_all_witness:
  "critnib_delete (demo :: 8 word cstate) = Some \<lparr>nodes = Map.empty, leaves = Map.empty\<rparr>"
  using critnib_delete_frees_all [OF demo_rel] .

text \<open>
  C6.  Refinement of sequences: for every sequence of insertions, removals and lookups, within
  the resources of the allocator, creating a critnib, making the calls and deleting it answers
  each call as a finite map does and leaves no memory allocated.
\<close>

theorem critnib_session_refines:
  assumes "serving_allocator mal cap" "length cs \<le> cap div 2"
  shows "session (hm_critnib mal) cs = Some (expect Map.empty cs, \<lparr>nodes = Map.empty, leaves = Map.empty\<rparr>)"
  using hashmap.session_ok [OF hashmap_le.axioms(1) [OF hm_critnib_hashmap_le [OF assms(1)]] assms(2)] by simp

theorem critnib_session_refines_witness:
  "session (hm_critnib (first_fit 8388608)) [Insert 5 50, Insert 21 7, Insert 5 51, Get 5, Remove 5, Get 5, Get 21]
   = Some ([Status 0, Status 0, Status EEXIST, Value 50, Value 50, Value 0, Value 7],
           \<lparr>nodes = Map.empty, leaves = Map.empty\<rparr>)"
  using critnib_session_refines [OF ff8.serving_allocator_axioms,
      of "[Insert 5 50, Insert 21 7, Insert 5 51, Get 5, Remove 5, Get 5, Get 21]"] by simp

end
