(* ===== verification/Critnib_Memory.thy ===== *)
theory Critnib_Memory
  imports Critnib_Properties
begin

text \<open>
  How much memory a structure of \<open>src/critnib.c\<close> holds over its lifetime.  The blocks in the heap
  are those of the tree, one leaf for a key and fewer nodes than leaves, those of the pools, and at
  most 16 of each kind in the pending slots; since \<open>Malloc\<close> is called only when the pool is empty, the
  pools never make the total larger than the tree and the pending slots once made it.
\<close>

subsection \<open>Counting the blocks of a tree\<close>

lemma laddrs_entries: "length (laddrs t) = length (entries t)"
  by (induction t) (auto simp: length_concat intro!: arg_cong [where f = sum_list] map_cong)

lemma laddrs_card: "wft t \<Longrightarrow> length (laddrs t) = card (dom (tmap t))"
  unfolding laddrs_entries dom_tmap keys_def using distinct_card [OF distinct_entries, of t] by simp

lemma used_children:
  assumes "wft (Node a p s ts)"
  shows "2 \<le> length (filter (\<lambda>t. t \<noteq> Null) ts)"
proof -
  obtain i j where ij: "i < 16" "j < 16" "i \<noteq> j" "ts ! i \<noteq> Null" "ts ! j \<noteq> Null" using wft_two_children [OF assms] .
  have "{i, j} \<subseteq> {l. l < length ts \<and> ts ! l \<noteq> Null}" using ij wft_NodeD(1) [OF assms] by simp
  from card_mono [OF _ this] show ?thesis using ij(3) by (simp add: length_filter_conv_card)
qed

lemma concat_count:
  "(\<And>t. t \<in> set ts \<Longrightarrow> t \<noteq> Null \<Longrightarrow> Suc (length (f t)) \<le> length (g t)) \<Longrightarrow> f Null = [] \<Longrightarrow>
   length (concat (map f ts)) + length (filter (\<lambda>t. t \<noteq> Null) ts) \<le> length (concat (map g ts))"
proof (induction ts)
  case (Cons t ts)
  have "length (concat (map f ts)) + length (filter (\<lambda>t. t \<noteq> Null) ts) \<le> length (concat (map g ts))"
    using Cons by simp
  moreover have "t \<noteq> Null \<Longrightarrow> Suc (length (f t)) \<le> length (g t)" using Cons.prems(1) by simp
  ultimately show ?case using Cons.prems(2) by (cases "t = Null") auto
qed simp

lemma naddrs_laddrs: "wft t \<Longrightarrow> t \<noteq> Null \<Longrightarrow> Suc (length (naddrs t)) \<le> length (laddrs t)"
proof (induction t)
  case (Node a p s ts)
  have "length (concat (map naddrs ts)) + length (filter (\<lambda>t. t \<noteq> Null) ts) \<le> length (concat (map laddrs ts))"
    using Node.IH wft_in_set [OF Node.prems(1)] by (intro concat_count) auto
  then show ?case using used_children [OF Node.prems(1)] by simp
qed simp_all

subsection \<open>Counting the blocks of a structure\<close>

lemma size_live: "size (live ps) \<le> length ps"
  unfolding live_def size_mset by (rule length_filter_le)

text \<open>What the heap holds at a time when a pool is empty.\<close>

lemma empty_pool:
  assumes "critnib_rel s m"
  shows "deleted_leaf (snd s) = NULL \<Longrightarrow> card (dom (leaves (fst s))) \<le> card (dom m) + 16"
    "deleted_node (snd s) = NULL \<Longrightarrow> root (snd s) \<noteq> NULL \<Longrightarrow> Suc (card (dom (nodes (fst s)))) \<le> card (dom m) + 16"
    "finite (dom m)"
proof -
  obtain h c where s: "s = (h, c)" by fastforce
  from assms s obtain t dn dl where t: "cinv (h, c) t dn dl {#} {#}" "root c = tptr t" "wft t" "m = tmap t"
    by (auto elim: critnib_relE)
  note D = cinvD [OF t(1)] and L = cinv_lists [OF t(1)]
  show "finite (dom m)" unfolding t(4) tmap_def by (rule finite_dom_map_of)
  have n: "card (dom (nodes h)) = length (naddrs t) + length dn + size (live (pending_del_nodes c))"
    and l: "card (dom (leaves h)) = length (laddrs t) + length dl + size (live (pending_del_leaves c))"
    using arg_cong [OF D(7), of size] arg_cong [OF D(8), of size] by simp_all
  have pn: "size (live (pending_del_nodes c)) \<le> 16" "size (live (pending_del_leaves c)) \<le> 16"
    using size_live D(5,6) by metis+
  show "card (dom (leaves (fst s))) \<le> card (dom m) + 16" if "deleted_leaf (snd s) = NULL"
  proof -
    have "dl = []" using D(4) L(4) that s by (cases dl) auto
    then show ?thesis using l pn laddrs_card [OF t(3)] s t(4) by simp
  qed
  show "Suc (card (dom (nodes (fst s)))) \<le> card (dom m) + 16" if "deleted_node (snd s) = NULL" "root (snd s) \<noteq> NULL"
  proof -
    have "dn = []" using D(3) L(3) that s by (cases dn) auto
    moreover have "t \<noteq> Null" using that(2) s t(2) by auto
    ultimately show ?thesis using n pn naddrs_laddrs [OF t(3)] laddrs_card [OF t(3)] s t(4) by simp
  qed
qed

text \<open>At most \<open>N\<close> keys so far.\<close>

definition within :: "nat \<Rightarrow> 8 word cstate \<Rightarrow> bool" where
  "within N s \<longleftrightarrow> card (dom (leaves (fst s))) \<le> N + 17 \<and> card (dom (nodes (fst s))) \<le> N + 16"

lemma grows_card:
  assumes "grows i j s s'" "finite (dom (nodes (fst s)))" "finite (dom (leaves (fst s)))"
  shows "card (dom (nodes (fst s'))) \<le> card (dom (nodes (fst s))) + i"
    "card (dom (leaves (fst s'))) \<le> card (dom (leaves (fst s))) + j"
proof -
  have c: "card Y \<le> card X + n" if "finite A \<and> card A \<le> n \<and> Y \<subseteq> X \<union> A" "finite X" for A X Y :: "ptr set" and n
    using card_mono [of "X \<union> A" Y] card_Un_le [of X A] that by (meson finite_UnI le_trans add_le_mono order.refl)
  show "card (dom (nodes (fst s'))) \<le> card (dom (nodes (fst s))) + i"
    "card (dom (leaves (fst s'))) \<le> card (dom (leaves (fst s))) + j"
    using assms(1) c assms(2,3) unfolding grows_def by blast+
qed

lemma insert_within:
  assumes "critnib_rel s m" "critnib_insert mal k v s = Some (r, s')" "card (dom m) \<le> N" "within N s"
  shows "within N s'"
proof -
  note g = grows_card [OF critnib_insert_grows [OF assms(2)]] and e = empty_pool [OF assms(1)]
  show ?thesis using g critnib_rel_heap [OF assms(1)] e(1,2) assms(3,4)
    by (auto simp: within_def of_bool_def split: if_splits)
qed

lemma remove_within:
  assumes "critnib_rel s m" "critnib_remove k s = Some (x, s')" "within N s"
  shows "within N s'"
  using grows_card [OF critnib_remove_grows [OF assms(2)]] critnib_rel_heap [OF assms(1)] assms(3) by (auto simp: within_def)

subsection \<open>The lifetime of a structure\<close>

text \<open>The greatest number of keys that a sequence of calls can have in the structure at once.\<close>

fun peak :: "u64 set \<Rightarrow> call list \<Rightarrow> nat" where
  "peak K [] = card K"
| "peak K (Insert k v # cs) = max (card K) (peak (insert k K) cs)"
| "peak K (Remove k # cs) = max (card K) (peak (K - {k}) cs)"
| "peak K (Get k # cs) = peak K cs"

lemma card_peak: "card K \<le> peak K cs"
  by (induction K cs rule: peak.induct) auto

lemma performs_within:
  assumes mal: "malloc_ok mal"
  shows "critnib_rel s m \<Longrightarrow> dom m \<subseteq> K \<Longrightarrow> finite K \<Longrightarrow> peak K cs \<le> N \<Longrightarrow> within N s \<Longrightarrow>
    unat (remove_count (snd s)) + length cs + 16 < 2 ^ 64 \<Longrightarrow>
    \<exists>as s'. performs (hm_critnib mal) cs s = Some (as, s') \<and> within N s'"
proof (induction cs arbitrary: s m K)
  case (Cons c cs)
  have card: "card (dom m) \<le> N"
    using card_mono [OF Cons.prems(3,2)] card_peak [of K "c # cs"] Cons.prems(4) by linarith
  have rc: "unat (remove_count (snd s)) + length cs + 17 < 2 ^ 64" using Cons.prems(6) by simp
  have step: ?case if "perform (hm_critnib mal) c s = Some (a, s1)" "critnib_rel s1 m1" "dom m1 \<subseteq> K1" "finite K1"
    "peak K1 cs \<le> N" "within N s1" "unat (remove_count (snd s1)) \<le> Suc (unat (remove_count (snd s)))" for a s1 m1 K1
    using Cons.IH [OF that(2-6)] that(1,7) rc by auto
  show ?case
  proof (cases c)
    case (Insert k v)
    have "6 \<le> LENGTH(8)" by simp
    from critnib_insert_rel [OF this mal Cons.prems(1), of k v] obtain r s1 where
      r: "critnib_insert mal k v s = Some (r, s1)" "insert_outcome mal k v s m r s1" by blast
    then obtain m1 where m1: "critnib_rel s1 m1" "dom m1 \<subseteq> insert k (dom m)" "remove_count (snd s1) = remove_count (snd s)"
      unfolding insert_outcome_def by (metis domI dom_fun_upd insert_absorb option.simps(3) order_refl subset_insertI)
    show ?thesis
      by (rule step [of "Status r" s1 m1 "insert k K"])
         (use r(1) m1 Insert Cons.prems insert_within [OF Cons.prems(1) r(1) card] in \<open>auto simp: hm_critnib_def\<close>)
  next
    case (Remove k)
    from critnib_remove_rel [OF Cons.prems(1), of k] obtain s1 where
      r: "critnib_remove k s = Some (val_of (m k), s1)" "critnib_rel s1 (m(k := None))"
        "remove_count (snd s1) = remove_count (snd s) + (if m = Map.empty then 0 else 1)" by blast
    show ?thesis
      by (rule step [of "Value (val_of (m k))" s1 "m(k := None)" "K - {k}"])
         (use r Remove Cons.prems remove_within [OF Cons.prems(1) r(1)] unat_incr in \<open>auto simp: hm_critnib_def\<close>)
  next
    case (Get k)
    have "unat (remove_count (snd s)) + 16 < 2 ^ 64" using rc by simp
    then have "critnib_get k s = Some (val_of (m k))" using critnib_get_rel [of "fst s" "snd s" m k] Cons.prems(1) by simp
    then show ?thesis
      by (intro step [of "Value (val_of (m k))" s m K]) (use Get Cons.prems in \<open>auto simp: hm_critnib_def\<close>)
  qed
qed simp

text \<open>
  C9.  Memory use over a lifetime: whatever sequence of insertions (of new keys or of duplicates, and
  also those that fail for want of memory), removals and lookups is made on a new structure, with any
  allocator, the heap never holds more than 17 leaves and 16 nodes beyond the greatest number of
  keys that were in the structure at once, however many updates were made.  (The calls are fewer
  than \<open>2\<^sup>6\<^sup>4 - 16\<close>, below the wrap-around of the counter of removals.)
\<close>

theorem critnib_memory_bound:
  assumes "malloc_ok mal" "critnib_new mal \<lparr>nodes = Map.empty, leaves = Map.empty\<rparr> = Some s" "length cs + 16 < 2 ^ 64"
  shows "\<exists>as s'. performs (hm_critnib mal) cs s = Some (as, s')
    \<and> card (dom (leaves (fst s'))) \<le> peak {} cs + 17 \<and> card (dom (nodes (fst s'))) \<le> peak {} cs + 16"
proof -
  note n = critnib_new_rel [OF assms(2)]
  have "fst s = \<lparr>nodes = Map.empty, leaves = Map.empty\<rparr>" using assms(2) by (auto simp: critnib_new_def split: if_splits)
  then have "within (peak {} cs) s" by (simp add: within_def)
  then have "\<exists>as s'. performs (hm_critnib mal) cs s = Some (as, s') \<and> within (peak {} cs) s'"
    using n assms(3) by (intro performs_within [OF assms(1) n(1), of "{}"]) simp_all
  then show ?thesis by (auto simp: within_def)
qed

theorem critnib_memory_bound_witness:
  "\<exists>s as s'. critnib_new (first_fit 8388608) \<lparr>nodes = Map.empty, leaves = Map.empty\<rparr> = Some s
    \<and> performs (hm_critnib (first_fit 8388608)) (concat (replicate 1000000 [Insert 5 50, Insert 5 51, Remove 5])) s = Some (as, s')
    \<and> card (dom (leaves (fst s'))) \<le> 18 \<and> card (dom (nodes (fst s'))) \<le> 17"
proof -
  let ?cs = "\<lambda>n. concat (replicate n [Insert 5 50, Insert 5 51, Remove 5])"
  have p: "peak {} (?cs n) = of_bool (0 < n)" for n by (induction n) (auto split: nat.splits)
  have l: "length (?cs n) = 3 * n" for n by (induction n) simp_all
  obtain s where s: "critnib_new (first_fit 8388608 :: 8 word allocator) \<lparr>nodes = Map.empty, leaves = Map.empty\<rparr> = Some s"
    by (simp add: critnib_new_def first_fit_def)
  have "length (?cs 1000000) + 16 < 2 ^ 64" unfolding l by simp
  from critnib_memory_bound [OF ff8.ok s this] show ?thesis using s unfolding p by auto
qed

end
