(* ===== verification/Critnib_Reader.thy ===== *)
theory Critnib_Reader
  imports Critnib_Remove
begin

text \<open>
  A reader of \<open>src/critnib.c\<close> among writers.  A reader takes no lock: it is a machine whose steps
  are the single loads of \<open>critnib_get\<close>, and between two of them any number of insertions and
  removals may happen.  The writers hold the mutex, so they exclude each other, and a write
  operation is one step here.

  This theory follows a pointer that the reader holds.  While fewer than 16 removals have begun since the
  reader read the counter, the pointer is in \<open>reach\<close>: it belongs to the tree, or to a block that
  was unlinked during the call and waits in its pending slot, unchanged.  \<open>dives\<close> says what the rest
  of the reader's descent would find from a pointer.  A write either leaves that value alone or
  makes it the value that is current after the write.
\<close>

subsection \<open>The steps of a reader\<close>

text \<open>
  The control points of \<open>critnib_get\<close>, with the local variables that are live there: \<open>wrs1\<close>, the
  node \<open>n\<close>, the index of the child to load, the leaf \<open>k\<close> whose key was found equal, \<open>res\<close>.
\<close>

datatype reader =
    RStart
  | RRoot u64
  | RWalk u64 ptr
  | RSlot u64 ptr nat
  | RValue u64 ptr
  | RCheck u64 ptr
  | RReturn ptr

text \<open>One load each; \<open>None\<close> is an access outside the allocated blocks.\<close>

fun reader_step :: "u64 \<Rightarrow> 'l::len word cstate \<Rightarrow> reader \<Rightarrow> reader option" where
  "reader_step k (h, c) RStart = Some (RRoot (remove_count c))"
| "reader_step k (h, c) (RRoot wrs1) = Some (RWalk wrs1 (root c))"
| "reader_step k (h, c) (RWalk wrs1 n) =
     (if n = NULL then Some (RCheck wrs1 NULL)
      else if is_leaf n then do {
        lf \<leftarrow> leaves h (to_leaf n);
        Some (if key lf = k then RValue wrs1 (to_leaf n) else RCheck wrs1 NULL)
      } else do {
        nd \<leftarrow> nodes h n;
        Some (RSlot wrs1 n (slice_index k (shift nd)))
      })"
| "reader_step k (h, c) (RSlot wrs1 n i) = do {
     nd \<leftarrow> nodes h n;
     if i < length (child nd) then Some (RWalk wrs1 (child nd ! i)) else None
   }"
| "reader_step k (h, c) (RValue wrs1 a) = do {
     lf \<leftarrow> leaves h a;
     Some (RCheck wrs1 (val lf))
   }"
| "reader_step k (h, c) (RCheck wrs1 res) =
     Some (if wrs1 + DELETED_LIFE \<le> remove_count c then RStart else RReturn res)"
| "reader_step k (h, c) (RReturn res) = Some (RReturn res)"

subsection \<open>A reader among writers\<close>

text \<open>
  \<open>served\<close> are the states that the operations lead to.  \<open>among mal step r0 ss r\<close> says that, for a
  reader that starts at \<open>r0\<close> and makes the steps \<open>step\<close>, the states since its start can be \<open>ss\<close>,
  the current one first, when it is at \<open>r\<close>.  The counter of removals stays away from its
  wrap-around, near which no query returns at all.
\<close>

inductive served :: "'l::len word allocator \<Rightarrow> 'l word cstate \<Rightarrow> bool" for mal where
  new: "critnib_new mal \<lparr>nodes = Map.empty, leaves = Map.empty\<rparr> = Some s \<Longrightarrow> served mal s"
| insert: "served mal s \<Longrightarrow> critnib_insert mal x y s = Some (e, s') \<Longrightarrow> served mal s'"
| remove: "served mal s \<Longrightarrow> critnib_remove x s = Some (y, s') \<Longrightarrow>
    unat (remove_count (snd s)) + 17 < 2 ^ 64 \<Longrightarrow> served mal s'"

inductive among ::
  "'l::len word allocator \<Rightarrow> ('l word cstate \<Rightarrow> 'r \<Rightarrow> 'r option) \<Rightarrow> 'r \<Rightarrow> 'l word cstate list \<Rightarrow> 'r \<Rightarrow> bool"
  for mal step r0 where
  call: "served mal s \<Longrightarrow> among mal step r0 [s] r0"
| insert: "among mal step r0 (s # ss) r \<Longrightarrow> critnib_insert mal x y s = Some (e, s') \<Longrightarrow> among mal step r0 (s' # s # ss) r"
| remove: "among mal step r0 (s # ss) r \<Longrightarrow> critnib_remove x s = Some (y, s') \<Longrightarrow>
    unat (remove_count (snd s)) + 17 < 2 ^ 64 \<Longrightarrow> among mal step r0 (s' # s # ss) r"
| read: "among mal step r0 (s # ss) r \<Longrightarrow> step s r = Some r' \<Longrightarrow> among mal step r0 (s # ss) r'"

text \<open>A run by a script, so that particular interleavings can be evaluated.\<close>

datatype event = Read | Ins u64 ptr | Rem u64

fun play ::
  "'l::len word allocator \<Rightarrow> ('l word cstate \<Rightarrow> 'r \<Rightarrow> 'r option) \<Rightarrow> event list \<Rightarrow> 'l word cstate list \<times> 'r
   \<Rightarrow> ('l word cstate list \<times> 'r) option" where
  "play mal step (Read # es) (s # ss, r) = do { r' \<leftarrow> step s r; play mal step es (s # ss, r') }"
| "play mal step (Ins x y # es) (s # ss, r) = do { (e, s') \<leftarrow> critnib_insert mal x y s; play mal step es (s' # s # ss, r) }"
| "play mal step (Rem x # es) (s # ss, r) =
     (if remove_count (snd s) < - 17
      then do { (y, s') \<leftarrow> critnib_remove x s; play mal step es (s' # s # ss, r) } else None)"
| "play mal step [] p = Some p"
| "play mal step es ([], r) = None"

lemma below_wrap: "x < - 17 \<longleftrightarrow> unat (x::u64) + 17 < 2 ^ 64"
  by (simp add: word_less_nat_alt)

lemma play_among: "play mal step es (ss, r) = Some (ss', r') \<Longrightarrow> among mal step r0 ss r \<Longrightarrow> among mal step r0 ss' r'"
proof (induction es arbitrary: ss r)
  case (Cons e es)
  then obtain s ss0 where ss: "ss = s # ss0" by (cases ss) auto
  show ?case
  proof (cases e)
    case Read
    then obtain r1 where "step s r = Some r1" "play mal step es (s # ss0, r1) = Some (ss', r')"
      using Cons.prems(1) ss by (auto simp: bind_eq_Some_conv)
    then show ?thesis using Cons.IH among.read Cons.prems(2) ss by metis
  next
    case (Ins x y)
    then obtain q s1 where "critnib_insert mal x y s = Some (q, s1)" "play mal step es (s1 # s # ss0, r) = Some (ss', r')"
      using Cons.prems(1) ss by (auto simp: bind_eq_Some_conv)
    then show ?thesis using Cons.IH among.insert Cons.prems(2) ss by metis
  next
    case (Rem x)
    then obtain q s1 where "critnib_remove x s = Some (q, s1)" "unat (remove_count (snd s)) + 17 < 2 ^ 64"
      "play mal step es (s1 # s # ss0, r) = Some (ss', r')"
      using Cons.prems(1) ss unfolding below_wrap [symmetric] by (auto simp: bind_eq_Some_conv split: if_splits)
    then show ?thesis using Cons.IH among.remove Cons.prems(2) ss by metis
  qed
qed simp

lemma among_served: "among mal step r0 ss r \<Longrightarrow> \<exists>s ss'. ss = s # ss' \<and> served mal s"
  by (induction rule: among.induct) (auto intro: served.intros)

text \<open>A script of writes \<open>es0\<close> before the call and a script \<open>es\<close> from its start on.\<close>

definition play_call ::
  "'l::len word allocator \<Rightarrow> event list \<Rightarrow> ('l word cstate \<Rightarrow> 'r \<Rightarrow> 'r option) \<Rightarrow> 'r \<Rightarrow> event list
   \<Rightarrow> ('l word cstate list \<times> 'r) option" where
  "play_call mal es0 step r0 es = do {
     s0 \<leftarrow> critnib_new mal \<lparr>nodes = Map.empty, leaves = Map.empty\<rparr>;
     (ss, _) \<leftarrow> play mal (\<lambda>s u. None) es0 ([s0], ());
     play mal step es ([hd ss], r0)
   }"

lemma play_call_among:
  assumes "play_call mal es0 step r0 es = Some (ss, r)"
  shows "among mal step r0 ss r"
proof -
  obtain s0 ss0 where 0: "critnib_new mal \<lparr>nodes = Map.empty, leaves = Map.empty\<rparr> = Some s0"
    "play mal (\<lambda>s u. None) es0 ([s0], ()) = Some (ss0, ())" "play mal step es ([hd ss0], r0) = Some (ss, r)"
    using assms by (auto simp: play_call_def bind_eq_Some_conv)
  have "among mal (\<lambda>s u. None) () [s0] ()" by (intro among.call served.new 0(1))
  then have "served mal (hd ss0)" using play_among [OF 0(2)] among_served by fastforce
  then show ?thesis using play_among [OF 0(3) among.call] by blast
qed

subsection \<open>What a descent finds\<close>

inductive dives :: "'l::len word heap \<Rightarrow> u64 \<Rightarrow> ptr \<Rightarrow> ptr \<Rightarrow> bool" for h k where
  null: "dives h k NULL NULL"
| leaf: "is_leaf x \<Longrightarrow> leaves h (to_leaf x) = Some lf \<Longrightarrow> dives h k x (if key lf = k then val lf else NULL)"
| node: "x \<noteq> NULL \<Longrightarrow> \<not> is_leaf x \<Longrightarrow> nodes h x = Some nd \<Longrightarrow> dives h k (child nd ! slice_index k (shift nd)) v \<Longrightarrow>
    dives h k x v"

inductive_cases divesE: "dives h k x v"

lemma dives_null: "dives h k NULL v \<Longrightarrow> v = NULL"
  by (erule divesE) simp_all

lemma dives_leaf:
  "dives h k x v \<Longrightarrow> is_leaf x \<Longrightarrow> \<exists>lf. leaves h (to_leaf x) = Some lf \<and> v = (if key lf = k then val lf else NULL)"
  by (erule divesE) simp_all

lemma dives_node:
  assumes "dives h k x v" "x \<noteq> NULL" "\<not> is_leaf x"
  shows "\<exists>nd. nodes h x = Some nd \<and> dives h k (child nd ! slice_index k (shift nd)) v"
  using assms(1) by (rule divesE) (use assms(2,3) in blast)+

lemma dives_fun: "dives h k x v \<Longrightarrow> dives h k x v' \<Longrightarrow> v' = v"
proof (induction arbitrary: v' rule: dives.induct)
  case null
  then show ?case by (rule dives_null)
next
  case (leaf x lf)
  then show ?case using dives_leaf [of h k x v'] by auto
next
  case (node x nd v)
  then show ?case using dives_node [of h k x v'] by auto
qed

lemma Ent_child:
  assumes w: "wft (Node a p s ts)"
  shows "tmap (Node a p s ts) k = tmap (ts ! idx k s) k"
proof -
  note D = wft_NodeD [OF w]
  have i: "idx k s < 16" by simp
  have "(k, v) \<in> Ent (Node a p s ts) \<longleftrightarrow> (k, v) \<in> Ent (ts ! idx k s)" for v
  proof
    assume "(k, v) \<in> Ent (Node a p s ts)"
    then obtain j where j: "j < 16" "(k, v) \<in> Ent (ts ! j)" using D(1) unfolding Ent_Node_nth by auto
    then have "k \<in> keys (ts ! j)" by (force simp: keys_def)
    then have "idx k s = j" using D(6) [OF j(1)] j(1) by simp
    with j(2) show "(k, v) \<in> Ent (ts ! idx k s)" by simp
  next
    show "(k, v) \<in> Ent (ts ! idx k s) \<Longrightarrow> (k, v) \<in> Ent (Node a p s ts)"
      using D(1) i unfolding Ent_Node_nth by metis
  qed
  then have "tmap (Node a p s ts) k = Some v \<longleftrightarrow> tmap (ts ! idx k s) k = Some v" for v
    using tmap_Some_iff [OF w] tmap_Some_iff [OF D(5) [OF i]] by simp
  then show ?thesis by (metis not_None_eq)
qed

lemma tree_dives: "holds h t \<Longrightarrow> wft t \<Longrightarrow> dives h k (tptr t) (val_of (tmap t k))"
proof (induction t)
  case Null
  then show ?case using dives.null by (simp add: tmap_def val_of_def)
next
  case (Leaf a k' v)
  then have "dives h k (a OR 1) (if k' = k then v else NULL)"
    using dives.leaf [of "a OR 1" h "\<lparr>key = k', val = v\<rparr>" k] by (simp split: if_splits)
  then show ?case by (auto simp: tmap_def val_of_def)
next
  case (Node a p s ts)
  have i: "idx k s < length ts" using wft_NodeD(1) [OF Node.prems(2)] by simp
  then have "dives h k (tptr (ts ! idx k s)) (val_of (tmap (ts ! idx k s) k))"
    using Node wft_in_set [OF Node.prems(2)] by simp
  moreover have "nodes h a = Some \<lparr>child = map tptr ts, path = p, shift = of_nat s\<rparr>" "aligned a" "unat (of_nat s :: 'a word) = s"
    using Node.prems(1) by simp_all
  ultimately have "dives h k a (val_of (tmap (ts ! idx k s) k))"
    using dives.node [of a h "\<lparr>child = map tptr ts, path = p, shift = of_nat s\<rparr>" k] i by (simp add: slice_index_up)
  then show ?case unfolding Ent_child [OF Node.prems(2)] by simp
qed

text \<open>
  A node of the tree: the reader finds the current value if the key has the prefix of the node, and
  NULL otherwise.
\<close>

abbreviation has_prefix :: "u64 \<Rightarrow> 'l::len word critnib_node \<Rightarrow> bool" where
  "has_prefix k nd \<equiv> up (unat (shift nd) + 4) k = up (unat (shift nd) + 4) (path nd)"

lemma node_keys:
  "wft t \<Longrightarrow> holds h t \<Longrightarrow> x \<in> set (naddrs t) \<Longrightarrow>
   \<exists>nd y y'. nodes h x = Some nd \<and> 4 dvd unat (shift nd) \<and> y \<in> keys t \<and> y' \<in> keys t \<and> has_prefix y nd \<and> has_prefix y' nd
     \<and> up (unat (shift nd)) y \<noteq> up (unat (shift nd)) y'"
proof (induction t)
  case (Node a p s ts)
  show ?case
  proof (cases "x = a")
    case True
    obtain y y' where y: "y \<in> keys (Node a p s ts)" "y' \<in> keys (Node a p s ts)" "up s y \<noteq> up s y'"
      using wft_two_keys [OF Node.prems(1)] by blast
    let ?nd = "\<lparr>child = map tptr ts, path = p, shift = of_nat s\<rparr> :: 'a word critnib_node"
    have "nodes h x = Some ?nd" "unat (shift ?nd) = s" using Node.prems(2) True by simp_all
    then show ?thesis
      using y wft_key_prefix(1) [OF Node.prems(1)] wft_NodeD(2) [OF Node.prems(1)]
      by (intro exI [of _ ?nd] exI [of _ y] exI [of _ y']) auto
  next
    case False
    then obtain u where u: "u \<in> set ts" "x \<in> set (naddrs u)" using Node.prems(3) by auto
    then have "wft u" "holds h u" using Node.prems wft_in_set by auto
    from Node.IH [OF u(1) this u(2)] have e: "\<exists>nd y y'. nodes h x = Some nd \<and> 4 dvd unat (shift nd) \<and> y \<in> keys u \<and> y' \<in> keys u
      \<and> has_prefix y nd \<and> has_prefix y' nd \<and> up (unat (shift nd)) y \<noteq> up (unat (shift nd)) y'" .
    have "keys u \<subseteq> keys (Node a p s ts)" using u(1) by auto
    with e show ?thesis by (meson subsetD)
  qed
qed auto

lemma prefix_child:
  assumes w: "wft (Node a p s ts)" and j: "j < 16" and hj: "holds h (ts ! j)" and x: "x \<in> set (naddrs (ts ! j))"
    and nd: "nodes h x = Some nd" "has_prefix k nd"
  shows "idx k s = j"
proof -
  note D = wft_NodeD [OF w]
  let ?e = "unat (shift nd)"
  obtain y y' where y: "4 dvd ?e" "y \<in> keys (ts ! j)" "y' \<in> keys (ts ! j)" "has_prefix y nd" "up ?e y \<noteq> up ?e y'"
    using node_keys [OF D(5) [OF j] hj x] nd(1) by auto
  have "up s y = up s y'" using D(6) [OF j] y(2,3) by simp
  then have "\<not> s \<le> ?e" using up_eq_mono y(5) by blast
  then have "?e + 4 \<le> s" using D(2) y(1) by presburger
  then have "up s k = up s y" using up_eq_mono [of "?e + 4" k y s] nd(2) y(4) by simp
  then show ?thesis using D(6) [OF j y(2)] j by simp
qed

lemma node_value:
  "holds h t \<Longrightarrow> wft t \<Longrightarrow> x \<in> set (naddrs t) \<Longrightarrow> nodes h x = Some nd \<Longrightarrow>
   dives h k x (if has_prefix k nd then val_of (tmap t k) else NULL)"
proof (induction t)
  case (Node a p s ts)
  show ?case
  proof (cases "x = a")
    case True
    have nd: "nd = \<lparr>child = map tptr ts, path = p, shift = of_nat s\<rparr>" "unat (shift nd) = s" using Node.prems(1,4) True by auto
    have "tmap (Node a p s ts) k = None" if "\<not> has_prefix k nd"
      using that wft_key_prefix(1) [OF Node.prems(2), of k] nd dom_tmap by (metis critnib_node.select_convs(2) domIff)
    then show ?thesis using tree_dives [OF Node.prems(1,2), of k] True by (auto simp: val_of_def)
  next
    case False
    then obtain u where "u \<in> set ts" "x \<in> set (naddrs u)" using Node.prems(3) by auto
    then obtain j where j: "j < length ts" "x \<in> set (naddrs (ts ! j))" by (metis in_set_conv_nth)
    then have j': "j < 16" "ts ! j \<in> set ts" "wft (ts ! j)" "holds h (ts ! j)"
      using Node.prems wft_NodeD(1) [OF Node.prems(2)] wft_in_set by auto
    have "tmap (Node a p s ts) k = tmap (ts ! j) k" if "has_prefix k nd"
      using Ent_child [OF Node.prems(2), of k] prefix_child [OF Node.prems(2) j'(1,4) j(2) Node.prems(4) that] by simp
    then show ?thesis using Node.IH [OF j'(2,4,3) j(2) Node.prems(4)] by auto
  qed
qed auto

text \<open>Pointers into the tree, and that the children of a node of the tree are such.\<close>

definition tree_ptrs :: "ctree \<Rightarrow> ptr set" where
  "tree_ptrs t = insert NULL (set (naddrs t) \<union> (\<lambda>a. a OR 1) ` set (laddrs t))"

lemma tptr_tree_ptrs [simp]: "tptr t \<in> tree_ptrs t"
  by (cases t) (auto simp: tree_ptrs_def)

lemma tree_children:
  "holds h t \<Longrightarrow> x \<in> set (naddrs t) \<Longrightarrow> nodes h x = Some nd \<Longrightarrow> set (child nd) \<subseteq> tree_ptrs t"
proof (induction t)
  case (Node a p s ts)
  have sub: "tree_ptrs u \<subseteq> tree_ptrs (Node a p s ts)" if "u \<in> set ts" for u using that by (auto simp: tree_ptrs_def)
  show ?case
  proof (cases "x = a")
    case True
    then have "child nd = map tptr ts" using Node.prems by auto
    then show ?thesis using subsetD [OF sub tptr_tree_ptrs] by auto
  next
    case False
    then show ?thesis using Node sub by auto
  qed
qed auto

subsection \<open>What a reader may hold\<close>

text \<open>
  The removal that begins at the count \<open>j\<close> leaves its blocks in the pending slot \<open>j mod 16\<close>, where
  they stay until the removal that begins at the count \<open>j + 16\<close>.  \<open>reach l s t\<close> are the pointers
  into the tree and to the blocks that were unlinked at the count \<open>l\<close> or later.
\<close>

abbreviation removals :: "'w cstate \<Rightarrow> nat" where "removals s \<equiv> unat (remove_count (snd s))"

definition pend_ptrs :: "critnib \<Rightarrow> nat \<Rightarrow> ptr set" where
  "pend_ptrs c i = {x. x = pending_del_nodes c ! i \<or> (pending_del_leaves c ! i \<noteq> NULL \<and> x = pending_del_leaves c ! i OR 1)}"

definition reach :: "nat \<Rightarrow> 'w cstate \<Rightarrow> ctree \<Rightarrow> ptr set" where
  "reach l s t = tree_ptrs t \<union> (\<Union>j\<in>{j. l \<le> j \<and> j < removals s \<and> removals s \<le> j + 16}. pend_ptrs (snd s) (j mod 16))"

text \<open>The children of a node that was unlinked at the count \<open>j\<close> were not unlinked before it.\<close>

definition aged :: "'l::len word cstate \<Rightarrow> ctree \<Rightarrow> bool" where
  "aged s t \<longleftrightarrow> (\<forall>j nd. j < removals s \<and> removals s \<le> j + 16 \<and> nodes (fst s) (pending_del_nodes (snd s) ! (j mod 16)) = Some nd
     \<longrightarrow> set (child nd) \<subseteq> reach j s t)"

text \<open>A write operation as the readers see it.\<close>

definition wstep :: "'l::len word cstate \<Rightarrow> ctree \<Rightarrow> 'l word cstate \<Rightarrow> ctree \<Rightarrow> bool" where
  "wstep s t s' t' \<longleftrightarrow> crel s t \<and> crel s' t' \<and> (\<exists>D x. evolves s t D x s' t' \<and>
     (D = {} \<and> removals s' = removals s \<or> D = {removals s mod 16} \<and> removals s' = Suc (removals s) \<and> tmap t' x = None))"

lemma crelD:
  assumes "crel s t"
  shows "holds (fst s) t" "wft t" "heap_ok (fst s)" "root (snd s) = tptr t" "\<not> mutex (snd s)"
  using assms cinvD(1,2) [of "fst s" "snd s" t] unfolding crel_def by auto

lemma reach_antimono: "l \<le> j \<Longrightarrow> reach j s t \<subseteq> reach l s t"
  by (auto simp: reach_def intro: order_trans)

lemma reach_cases:
  assumes "x \<in> reach l s t" "crel s t"
  obtains (null) "x = NULL"
  | (tree_node) "x \<in> set (naddrs t)" "aligned x"
  | (tree_leaf) a where "a \<in> set (laddrs t)" "x = a OR 1" "aligned a"
  | (node) j where "l \<le> j" "j < removals s" "removals s \<le> j + 16" "x = pending_del_nodes (snd s) ! (j mod 16)" "aligned x"
  | (leaf) j a where "l \<le> j" "j < removals s" "removals s \<le> j + 16" "a = pending_del_leaves (snd s) ! (j mod 16)" "x = a OR 1" "aligned a"
proof -
  obtain dn dl where inv: "cinv (fst s, snd s) t dn dl {#} {#}" using assms(2) unfolding crel_def by auto
  have n: "a \<in> set (naddrs t) \<union> pnodes (snd s) {} \<Longrightarrow> a \<noteq> 0 \<Longrightarrow> aligned a" for a
    using cinv_apart(4) [OF inv, of a "{}"] cinvD(1) [OF inv] by (auto simp: heap_ok_def)
  have l: "a \<in> set (laddrs t) \<union> pleaves (snd s) {} \<Longrightarrow> a \<noteq> 0 \<Longrightarrow> aligned a" for a
    using cinv_apart(5) [OF inv, of a "{}"] cinvD(1) [OF inv] by (auto simp: heap_ok_def)
  have tl: "a \<in> set (laddrs t) \<Longrightarrow> aligned a" for a
    using laddrs_alloc [OF cinvD(2) [OF inv]] cinvD(1) [OF inv] by (auto simp: heap_ok_def)
  have p: "pending_del_nodes (snd s) ! (j mod 16) \<in> pnodes (snd s) {}" "pending_del_leaves (snd s) ! (j mod 16) \<in> pleaves (snd s) {}" for j
    unfolding pnodes_def pleaves_def using mod_less_divisor [of 16 j] by auto
  consider "x \<in> tree_ptrs t" | j where "l \<le> j" "j < removals s" "removals s \<le> j + 16" "x \<in> pend_ptrs (snd s) (j mod 16)"
    using assms(1) unfolding reach_def by blast
  then show thesis
  proof cases
    case 1
    then show thesis using n [of x] tl that(1-3) unfolding tree_ptrs_def by blast
  next
    case (2 j)
    then show thesis using n [of x] l p [of j] that(1,4,5) unfolding pend_ptrs_def by blast
  qed
qed

lemma slot_apart:
  assumes "j < n" "n < j + 16"
  shows "j mod 16 \<noteq> (n::nat) mod 16"
proof
  assume "j mod 16 = n mod 16"
  then have "16 dvd n - j" using assms(1) by (metis less_imp_le mod_eq_dvd_iff_nat)
  then have "16 \<le> n - j" using assms(1) by (intro dvd_imp_le) simp_all
  with assms show False by simp
qed

lemma wstep_slots:
  assumes w: "wstep s t s' t'" and j: "j < removals s" "removals s' \<le> j + 16"
  shows "pending_del_nodes (snd s') ! (j mod 16) = pending_del_nodes (snd s) ! (j mod 16)"
    "pending_del_leaves (snd s') ! (j mod 16) = pending_del_leaves (snd s) ! (j mod 16)"
    "nodes (fst s') (pending_del_nodes (snd s) ! (j mod 16)) = nodes (fst s) (pending_del_nodes (snd s) ! (j mod 16))"
    "leaves (fst s') (pending_del_leaves (snd s) ! (j mod 16)) = leaves (fst s) (pending_del_leaves (snd s) ! (j mod 16))"
proof -
  obtain D x where D: "evolves s t D x s' t'" "D = {} \<and> removals s' = removals s \<or> D = {removals s mod 16} \<and> removals s' = Suc (removals s)"
    using w unfolding wstep_def by blast
  have "j mod 16 \<noteq> removals s mod 16" if "removals s' = Suc (removals s)" using slot_apart [OF j(1)] j(2) that by simp
  then have d: "j mod 16 \<notin> D" "j mod 16 < 16" using D(2) by auto
  have q: "quiet D s t (set (naddrs t')) s'" using D(1) unfolding evolves_def by blast
  then show "pending_del_nodes (snd s') ! (j mod 16) = pending_del_nodes (snd s) ! (j mod 16)"
    "pending_del_leaves (snd s') ! (j mod 16) = pending_del_leaves (snd s) ! (j mod 16)"
    using d unfolding quiet_def by blast+
  have "pending_del_nodes (snd s) ! (j mod 16) \<in> pnodes (snd s) D" "pending_del_leaves (snd s) ! (j mod 16) \<in> pleaves (snd s) D"
    using d unfolding pnodes_def pleaves_def by blast+
  then show "nodes (fst s') (pending_del_nodes (snd s) ! (j mod 16)) = nodes (fst s) (pending_del_nodes (snd s) ! (j mod 16))"
    "leaves (fst s') (pending_del_leaves (snd s) ! (j mod 16)) = leaves (fst s) (pending_del_leaves (snd s) ! (j mod 16))"
    using q unfolding quiet_def keeps_def by blast+
qed

lemma wstep_count: "wstep s t s' t' \<Longrightarrow> removals s \<le> removals s' \<and> removals s' \<le> Suc (removals s)"
  unfolding wstep_def by auto

lemma wstep_tree:
  assumes "wstep s t s' t'"
  shows "a \<in> set (naddrs t) \<Longrightarrow> a \<in> set (naddrs t') \<or> removals s' = Suc (removals s) \<and> a = pending_del_nodes (snd s') ! (removals s mod 16)"
    "a \<in> set (laddrs t) \<Longrightarrow> a \<in> set (laddrs t') \<or> removals s' = Suc (removals s) \<and> a = pending_del_leaves (snd s') ! (removals s mod 16)"
  using assms unfolding wstep_def evolves_def by blast+

lemma reach_wstep:
  assumes w: "wstep s t s' t'" and x: "x \<in> reach l s t" and l: "l \<le> removals s" "removals s' \<le> l + 16"
  shows "x \<in> reach l s' t'"
proof -
  have c: "crel s t" using w unfolding wstep_def by blast
  note C = wstep_count [OF w]
  have old: "x \<in> reach l s' t'" if "l \<le> j" "j < removals s" "x \<in> pend_ptrs (snd s) (j mod 16)" for j
  proof -
    have "removals s' \<le> j + 16" "j < removals s'" using that C l by linarith+
    with wstep_slots [OF w that(2)] that show ?thesis unfolding reach_def pend_ptrs_def by auto
  qed
  have new: "x \<in> reach l s' t'" if "removals s' = Suc (removals s)" "x \<in> pend_ptrs (snd s') (removals s mod 16)"
    using that l unfolding reach_def by auto
  from x c show ?thesis
  proof (cases rule: reach_cases)
    case null
    then show ?thesis by (simp add: reach_def tree_ptrs_def)
  next
    case tree_node
    then show ?thesis using wstep_tree(1) [OF w, of x] new unfolding reach_def tree_ptrs_def pend_ptrs_def by blast
  next
    case (tree_leaf a)
    then have "a \<noteq> NULL" by simp
    then show ?thesis using tree_leaf wstep_tree(2) [OF w, of a] new unfolding reach_def tree_ptrs_def pend_ptrs_def by blast
  next
    case (node j)
    then show ?thesis using old [of j] unfolding pend_ptrs_def by blast
  next
    case (leaf j a)
    then have "a \<noteq> NULL" by simp
    then show ?thesis using leaf old [of j] unfolding pend_ptrs_def by blast
  qed
qed

text \<open>What a write keeps of the blocks in reach.\<close>

lemma child_upd_inj: "nd\<lparr>child := cs\<rparr> = nd\<lparr>child := cs'\<rparr> \<Longrightarrow> cs = cs'"
  by (metis critnib_node.select_convs(1) critnib_node.surjective critnib_node.update_convs(1))

lemma not_aligned_tag [simp]: "\<not> aligned (a OR 1)"
  by (simp add: aligned_def)

lemma tag_to_leaf: "is_leaf x \<Longrightarrow> to_leaf x OR 1 = x"
  unfolding to_leaf_def is_leaf_odd by (intro bit_eqI) (auto simp: bit_simps bit_0 odd_iff_mod_2_eq_one)

lemma wstep_cut:
  assumes w: "wstep s t s' t'" and x: "x \<in> set (naddrs t)" "x \<notin> set (naddrs t')"
  shows "\<exists>y nd j a v. tmap t' y = None \<and> nodes (fst s) x = Some nd \<and> j < 16 \<and> child nd ! j = a OR 1 \<and> aligned a
    \<and> leaves (fst s) a = Some \<lparr>key = y, val = v\<rparr> \<and> nodes (fst s') x = Some (nd\<lparr>child := (child nd)[j := NULL]\<rparr>)"
proof -
  have c: "crel s t" and rm: "removals s' = Suc (removals s)" "x = pending_del_nodes (snd s') ! (removals s mod 16)"
    using w wstep_tree(1) [OF w x(1)] x(2) unfolding wstep_def by blast+
  then obtain y where "evolves s t {removals s mod 16} y s' t'" "tmap t' y = None" using w unfolding wstep_def by auto
  moreover have "x \<noteq> NULL" using crelD(1,3) [OF c] naddrs_alloc x(1) no_block_at_NULL by fastforce
  ultimately have "cuts y (fst s) t (fst s') x" using rm(2) unfolding evolves_def by blast
  then obtain nd j a v where cut: "nodes (fst s) x = Some nd" "j < 16" "child nd ! j = a OR 1" "a \<in> set (laddrs t)"
    "leaves (fst s) a = Some \<lparr>key = y, val = v\<rparr>" "nodes (fst s') x = Some (nd\<lparr>child := (child nd)[j := NULL]\<rparr>)"
    unfolding cuts_def by blast
  moreover have "aligned a" using cut(5) crelD(3) [OF c] by (simp add: heap_ok_def)
  ultimately show ?thesis using \<open>tmap t' y = None\<close> by blast
qed

lemma wstep_node:
  assumes w: "wstep s t s' t'" and x: "x \<in> reach l s t" "nodes (fst s) x = Some nd" and l: "removals s' \<le> l + 16"
  shows "\<exists>cs. nodes (fst s') x = Some (nd\<lparr>child := cs\<rparr>)"
proof -
  have c: "crel s t" using w unfolding wstep_def by blast
  then have al: "aligned x" using x(2) crelD(3) [OF c] by (auto simp: heap_ok_def)
  from x(1) c show ?thesis
  proof (cases rule: reach_cases)
    case tree_node
    then show ?thesis using w x(2) unfolding wstep_def evolves_def quiet_def keeps_def by blast
  next
    case (node j)
    then have "nodes (fst s') x = Some nd" using wstep_slots(3) [OF w, of j] l x(2) by simp
    then show ?thesis by (intro exI [of _ "child nd"]) simp
  qed (use al in auto)
qed

lemma wstep_leaf:
  assumes w: "wstep s t s' t'" and x: "x \<in> reach l s t" "is_leaf x" and l: "removals s' \<le> l + 16"
  shows "leaves (fst s') (to_leaf x) = leaves (fst s) (to_leaf x)"
proof -
  have c: "crel s t" using w unfolding wstep_def by blast
  from x(1) c show ?thesis
  proof (cases rule: reach_cases)
    case (tree_leaf a)
    then have "to_leaf x = a" by simp
    then show ?thesis using w tree_leaf(1) unfolding wstep_def evolves_def quiet_def keeps_def by blast
  next
    case (leaf j a)
    then have "to_leaf x = a" by simp
    then show ?thesis using wstep_slots(4) [OF w, of j] leaf l by simp
  qed (use x(2) in auto)
qed

lemma child_in_reach:
  assumes c: "crel s t" and ag: "aged s t" and x: "x \<in> reach l s t" "nodes (fst s) x = Some nd"
  shows "child nd ! slice_index k (shift nd) \<in> reach l s t"
proof -
  have "length (child nd) = 16" "aligned x" using crelD(3) [OF c] x(2) by (auto simp: heap_ok_def)
  then have m: "child nd ! slice_index k (shift nd) \<in> set (child nd)" by simp
  from x(1) c show ?thesis
  proof (cases rule: reach_cases)
    case tree_node
    then show ?thesis using m tree_children [OF crelD(1) [OF c] _ x(2)] by (auto simp: reach_def)
  next
    case (node j)
    then have "set (child nd) \<subseteq> reach j s t" using ag x(2) unfolding aged_def by blast
    then show ?thesis using m reach_antimono [OF node(1), of s t] by blast
  qed (use \<open>aligned x\<close> in auto)
qed

lemma aged_wstep:
  assumes w: "wstep s t s' t'" and ag: "aged s t"
  shows "aged s' t'"
  unfolding aged_def
proof (intro allI impI, elim conjE)
  fix j nd
  assume j: "j < removals s'" "removals s' \<le> j + 16" and nd: "nodes (fst s') (pending_del_nodes (snd s') ! (j mod 16)) = Some nd"
  note C = wstep_count [OF w]
  have c: "crel s t" "crel s' t'" using w unfolding wstep_def by blast+
  show "set (child nd) \<subseteq> reach j s' t'"
  proof (cases "j < removals s")
    case True
    then have "nodes (fst s) (pending_del_nodes (snd s) ! (j mod 16)) = Some nd"
      using wstep_slots [OF w True j(2)] nd by simp
    then have "set (child nd) \<subseteq> reach j s t" using ag True j(2) C unfolding aged_def by auto
    then show ?thesis using reach_wstep [OF w, of _ j] True j(2) by auto
  next
    case False
    then have n: "j = removals s" "removals s' = Suc (removals s)" using j(1) C by auto
    then obtain y where ev: "evolves s t {removals s mod 16} y s' t'" using w unfolding wstep_def by auto
    let ?x = "pending_del_nodes (snd s') ! (j mod 16)"
    have "?x \<noteq> NULL" using nd no_block_at_NULL(1) [OF crelD(3) [OF c(2)]] by auto
    then have "cuts y (fst s) t (fst s') ?x" using ev n(1) unfolding evolves_def by blast
    then obtain nd0 i where cut: "?x \<in> set (naddrs t)" "nodes (fst s) ?x = Some nd0" "nd = nd0\<lparr>child := (child nd0)[i := NULL]\<rparr>"
      using nd unfolding cuts_def by auto
    have "set (child nd) \<subseteq> insert NULL (set (child nd0))" using cut(3) set_update_subset_insert by simp
    also have "\<dots> \<subseteq> tree_ptrs t" using tree_children [OF crelD(1) [OF c(1)] cut(1,2)] by (simp add: tree_ptrs_def)
    also have "\<dots> \<subseteq> reach j s t" by (simp add: reach_def)
    finally show ?thesis using reach_wstep [OF w, of _ j] n by auto
  qed
qed

text \<open>
  The step lemma: what the reader would find below a pointer stays the same, or becomes the value
  that is current after the write.
\<close>

lemma dives_wstep:
  assumes w: "wstep s t s' t'" and ag: "aged s t" and l: "removals s' \<le> l + 16"
  shows "dives (fst s) k x v \<Longrightarrow> x \<in> reach l s t \<Longrightarrow> \<exists>v'. dives (fst s') k x v' \<and> (v' = v \<or> v' = val_of (tmap t' k))"
proof (induction rule: dives.induct)
  case null
  then show ?case using dives.null by blast
next
  case (leaf x lf)
  then show ?case using wstep_leaf [OF w leaf(3,1) l] dives.leaf [of x "fst s'" lf k] by auto
next
  case (node x nd v)
  have c: "crel s t" "crel s' t'" using w unfolding wstep_def by blast+
  let ?y = "child nd ! slice_index k (shift nd)"
  obtain v1 where v1: "dives (fst s') k ?y v1" "v1 = v \<or> v1 = val_of (tmap t' k)"
    using node.IH child_in_reach [OF c(1) ag node(6,3)] by blast
  obtain cs where cs: "nodes (fst s') x = Some (nd\<lparr>child := cs\<rparr>)" using wstep_node [OF w node(6,3) l] by blast
  have down: ?case if "cs ! slice_index k (shift nd) = ?y"
    using dives.node [OF node(1,2) cs, of k v1] v1 that by auto
  from node(6) c(1) show ?case
  proof (cases rule: reach_cases)
    case tree_node
    note old = node_value [OF crelD(1,2) [OF c(1)] tree_node(1) node(3), of k]
    show ?thesis
    proof (cases "x \<in> set (naddrs t')")
      case True
      have "v = (if has_prefix k nd then val_of (tmap t k) else NULL)"
        using dives_fun [OF old dives.node [OF node(1-4)]] .
      with node_value [OF crelD(1,2) [OF c(2)] True cs, of k] show ?thesis by (cases "has_prefix k nd") auto
    next
      case False
      obtain y j a u where cut: "tmap t' y = None" "j < 16" "child nd ! j = a OR 1" "aligned a"
        "leaves (fst s) a = Some \<lparr>key = y, val = u\<rparr>" "cs = (child nd)[j := NULL]"
        using wstep_cut [OF w tree_node(1) False] node(3) cs by (auto dest!: child_upd_inj)
      show ?thesis
      proof (cases "slice_index k (shift nd) = j")
        case True
        have "length (child nd) = 16" using crelD(3) [OF c(1)] node(3) by (auto simp: heap_ok_def)
        then have "dives (fst s') k x NULL" using dives.node [OF node(1,2) cs, of k NULL] True cut(2,6) dives.null [of "fst s'" k] by simp
        moreover have "v = (if y = k then u else NULL)"
          using dives_leaf [OF node(4)] True cut(3,4,5) by auto
        then have "NULL = v \<or> NULL = val_of (tmap t' k)" using cut(1) by (auto simp: val_of_def)
        ultimately show ?thesis by blast
      next
        case False
        then show ?thesis using down cut(6) by simp
      qed
    qed
  next
    case (node j)
    then have "nodes (fst s') x = Some nd" using wstep_slots(3) [OF w, of j] l \<open>nodes (fst s) x = Some nd\<close> by simp
    then have "cs = child nd" using cs by (metis child_upd_inj option.inject critnib_node.surjective critnib_node.update_convs(1))
    then show ?thesis using down by simp
  qed (use node(1,2) in auto)
qed

end
