(* ===== verification/Critnib_Concurrent.thy ===== *)
theory Critnib_Concurrent
  imports Critnib_Reader Critnib_Properties
begin

text \<open>
  The claims of the comment at \<open>DELETED_LIFE\<close> in \<open>src/critnib.c\<close> for \<open>critnib_get\<close>: a reader
  never leaves the allocated blocks, however stale its pointers are, and what it returns is a value
  that was current at some point between the start and the end of the call.

  \<open>sound\<close> holds of every state that the operations lead to; \<open>reader_ok\<close> is the invariant of the
  reader, kept by its own steps and by those of the writers.
\<close>

subsection \<open>The writers\<close>

lemma incr_no_wrap: "unat (x::u64) + 17 < 2 ^ 64 \<Longrightarrow> unat (x + 1) = Suc (unat x)"
  by (simp add: unat_word_ariths)

lemma insert_wstep:
  fixes s :: "'l::len word cstate"
  assumes "6 \<le> LENGTH('l)" "malloc_ok mal" "crel s t" "critnib_insert mal x y s = Some (e, s')"
  shows "\<exists>t'. wstep s t s' t' \<and> removals s' = removals s"
proof -
  have "insert_step mal x y s t e s'" using critnib_insert_step [OF assms(1-3), of x y] assms(4) by auto
  then show ?thesis using assms(3) unfolding insert_step_def wstep_def by metis
qed

lemma remove_wstep:
  assumes "crel s t" "critnib_remove x s = Some (y, s')" "removals s + 17 < 2 ^ 64"
  shows "\<exists>t'. wstep s t s' t' \<and> removals s' \<le> Suc (removals s)"
proof -
  have r: "remove_step x s t s'" using critnib_remove_step [OF assms(1), of x] assms(2) by auto
  have m: "unat (remove_count (snd s) mod DELETED_LIFE) = removals s mod 16" by (simp add: DELETED_LIFE_def unat_mod)
  show ?thesis
  proof (cases "t = Null")
    case True
    then show ?thesis using r assms(1) unfolding remove_step_def removed_def wstep_def by auto
  next
    case False
    then obtain t' where t': "crel s' t'" "tmap t' = (tmap t)(x := None)" "evolves s t {removals s mod 16} x s' t'"
      "removals s' = Suc (removals s)"
      using r incr_no_wrap [OF assms(3)] unfolding remove_step_def removed_def m by auto
    then have "tmap t' x = None" by simp
    then have "wstep s t s' t'" using t' assms(1) unfolding wstep_def by blast
    then show ?thesis using t'(4) by auto
  qed
qed

text \<open>Every pointer in a node leads to an allocated block, in whatever state the node is.\<close>

definition valid :: "'w heap \<Rightarrow> ptr \<Rightarrow> bool" where
  "valid h x \<longleftrightarrow> x = NULL \<or> x \<in> dom (nodes h) \<or> is_leaf x \<and> to_leaf x \<in> dom (leaves h)"

definition closed :: "'w heap \<Rightarrow> bool" where
  "closed h \<longleftrightarrow> (\<forall>a nd. nodes h a = Some nd \<longrightarrow> (\<forall>x\<in>set (child nd). valid h x))"

lemma valid_extends: "extends h h' T \<Longrightarrow> valid h x \<Longrightarrow> valid h' x"
  unfolding extends_def valid_def by blast

lemma tree_valid:
  assumes "holds h t" "x \<in> tree_ptrs t" "heap_ok h"
  shows "valid h x"
proof -
  have "to_leaf (a OR 1) \<in> dom (leaves h)" if "a \<in> set (laddrs t)" for a
    using laddrs_alloc [OF assms(1)] that assms(3) by (auto simp: heap_ok_def)
  then show ?thesis using assms(2) naddrs_alloc [OF assms(1)] unfolding tree_ptrs_def valid_def by auto
qed

lemma wstep_extends: "wstep s t s' t' \<Longrightarrow> extends (fst s) (fst s') (set (naddrs t'))"
  unfolding wstep_def evolves_def quiet_def by blast

lemma closed_wstep:
  assumes w: "wstep s t s' t'" and c: "closed (fst s)"
  shows "closed (fst s')"
  unfolding closed_def
proof (intro allI impI ballI)
  fix a nd x
  assume nd: "nodes (fst s') a = Some nd" and x: "x \<in> set (child nd)"
  have c': "crel s' t'" using w unfolding wstep_def by blast
  show "valid (fst s') x"
  proof (cases "a \<in> set (naddrs t')")
    case True
    then show ?thesis
      using tree_valid [OF crelD(1) [OF c'] _ crelD(3) [OF c']] tree_children [OF crelD(1) [OF c'] True nd] x by blast
  next
    case False
    then obtain nd0 where "nodes (fst s) a = Some nd0" "set (child nd) \<subseteq> set (child nd0) \<union> insert NULL (dom (nodes (fst s')))"
      using wstep_extends [OF w] nd unfolding extends_def by blast
    then have "valid (fst s) x \<or> x \<in> insert NULL (dom (nodes (fst s')))" using x c unfolding closed_def by blast
    then show ?thesis using valid_extends [OF wstep_extends [OF w]] unfolding valid_def by blast
  qed
qed

text \<open>What holds of every structure that its operations have built.\<close>

definition sound :: "'l::len word cstate \<Rightarrow> ctree \<Rightarrow> bool" where
  "sound s t \<longleftrightarrow> crel s t \<and> aged s t \<and> closed (fst s) \<and> removals s + 16 < 2 ^ 64"

lemma sound_wstep: "sound s t \<Longrightarrow> wstep s t s' t' \<Longrightarrow> removals s' + 16 < 2 ^ 64 \<Longrightarrow> sound s' t'"
  using aged_wstep closed_wstep unfolding sound_def wstep_def by blast

lemma new_sound:
  assumes "critnib_new mal \<lparr>nodes = Map.empty, leaves = Map.empty\<rparr> = Some s"
  shows "sound s Null"
proof -
  have s: "s = (\<lparr>nodes = Map.empty, leaves = Map.empty\<rparr>, \<lparr>root = NULL, deleted_node = NULL, deleted_leaf = NULL,
      pending_del_nodes = replicate 16 NULL, pending_del_leaves = replicate 16 NULL, remove_count = 0, mutex = False\<rparr>)"
    using assms by (simp add: critnib_new_def split: if_splits)
  have "cinv s Null [] [] {#} {#}" unfolding s by (rule cinvI) (simp_all add: heap_ok_def live_def)
  then have "crel s Null" unfolding crel_def s by auto
  then show ?thesis by (simp add: sound_def aged_def closed_def s)
qed

lemma insert_sound:
  fixes s :: "'l::len word cstate"
  assumes "6 \<le> LENGTH('l)" "malloc_ok mal" "sound s t" "critnib_insert mal x y s = Some (e, s')"
  shows "\<exists>t'. wstep s t s' t' \<and> sound s' t'"
proof -
  have "crel s t" using assms(3) unfolding sound_def by blast
  from insert_wstep [OF assms(1,2) this assms(4)] obtain t' where "wstep s t s' t'" "removals s' = removals s" by blast
  then show ?thesis using sound_wstep [OF assms(3), of s' t'] assms(3) unfolding sound_def by auto
qed

lemma remove_sound:
  assumes "sound s t" "critnib_remove x s = Some (y, s')" "removals s + 17 < 2 ^ 64"
  shows "\<exists>t'. wstep s t s' t' \<and> sound s' t'"
proof -
  have "crel s t" using assms(1) unfolding sound_def by blast
  from remove_wstep [OF this assms(2,3)] obtain t' where "wstep s t s' t'" "removals s' \<le> Suc (removals s)" by blast
  then show ?thesis using sound_wstep [OF assms(1), of s' t'] assms(3) by auto
qed

lemma served_sound:
  fixes s :: "'l::len word cstate"
  assumes "6 \<le> LENGTH('l)" "malloc_ok mal"
  shows "served mal s \<Longrightarrow> \<exists>t. sound s t"
proof (induction rule: served.induct)
  case (new s)
  then show ?case using new_sound by blast
next
  case (insert s x y e s')
  then show ?case using insert_sound [OF assms] by blast
next
  case (remove s x y s')
  then show ?case using remove_sound by blast
qed

subsection \<open>The reader's invariant\<close>

text \<open>
  A value is current in a state if a call of \<open>critnib_get\<close> that is not interrupted returns it there.
\<close>

definition current :: "u64 \<Rightarrow> 'l::len word cstate list \<Rightarrow> ptr \<Rightarrow> bool" where
  "current k ss v \<longleftrightarrow> (\<exists>s\<in>set ss. critnib_get k s = Some v)"

lemma current_Cons: "current k ss v \<Longrightarrow> current k (s # ss) v"
  by (auto simp: current_def)

lemma sound_get: "sound s t \<Longrightarrow> critnib_get k s = Some (val_of (tmap t k))"
  using critnib_get_rel [of "fst s" "snd s" "tmap t" k] critnib_rel_crel [of s "tmap t"] unfolding sound_def by auto

lemma current_head: "sound s t \<Longrightarrow> current k (s # ss) (val_of (tmap t k))"
  by (simp add: current_def sound_get)

definition on_track :: "u64 \<Rightarrow> 'l::len word cstate list \<Rightarrow> 'l word cstate \<Rightarrow> ctree \<Rightarrow> u64 \<Rightarrow> ptr \<Rightarrow> bool" where
  "on_track k ss s t wrs1 n \<longleftrightarrow>
     (removals s < unat wrs1 + 16 \<longrightarrow> n \<in> reach (unat wrs1) s t \<and> (\<exists>v. dives (fst s) k n v \<and> current k ss v))"

fun reader_ok :: "u64 \<Rightarrow> 'l::len word cstate list \<Rightarrow> 'l word cstate \<Rightarrow> ctree \<Rightarrow> reader \<Rightarrow> bool" where
  "reader_ok k ss s t RStart = True"
| "reader_ok k ss s t (RRoot w) \<longleftrightarrow> unat w \<le> removals s"
| "reader_ok k ss s t (RWalk w n) \<longleftrightarrow> unat w \<le> removals s \<and> valid (fst s) n \<and> on_track k ss s t w n"
| "reader_ok k ss s t (RSlot w n i) \<longleftrightarrow> unat w \<le> removals s \<and> n \<in> dom (nodes (fst s)) \<and> i < 16 \<and> on_track k ss s t w n
     \<and> (removals s < unat w + 16 \<longrightarrow> (\<exists>nd. nodes (fst s) n = Some nd \<and> i = slice_index k (shift nd)))"
| "reader_ok k ss s t (RValue w a) \<longleftrightarrow> unat w \<le> removals s \<and> a \<in> dom (leaves (fst s))
     \<and> (removals s < unat w + 16 \<longrightarrow> a OR 1 \<in> reach (unat w) s t \<and> (\<exists>lf. leaves (fst s) a = Some lf \<and> current k ss (val lf)))"
| "reader_ok k ss s t (RCheck w res) \<longleftrightarrow> unat w \<le> removals s \<and> (removals s < unat w + 16 \<longrightarrow> current k ss res)"
| "reader_ok k ss s t (RReturn res) \<longleftrightarrow> current k ss res"

lemma on_track_wstep:
  assumes "wstep s t s' t'" "sound s t" "sound s' t'" "unat w \<le> removals s" "on_track k ss s t w n"
  shows "on_track k (s' # ss) s' t' w n"
  unfolding on_track_def
proof
  assume l: "removals s' < unat w + 16"
  have ag: "aged s t" using assms(2) unfolding sound_def by blast
  have "removals s < unat w + 16" using l wstep_count [OF assms(1)] by simp
  then obtain v where n: "n \<in> reach (unat w) s t" "dives (fst s) k n v" "current k ss v"
    using assms(5) unfolding on_track_def by blast
  moreover have l': "removals s' \<le> unat w + 16" using l by simp
  moreover obtain v' where "dives (fst s') k n v'" "v' = v \<or> v' = val_of (tmap t' k)"
    using dives_wstep [OF assms(1) ag l' n(2,1)] by blast
  ultimately show "n \<in> reach (unat w) s' t' \<and> (\<exists>v. dives (fst s') k n v \<and> current k (s' # ss) v)"
    using reach_wstep [OF assms(1) n(1) assms(4)] current_head [OF assms(3)] current_Cons [OF n(3)] by blast
qed

lemma reader_ok_wstep:
  assumes w: "wstep s t s' t'" and so: "sound s t" "sound s' t'" and r: "reader_ok k ss s t r"
  shows "reader_ok k (s' # ss) s' t' r"
proof -
  note C = wstep_count [OF w] and E = wstep_extends [OF w]
  have d: "dom (nodes (fst s)) \<subseteq> dom (nodes (fst s'))" "dom (leaves (fst s)) \<subseteq> dom (leaves (fst s'))"
    using E unfolding extends_def by blast+
  show ?thesis
  proof (cases r)
    case (RWalk wrs1 n)
    then show ?thesis using r C valid_extends [OF E] on_track_wstep [OF w so] by auto
  next
    case (RSlot wrs1 n i)
    then have i: "unat wrs1 \<le> removals s" "n \<in> dom (nodes (fst s))" "i < 16" "on_track k ss s t wrs1 n"
      "removals s < unat wrs1 + 16 \<longrightarrow> (\<exists>nd. nodes (fst s) n = Some nd \<and> i = slice_index k (shift nd))" using r by simp_all
    have "\<exists>nd. nodes (fst s') n = Some nd \<and> i = slice_index k (shift nd)" if l: "removals s' < unat wrs1 + 16"
    proof -
      have "removals s < unat wrs1 + 16" using l C by simp
      then obtain nd where nd: "nodes (fst s) n = Some nd" "i = slice_index k (shift nd)" and n: "n \<in> reach (unat wrs1) s t"
        using i(4,5) unfolding on_track_def by blast
      from wstep_node [OF w n nd(1)] l nd(2) show ?thesis by auto
    qed
    then show ?thesis using RSlot i C d(1) on_track_wstep [OF w so i(1,4)] by auto
  next
    case (RValue wrs1 a)
    then have i: "unat wrs1 \<le> removals s" "a \<in> dom (leaves (fst s))" "removals s < unat wrs1 + 16 \<longrightarrow>
      a OR 1 \<in> reach (unat wrs1) s t \<and> (\<exists>lf. leaves (fst s) a = Some lf \<and> current k ss (val lf))" using r by simp_all
    have "a OR 1 \<in> reach (unat wrs1) s' t' \<and> (\<exists>lf. leaves (fst s') a = Some lf \<and> current k (s' # ss) (val lf))"
      if l: "removals s' < unat wrs1 + 16"
    proof -
      have l': "removals s' \<le> unat wrs1 + 16" using l by simp
      have "removals s < unat wrs1 + 16" using l C by simp
      then obtain lf where lf: "leaves (fst s) a = Some lf" "current k ss (val lf)" and n: "a OR 1 \<in> reach (unat wrs1) s t"
        using i(3) by blast
      have "heap_ok (fst s)" using so(1) crelD(3) unfolding sound_def by blast
      then have "to_leaf (a OR 1) = a" using lf(1) by (simp add: heap_ok_def)
      with wstep_leaf [OF w n _ l'] lf(1) have "leaves (fst s') a = Some lf" by simp
      then show ?thesis using reach_wstep [OF w n i(1) l'] current_Cons [OF lf(2)] by blast
    qed
    then show ?thesis using RValue i C d(2) by auto
  qed (use r C current_Cons [of k ss _ s'] in auto)
qed

text \<open>The steps of the reader itself.\<close>

lemma on_track_root: "sound s t \<Longrightarrow> s \<in> set ss \<Longrightarrow> on_track k ss s t w (root (snd s))"
proof -
  assume so: "sound s t" and m: "s \<in> set ss"
  have c: "crel s t" using so unfolding sound_def by blast
  have "tptr t \<in> reach (unat w) s t" by (simp add: reach_def)
  moreover have "current k ss (val_of (tmap t k))" using m sound_get [OF so] unfolding current_def by blast
  ultimately show "on_track k ss s t w (root (snd s))"
    unfolding on_track_def crelD(4) [OF c] using tree_dives [OF crelD(1,2) [OF c]] by blast
qed

lemma root_valid: "sound s t \<Longrightarrow> valid (fst s) (root (snd s))"
proof -
  assume "sound s t"
  then have c: "crel s t" unfolding sound_def by blast
  show ?thesis unfolding crelD(4) [OF c] using tree_valid [OF crelD(1) [OF c] _ crelD(3) [OF c]] by simp
qed

lemma stale_iff:
  fixes w x :: u64
  assumes "unat w \<le> unat x" "unat x + 16 < 2 ^ 64"
  shows "w + DELETED_LIFE \<le> x \<longleftrightarrow> unat w + 16 \<le> unat x"
proof -
  have "unat (w + 16) = unat w + 16" using assms by (simp add: unat_word_ariths)
  then show ?thesis by (simp add: DELETED_LIFE_def word_le_nat_alt)
qed

lemma reader_ok_walk:
  assumes so: "sound s t" and r: "reader_ok k ss s t (RWalk w n)" and s: "s = (h, c)"
  shows "\<exists>r'. reader_step k s (RWalk w n) = Some r' \<and> reader_ok k ss s t r'"
proof -
  have i: "unat w \<le> removals s" "valid h n" "on_track k ss s t w n" using r s by simp_all
  have ok: "heap_ok h" using so crelD(3) s unfolding sound_def by fastforce
  have track: "\<exists>v. n \<in> reach (unat w) s t \<and> dives h k n v \<and> current k ss v" if "removals s < unat w + 16"
    using i(3) that s unfolding on_track_def by auto
  consider (null) "n = NULL" | (leaf) lf where "n \<noteq> NULL" "is_leaf n" "leaves h (to_leaf n) = Some lf"
    | (node) nd where "n \<noteq> NULL" "\<not> is_leaf n" "nodes h n = Some nd"
    using i(2) ok unfolding valid_def heap_ok_def by (metis aligned_simps(2) domD)
  then show ?thesis
  proof cases
    case null
    then have "removals s < unat w + 16 \<longrightarrow> current k ss NULL" using track dives_null by blast
    then show ?thesis using null i(1) s by simp
  next
    case (leaf lf)
    have v: "current k ss (if key lf = k then val lf else NULL)" if l: "removals s < unat w + 16"
    proof -
      obtain v where "dives h k n v" "current k ss v" using track [OF l] by blast
      then show ?thesis using dives_leaf [of h k n v] leaf(2,3) by auto
    qed
    have "to_leaf n OR 1 = n" using leaf(2) by (rule tag_to_leaf)
    then have "removals s < unat w + 16 \<longrightarrow> to_leaf n OR 1 \<in> reach (unat w) s t" using track by auto
    then show ?thesis using leaf i(1) s v by auto
  next
    case (node nd)
    then show ?thesis using i s by auto
  qed
qed

lemma reader_ok_step:
  assumes so: "sound s t" and m: "s \<in> set ss" and r: "reader_ok k ss s t r"
  shows "\<exists>r'. reader_step k s r = Some r' \<and> reader_ok k ss s t r'"
proof -
  obtain h c where s: "s = (h, c)" by fastforce
  have c: "crel s t" using so unfolding sound_def by blast
  have ok: "heap_ok h" using crelD(3) [OF c] s by simp
  show ?thesis
  proof (cases r)
    case (RRoot w)
    then show ?thesis using r s on_track_root [OF so m, of k w] root_valid [OF so] by simp
  next
    case (RWalk w n)
    then show ?thesis using reader_ok_walk [OF so _ s] r by simp
  next
    case (RSlot w n i)
    then have i: "unat w \<le> removals s" "n \<in> dom (nodes h)" "i < 16" "on_track k ss s t w n"
      "removals s < unat w + 16 \<longrightarrow> (\<exists>nd. nodes h n = Some nd \<and> i = slice_index k (shift nd))" using r s by simp_all
    then obtain nd where nd: "nodes h n = Some nd" by blast
    then have al: "aligned n" "length (child nd) = 16" using ok by (auto simp: heap_ok_def)
    have "valid h (child nd ! i)" using so s nd al(2) i(3) unfolding sound_def closed_def by simp
    moreover have "on_track k ss s t w (child nd ! i)" unfolding on_track_def
    proof
      assume l: "removals s < unat w + 16"
      then obtain v where v: "n \<in> reach (unat w) s t" "dives h k n v" "current k ss v" and e: "i = slice_index k (shift nd)"
        using i(4,5) nd s unfolding on_track_def by auto
      have "dives h k (child nd ! i) v" using dives_node [OF v(2)] al(1) nd e by auto
      moreover have "child nd ! i \<in> reach (unat w) s t"
        using child_in_reach [OF c _ v(1)] nd so s unfolding sound_def e by simp
      ultimately show "child nd ! i \<in> reach (unat w) s t \<and> (\<exists>v. dives (fst s) k (child nd ! i) v \<and> current k ss v)"
        using v(3) s by auto
    qed
    ultimately show ?thesis using RSlot i(1,3) nd al(2) s by simp
  next
    case (RCheck w res)
    have "w + DELETED_LIFE \<le> remove_count c \<longleftrightarrow> unat w + 16 \<le> removals s"
      using stale_iff [of w "remove_count c"] so r RCheck s unfolding sound_def by simp
    then show ?thesis using RCheck r s by auto
  qed (use r s in auto)
qed

lemma get_run_ok:
  fixes ss :: "'l::len word cstate list"
  assumes "6 \<le> LENGTH('l)" "malloc_ok mal" "among mal (reader_step k) RStart ss r"
  shows "\<exists>s ss' t. ss = s # ss' \<and> sound s t \<and> reader_ok k ss s t r"
  using assms(3)
proof (induction rule: among.induct)
  case (call s)
  then show ?case using served_sound [OF assms(1,2)] by auto
next
  case (insert s ss r x y e s')
  then obtain t where t: "sound s t" "reader_ok k (s # ss) s t r" by auto
  obtain t' where "wstep s t s' t'" "sound s' t'" using insert_sound [OF assms(1,2) t(1) insert(2)] by blast
  with reader_ok_wstep [OF this(1) t(1) this(2) t(2)] show ?case by blast
next
  case (remove s ss r x y s')
  then obtain t where t: "sound s t" "reader_ok k (s # ss) s t r" by auto
  obtain t' where "wstep s t s' t'" "sound s' t'" using remove_sound [OF t(1) remove(2,3)] by blast
  with reader_ok_wstep [OF this(1) t(1) this(2) t(2)] show ?case by blast
next
  case (read s ss r r')
  then obtain t where t: "sound s t" "reader_ok k (s # ss) s t r" by auto
  from reader_ok_step [OF t(1) _ t(2)] read(2) t(1) show ?case by auto
qed

lemma first_fit_ok: "malloc_ok (first_fit 8 :: 8 word allocator)"
  using serving_allocator.ok [OF first_fit_serving [of 8, where ?'l = 8]] by simp

subsection \<open>The claims\<close>

text \<open>
  C7.  A lock-free lookup returns a current value: whatever insertions and removals happen between
  its loads, the value that \<open>critnib_get\<close> returns is one that an uninterrupted call would have
  returned in one of the states between its start and its end.
\<close>

theorem critnib_get_current:
  fixes ss :: "8 word cstate list"
  assumes "malloc_ok mal" "among mal (reader_step k) RStart ss (RReturn v)"
  shows "\<exists>s\<in>set ss. critnib_get k s = Some v"
  using get_run_ok [OF _ assms] by (auto simp: current_def)

text \<open>
  The reader of key 1 has loaded the root when the key is removed: it returns the removed value,
  which was current when the call started.
\<close>

theorem critnib_get_current_witness:
  "\<exists>ss s. play_call (first_fit 8 :: 8 word allocator) [Ins 1 10, Ins 2 20] (reader_step 1) RStart
      [Read, Read, Read, Ins 3 30, Read, Rem 1, Rem 1, Read, Read, Read] = Some (ss, RReturn 10)
    \<and> s \<in> set ss \<and> critnib_get 1 s = Some 10"
proof -
  have "map_option snd (play_call (first_fit 8 :: 8 word allocator) [Ins 1 10, Ins 2 20] (reader_step 1) RStart
      [Read, Read, Read, Ins 3 30, Read, Rem 1, Rem 1, Read, Read, Read]) = Some (RReturn 10)"
    by code_simp
  then obtain ss where p: "play_call (first_fit 8 :: 8 word allocator) [Ins 1 10, Ins 2 20] (reader_step 1) RStart
      [Read, Read, Read, Ins 3 30, Read, Rem 1, Rem 1, Read, Read, Read] = Some (ss, RReturn 10)" by auto
  with critnib_get_current [OF first_fit_ok play_call_among [OF p]] show ?thesis by auto
qed

text \<open>
  C14.  A reader never crashes: at every point of a call of \<open>critnib_get\<close> among writers the next
  load is from an allocated block and within it, even if the block was recycled long ago.
\<close>

theorem critnib_get_never_crashes:
  fixes s :: "8 word cstate"
  assumes "malloc_ok mal" "among mal (reader_step k) RStart (s # ss) r"
  shows "\<exists>r'. reader_step k s r = Some r'"
proof -
  have "6 \<le> LENGTH(8)" by simp
  from get_run_ok [OF this assms] obtain t where t: "sound s t" "reader_ok k (s # ss) s t r" by blast
  from reader_ok_step [OF t(1) _ t(2)] show ?thesis by auto
qed

text \<open>
  The reader of key 1 is about to load a child of the root when the key is removed, and the node
  with it, and 17 more removals pass: the node has been recycled, and the load still succeeds.
\<close>

theorem critnib_get_never_crashes_witness:
  "\<exists>s ss r r'. play_call (first_fit 8 :: 8 word allocator) [Ins 1 10, Ins 2 20] (reader_step 1) RStart
      ([Read, Read, Read, Rem 1] @ replicate 17 (Rem 7)) = Some (s # ss, r)
    \<and> deleted_node (snd s) = 48 \<and> r = RSlot 0 48 1 \<and> reader_step 1 s r = Some r'"
proof -
  let ?p = "play_call (first_fit 8 :: 8 word allocator) [Ins 1 10, Ins 2 20] (reader_step 1) RStart
      ([Read, Read, Read, Rem 1] @ replicate 17 (Rem 7))"
  have "map_option (\<lambda>(ss, r). (length ss, r, deleted_node (snd (hd ss)))) ?p = Some (19, RSlot 0 48 1, 48)" by code_simp
  then obtain s ss where p: "?p = Some (s # ss, RSlot 0 48 1)" "deleted_node (snd s) = 48"
    by (auto simp: numeral_eq_Suc length_Suc_conv)
  with critnib_get_never_crashes [OF first_fit_ok play_call_among [OF p(1)]] show ?thesis by blast
qed

end
