(* ===== verification/Critnib_Le_Reader.thy ===== *)
theory Critnib_Le_Reader
  imports Critnib_Concurrent
begin

text \<open>
  \<open>critnib_find_le\<close> of \<open>src/critnib.c\<close> as a machine of single loads, and what becomes of it among
  writers.  Its comment promises the guarantees of \<open>critnib_get\<close>; two runs show that it has
  neither of them: it can return a value that was current at no point of the call, and it can
  follow a NULL pointer, because \<open>find_successor\<close> loads the child twice.  Alone, both readers do
  what the operations of \<open>Critnib_Model\<close> do, and run for ever where those are undefined because the
  retry test wraps around.
\<close>

subsection \<open>The steps of the reader\<close>

text \<open>
  The control points: the entry of \<open>find_le\<close> at the node \<open>n\<close>, the load of a child, the return from
  the call with a value, the search to the left from the child \<open>i\<close> on (exclusive), the two loads
  of \<open>find_successor\<close>, the load of the value of a leaf.  The list holds the nodes and indices of
  the callers.
\<close>

type_synonym le_frames = "(ptr \<times> nat) list"

datatype le_reader =
    LStart
  | LRoot u64
  | LFind u64 ptr le_frames
  | LSlot u64 ptr nat le_frames
  | LRet u64 ptr le_frames
  | LScan u64 ptr nat le_frames
  | LSucc u64 ptr nat le_frames
  | LReload u64 ptr nat le_frames
  | LValue u64 ptr le_frames
  | LCheck u64 ptr
  | LReturn ptr

definition load_child :: "'w heap \<Rightarrow> ptr \<Rightarrow> nat \<Rightarrow> ptr option" where
  "load_child h n i = do { nd \<leftarrow> nodes h n; if i < length (child nd) then Some (child nd ! i) else None }"

fun le_step :: "u64 \<Rightarrow> 'l::len word cstate \<Rightarrow> le_reader \<Rightarrow> le_reader option" where
  "le_step k (h, c) LStart = Some (LRoot (remove_count c))"
| "le_step k (h, c) (LRoot w) = Some (LFind w (root c) [])"
| "le_step k (h, c) (LFind w n fs) =
     (if n = NULL then Some (LRet w NULL fs)
      else if is_leaf n then do {
        lf \<leftarrow> leaves h (to_leaf n);
        Some (if key lf \<le> k then LValue w (to_leaf n) fs else LRet w NULL fs)
      } else do {
        nd \<leftarrow> nodes h n;
        Some (if drop_bit (unat (shift nd)) (k XOR path nd) AND NOT NIB \<noteq> 0
              then (if path nd < k then LSucc w n SLNODES fs else LRet w NULL fs)
              else LSlot w n (slice_index k (shift nd)) fs)
      })"
| "le_step k (h, c) (LSlot w n i fs) = do { m \<leftarrow> load_child h n i; Some (LFind w m ((n, i) # fs)) }"
| "le_step k (h, c) (LRet w v []) = Some (LCheck w v)"
| "le_step k (h, c) (LRet w v ((n, i) # fs)) = Some (if v \<noteq> NULL then LRet w v fs else LScan w n i fs)"
| "le_step k (h, c) (LScan w n 0 fs) = Some (LRet w NULL fs)"
| "le_step k (h, c) (LScan w n (Suc i) fs) = do {
     m \<leftarrow> load_child h n i;
     Some (if m = NULL then LScan w n i fs
           else if is_leaf m then LValue w (to_leaf m) fs else LSucc w m SLNODES fs)
   }"
| "le_step k (h, c) (LSucc w n 0 fs) = Some (LRet w NULL fs)"
| "le_step k (h, c) (LSucc w n (Suc i) fs) = do {
     m \<leftarrow> load_child h n i;
     Some (if m = NULL then LSucc w n i fs else LReload w n i fs)
   }"
| "le_step k (h, c) (LReload w n i fs) = do {
     m \<leftarrow> load_child h n i;
     Some (if is_leaf m then LValue w (to_leaf m) fs else LSucc w m SLNODES fs)
   }"
| "le_step k (h, c) (LValue w a fs) = do { lf \<leftarrow> leaves h a; Some (LRet w (val lf) fs) }"
| "le_step k (h, c) (LCheck w res) = Some (if w + DELETED_LIFE \<le> remove_count c then LStart else LReturn res)"
| "le_step k (h, c) (LReturn res) = Some (LReturn res)"

subsection \<open>A reader that is alone\<close>

inductive goes :: "('s \<Rightarrow> 'r \<Rightarrow> 'r option) \<Rightarrow> 's \<Rightarrow> 'r \<Rightarrow> 'r \<Rightarrow> bool" for step s where
  stay: "goes step s r r"
| go: "step s r = Some r1 \<Longrightarrow> goes step s r1 r2 \<Longrightarrow> goes step s r r2"

lemma goes_trans: "goes step s r r1 \<Longrightarrow> goes step s r1 r2 \<Longrightarrow> goes step s r r2"
  by (induction rule: goes.induct) (auto intro: goes.go)

lemma one_step: "step s r = Some r1 \<Longrightarrow> goes step s r r1"
  by (rule goes.go [OF _ goes.stay])

lemma two_steps: "step s r \<bind> step s = Some r2 \<Longrightarrow> goes step s r r2"
  by (auto simp: bind_eq_Some_conv intro: goes.go one_step)

lemma get_goes:
  "get_descend h k n = Some n' \<Longrightarrow>
   heap_ok h \<longrightarrow> goes (reader_step k) (h, c) (RWalk w n) (RWalk w n') \<and> (n' = NULL \<or> is_leaf n')"
proof (induction rule: get_descend.raw_induct [rotated 1, consumes 1])
  case (1 g h k n n')
  show ?case
  proof (cases "n \<noteq> NULL \<and> \<not> is_leaf n")
    case True
    then obtain nd where nd: "nodes h n = Some nd" "g h k (child nd ! slice_index k (shift nd)) = Some n'"
      using 1(2) by (auto simp: bind_eq_Some_conv)
    have "goes (reader_step k) (h, c) (RWalk w n) (RWalk w (child nd ! slice_index k (shift nd)))" if "heap_ok h"
    proof -
      have "length (child nd) = 16" using that nd(1) by (auto simp: heap_ok_def)
      then show ?thesis using True nd(1) by (intro two_steps) simp
    qed
    with 1(1) [OF nd(2)] show ?thesis using goes_trans by metis
  qed (use 1(2) goes.stay in auto)
qed

lemma get_alone:
  assumes "heap_ok h" "get_once h k (root c) = Some v"
  shows "goes (reader_step k) (h, c) (RRoot (remove_count c)) (RCheck (remove_count c) v)"
proof -
  obtain n where n: "get_descend h k (root c) = Some n" using assms(2) by (auto simp: get_once_def bind_eq_Some_conv)
  let ?w = "remove_count c"
  have walk: "goes (reader_step k) (h, c) (RRoot ?w) (RWalk ?w n)" "n = NULL \<or> is_leaf n"
  proof -
    have "goes (reader_step k) (h, c) (RRoot ?w) (RWalk ?w (root c))" by (intro one_step) simp
    then show "goes (reader_step k) (h, c) (RRoot ?w) (RWalk ?w n)" "n = NULL \<or> is_leaf n"
      using get_goes [OF n, of c ?w] assms(1) goes_trans by metis+
  qed
  moreover have "goes (reader_step k) (h, c) (RWalk ?w n) (RCheck ?w v)"
  proof (cases "n = NULL")
    case True
    then show ?thesis using assms(2) n by (intro one_step) (simp add: get_once_def)
  next
    case False
    then obtain lf where lf: "leaves h (to_leaf n) = Some lf" "v = (if key lf = k then val lf else NULL)"
      using assms(2) n by (auto simp: get_once_def bind_eq_Some_conv)
    show ?thesis
    proof (cases "key lf = k")
      case True
      then show ?thesis using lf False walk(2) by (intro two_steps) simp
    next
      case False
      then show ?thesis using lf \<open>n \<noteq> NULL\<close> walk(2) by (intro one_step) simp
    qed
  qed
  ultimately show ?thesis by (meson goes_trans)
qed

lemma scan_goes:
  assumes nd: "nodes h n = Some nd" "length (child nd) = 16"
  shows "i \<le> 16 \<Longrightarrow> goes (le_step k) (h, c) (LScan w n i fs) (case scan_down (child nd) i of None \<Rightarrow> LRet w NULL fs
      | Some j \<Rightarrow> if is_leaf (child nd ! j) then LValue w (to_leaf (child nd ! j)) fs else LSucc w (child nd ! j) SLNODES fs)"
    and "i \<le> 16 \<Longrightarrow> goes (le_step k) (h, c) (LSucc w n i fs) (case scan_down (child nd) i of None \<Rightarrow> LRet w NULL fs
      | Some j \<Rightarrow> LReload w n j fs)"
proof (induction i)
  case 0
  show "goes (le_step k) (h, c) (LScan w n 0 fs) (case scan_down (child nd) 0 of None \<Rightarrow> LRet w NULL fs
      | Some j \<Rightarrow> if is_leaf (child nd ! j) then LValue w (to_leaf (child nd ! j)) fs else LSucc w (child nd ! j) SLNODES fs)"
    "goes (le_step k) (h, c) (LSucc w n 0 fs) (case scan_down (child nd) 0 of None \<Rightarrow> LRet w NULL fs
      | Some j \<Rightarrow> LReload w n j fs)"
    by (simp_all add: one_step)
next
  case (Suc i)
  have l: "load_child h n i = Some (child nd ! i)" if "Suc i \<le> 16" using nd that by (simp add: load_child_def)
  show "goes (le_step k) (h, c) (LScan w n (Suc i) fs) (case scan_down (child nd) (Suc i) of None \<Rightarrow> LRet w NULL fs
      | Some j \<Rightarrow> if is_leaf (child nd ! j) then LValue w (to_leaf (child nd ! j)) fs else LSucc w (child nd ! j) SLNODES fs)"
    if "Suc i \<le> 16"
    using Suc.IH(1) l [OF that] that by (cases "child nd ! i = NULL") (auto intro: goes.go goes.stay)
  show "goes (le_step k) (h, c) (LSucc w n (Suc i) fs) (case scan_down (child nd) (Suc i) of None \<Rightarrow> LRet w NULL fs
      | Some j \<Rightarrow> LReload w n j fs)" if "Suc i \<le> 16"
    using Suc.IH(2) l [OF that] that by (cases "child nd ! i = NULL") (auto intro: goes.go goes.stay)
qed

lemma value_goes: "map_option val (leaves h a) = Some v \<Longrightarrow> goes (le_step k) (h, c) (LValue w a fs) (LRet w v fs)"
  by (auto intro!: one_step)

lemma successor_goes:
  "find_successor h n = Some v \<Longrightarrow> heap_ok h \<longrightarrow> goes (le_step k) (h, c) (LSucc w n SLNODES fs) (LRet w v fs)"
proof (induction rule: find_successor.raw_induct [rotated 1, consumes 1])
  case (1 g h n v)
  then obtain nd where nd: "nodes h n = Some nd" by (auto simp: bind_eq_Some_conv)
  show ?case
  proof
    assume ok: "heap_ok h"
    then have len: "length (child nd) = 16" using nd by (auto simp: heap_ok_def)
    note go = scan_goes(2) [OF nd len, of SLNODES k c w fs]
    show "goes (le_step k) (h, c) (LSucc w n SLNODES fs) (LRet w v fs)"
    proof (cases "scan_down (child nd) SLNODES")
      case None
      then show ?thesis using go 1(2) nd by (simp add: SLNODES_def)
    next
      case (Some j)
      then have j: "load_child h n j = Some (child nd ! j)"
        using nd len scan_down_Some [of "child nd" SLNODES j] by (simp add: load_child_def SLNODES_def)
      have reload: "goes (le_step k) (h, c) (LSucc w n SLNODES fs) (LReload w n j fs)" using go Some by (simp add: SLNODES_def)
      show ?thesis
      proof (cases "is_leaf (child nd ! j)")
        case True
        then have v: "map_option val (leaves h (to_leaf (child nd ! j))) = Some v" using 1(2) nd Some by simp
        have "le_step k (h, c) (LReload w n j fs) = Some (LValue w (to_leaf (child nd ! j)) fs)" using True j by simp
        from goes.go [OF this value_goes [OF v]] have "goes (le_step k) (h, c) (LReload w n j fs) (LRet w v fs)" .
        then show ?thesis using reload by (rule goes_trans [rotated])
      next
        case False
        then have "g h (child nd ! j) = Some v" using 1(2) nd Some by simp
        then have g: "goes (le_step k) (h, c) (LSucc w (child nd ! j) SLNODES fs) (LRet w v fs)" using 1(1) ok by blast
        have "le_step k (h, c) (LReload w n j fs) = Some (LSucc w (child nd ! j) SLNODES fs)" using False j by simp
        from goes.go [OF this g] have "goes (le_step k) (h, c) (LReload w n j fs) (LRet w v fs)" .
        then show ?thesis using reload by (rule goes_trans [rotated])
      qed
    qed
  qed
qed

lemma find_le_goes:
  "find_le h n k = Some v \<Longrightarrow> heap_ok h \<longrightarrow> (\<forall>fs. goes (le_step k) (h, c) (LFind w n fs) (LRet w v fs))"
proof (induction rule: find_le.raw_induct [rotated 1, consumes 1])
  case (1 g h n k v)
  show ?case
  proof (intro impI allI)
    fix fs
    assume ok: "heap_ok h"
    consider (null) "n = NULL" | (leaf) "n \<noteq> NULL" "is_leaf n" | (node) "n \<noteq> NULL" "\<not> is_leaf n" by blast
    then show "goes (le_step k) (h, c) (LFind w n fs) (LRet w v fs)"
    proof cases
      case null
      then show ?thesis using 1(2) by (auto intro!: one_step)
    next
      case leaf
      then obtain lf where lf: "leaves h (to_leaf n) = Some lf" "v = (if key lf \<le> k then val lf else NULL)"
        using 1(2) by (auto simp: bind_eq_Some_conv)
      show ?thesis
      proof (cases "key lf \<le> k")
        case True
        then have "le_step k (h, c) (LFind w n fs) = Some (LValue w (to_leaf n) fs)" using leaf lf by simp
        then show ?thesis by (rule goes.go) (use True lf in \<open>simp add: value_goes\<close>)
      next
        case False
        then show ?thesis using leaf lf by (intro one_step) simp
      qed
    next
      case node
      then obtain nd where nd: "nodes h n = Some nd" using 1(2) by (auto simp: bind_eq_Some_conv)
      have len: "length (child nd) = 16" using nd ok by (auto simp: heap_ok_def)
      show ?thesis
      proof (cases "drop_bit (unat (shift nd)) (k XOR path nd) AND NOT NIB \<noteq> 0")
        case out: True
        show ?thesis
        proof (cases "path nd < k")
          case True
          then have "find_successor h n = Some v" using 1(2) nd node out by simp
          then have "goes (le_step k) (h, c) (LSucc w n SLNODES fs) (LRet w v fs)" using successor_goes ok by blast
          moreover have "le_step k (h, c) (LFind w n fs) = Some (LSucc w n SLNODES fs)" using nd node True out by simp
          ultimately show ?thesis by (rule goes.go [rotated])
        next
          case False
          then show ?thesis using 1(2) nd node out by (intro one_step) simp
        qed
      next
        case False
        let ?i = "slice_index k (shift nd)"
        obtain v0 where v0: "g h (child nd ! ?i) k = Some v0" using 1(2) nd node False by (auto simp: Let_def bind_eq_Some_conv)
        have "load_child h n ?i = Some (child nd ! ?i)" using nd len by (simp add: load_child_def)
        then have "goes (le_step k) (h, c) (LFind w n fs) (LFind w (child nd ! ?i) ((n, ?i) # fs))"
          using nd node False by (intro two_steps) simp
        moreover have "goes (le_step k) (h, c) (LFind w (child nd ! ?i) ((n, ?i) # fs)) (LRet w v0 ((n, ?i) # fs))"
          using 1(1) [OF v0] ok by blast
        moreover have "goes (le_step k) (h, c) (LRet w v0 ((n, ?i) # fs)) (LRet w v fs)"
        proof (cases "v0 = NULL")
          case z: False
          then have "v = v0" using 1(2) nd node False v0 by (simp add: Let_def)
          then show ?thesis using z by (intro one_step) simp
        next
          case z: True
          note go = scan_goes(1) [OF nd len, of ?i k c w fs]
          have "goes (le_step k) (h, c) (LScan w n ?i fs) (LRet w v fs)"
          proof (cases "scan_down (child nd) ?i")
            case None
            then show ?thesis using go 1(2) nd node False v0 z by (simp add: Let_def less_imp_le)
          next
            case (Some j)
            show ?thesis
            proof (cases "is_leaf (child nd ! j)")
              case True
              then have "map_option val (leaves h (to_leaf (child nd ! j))) = Some v"
                using 1(2) nd node False v0 z Some by (simp add: Let_def)
              from value_goes [OF this, of k c w fs] go show ?thesis
                using Some True by (simp add: less_imp_le) (rule goes_trans)
            next
              case nl: False
              then have "find_successor h (child nd ! j) = Some v" using 1(2) nd node False v0 z Some by (simp add: Let_def)
              then have "goes (le_step k) (h, c) (LSucc w (child nd ! j) SLNODES fs) (LRet w v fs)"
                using successor_goes ok by blast
              with go show ?thesis using Some nl by (simp add: less_imp_le) (rule goes_trans)
            qed
          qed
          moreover have "le_step k (h, c) (LRet w v0 ((n, ?i) # fs)) = Some (LScan w n ?i fs)" using z by simp
          ultimately show ?thesis by (rule goes.go [rotated])
        qed
        ultimately show ?thesis using goes_trans by metis
      qed
    qed
  qed
qed

lemma le_alone:
  assumes "heap_ok h" "(if root c \<noteq> NULL then find_le h (root c) k else Some NULL) = Some v"
  shows "goes (le_step k) (h, c) (LRoot (remove_count c)) (LCheck (remove_count c) v)"
proof -
  let ?w = "remove_count c"
  have "find_le h NULL k = Some NULL" by (subst find_le.simps) simp
  then have "find_le h (root c) k = Some v" using assms(2) by (cases "root c = NULL") auto
  then have f: "goes (le_step k) (h, c) (LFind ?w (root c) []) (LRet ?w v [])" using find_le_goes assms(1) by blast
  have "goes (le_step k) (h, c) (LRoot ?w) (LFind ?w (root c) [])" by (intro one_step) simp
  moreover have "goes (le_step k) (h, c) (LRet ?w v []) (LCheck ?w v)" by (intro one_step) simp
  ultimately show ?thesis using f goes_trans by metis
qed

text \<open>What the two machines find in a consistent structure, up to the comparison of the counters.\<close>

lemma readers_check:
  fixes h :: "'l::len word heap"
  assumes "critnib_rel (h, c) m"
  shows "goes (reader_step k) (h, c) (RRoot (remove_count c)) (RCheck (remove_count c) (val_of (m k)))"
    "\<exists>v. (if root c \<noteq> NULL then find_le h (root c) k else Some NULL) = Some v
      \<and> goes (le_step k) (h, c) (LRoot (remove_count c)) (LCheck (remove_count c) v)"
proof -
  obtain t where t: "crel (h, c) t" "m = tmap t" using assms unfolding critnib_rel_crel by blast
  note D = crelD [OF t(1), unfolded fst_conv snd_conv]
  have "get_once h k (root c) = Some (val_of (m k))" using get_once_tmap [OF D(1,2)] D(4) t(2) by simp
  then show "goes (reader_step k) (h, c) (RRoot (remove_count c)) (RCheck (remove_count c) (val_of (m k)))"
    by (rule get_alone [OF D(3)])
  have "\<exists>v. (if root c \<noteq> NULL then find_le h (root c) k else Some NULL) = Some v"
    using find_le_answer [OF D(1,2), of k] D(4) by auto
  then show "\<exists>v. (if root c \<noteq> NULL then find_le h (root c) k else Some NULL) = Some v
      \<and> goes (le_step k) (h, c) (LRoot (remove_count c)) (LCheck (remove_count c) v)"
    using le_alone [OF D(3)] by blast
qed

text \<open>
  C28.  The machines are the operations: a reader that no writer interrupts returns, and returns
  what \<open>critnib_get\<close> and \<open>critnib_find_le\<close> return.
\<close>

theorem readers_alone:
  fixes h :: "8 word heap"
  assumes "critnib_rel (h, c) m" "unat (remove_count c) + 16 < 2 ^ 64"
  shows "goes (reader_step k) (h, c) RStart (RReturn (val_of (m k))) \<and> critnib_get k (h, c) = Some (val_of (m k))
    \<and> (\<exists>v. critnib_find_le k (h, c) = Some v \<and> goes (le_step k) (h, c) LStart (LReturn v))"
proof (intro conjI)
  show "critnib_get k (h, c) = Some (val_of (m k))" by (rule critnib_get_rel [OF assms])
  let ?w = "remove_count c"
  note nw = assms(2) [unfolded no_wrap_16] and C = readers_check [OF assms(1), of k]
  have "goes (reader_step k) (h, c) (RCheck ?w (val_of (m k))) (RReturn (val_of (m k)))" using nw by (intro one_step) simp
  with C(1) have "goes (reader_step k) (h, c) (RRoot ?w) (RReturn (val_of (m k)))" by (rule goes_trans)
  then show "goes (reader_step k) (h, c) RStart (RReturn (val_of (m k)))" by (intro goes.go [of _ _ RStart]) simp_all
  obtain v where v: "(if root c \<noteq> NULL then find_le h (root c) k else Some NULL) = Some v"
    "goes (le_step k) (h, c) (LRoot ?w) (LCheck ?w v)" using C(2) by blast
  have "critnib_find_le k (h, c) = Some v" using v(1) nw by (subst critnib_find_le.simps) simp
  moreover have "goes (le_step k) (h, c) (LCheck ?w v) (LReturn v)" using nw by (intro one_step) simp
  with v(2) have "goes (le_step k) (h, c) (LRoot ?w) (LReturn v)" by (rule goes_trans)
  then have "goes (le_step k) (h, c) LStart (LReturn v)" by (intro goes.go [of _ _ LStart]) simp_all
  ultimately show "\<exists>v. critnib_find_le k (h, c) = Some v \<and> goes (le_step k) (h, c) LStart (LReturn v)" by blast
qed

theorem readers_alone_witness:
  "goes (reader_step 2) (demo :: 8 word cstate) RStart (RReturn 20)"
proof -
  have d: "demo = (demo_heap :: 8 word heap, snd (demo :: 8 word cstate))" by (simp add: demo_def)
  have "critnib_rel (demo_heap :: 8 word heap, snd (demo :: 8 word cstate)) [1 \<mapsto> 10, 2 \<mapsto> 20]"
    by (subst d [symmetric]) (rule demo_rel)
  moreover have "unat (remove_count (snd (demo :: 8 word cstate))) + 16 < 2 ^ 64" by (rule demo_count)
  ultimately show ?thesis using readers_alone [of demo_heap "snd (demo :: 8 word cstate)" "[1 \<mapsto> 10, 2 \<mapsto> 20]" 2]
    unfolding d [symmetric] by (simp add: val_of_def)
qed

subsection \<open>A reader that never returns\<close>

fun runs :: "('s \<Rightarrow> 'r \<Rightarrow> 'r option) \<Rightarrow> 's \<Rightarrow> nat \<Rightarrow> 'r \<Rightarrow> 'r option" where
  "runs step s 0 r = Some r"
| "runs step s (Suc n) r = do { r' \<leftarrow> step s r; runs step s n r' }"

lemma runs_add: "runs step s (n + n') r = do { r' \<leftarrow> runs step s n r; runs step s n' r' }"
  by (induction n arbitrary: r) (auto split: Option.bind_splits)

lemma goes_runs: "goes step s r r' \<Longrightarrow> \<exists>n. runs step s n r = Some r'"
proof (induction rule: goes.induct)
  case (stay r)
  then show ?case by (intro exI [of _ 0]) simp
next
  case (go r r1 r2)
  then show ?case by (metis runs.simps(2) bind.bind_lunit)
qed

lemma runs_fixed: "step s r = Some r \<Longrightarrow> runs step s n r = Some r"
  by (induction n) simp_all

text \<open>A machine that comes back to its start makes any number of steps and never stops.\<close>

lemma loops:
  assumes "step s r0 = Some r1" "goes step s r1 r0" and stop: "\<And>r. P r \<Longrightarrow> step s r = Some r" and "\<not> P r0"
  shows "\<exists>r. runs step s n r0 = Some r \<and> \<not> P r"
proof -
  obtain p where "runs step s p r1 = Some r0" using goes_runs [OF assms(2)] by blast
  then have p: "runs step s (Suc p) r0 = Some r0" using assms(1) by simp
  have "runs step s (i * Suc p) r0 = Some r0" for i
    by (induction i) (simp_all add: runs_add p del: runs.simps(2) mult_Suc_right add_Suc)
  then have "runs step s (n + n * p) r0 = Some r0" by (metis mult_Suc_right)
  then obtain r where r: "runs step s n r0 = Some r" "runs step s (n * p) r = Some r0"
    unfolding runs_add by (auto simp: bind_eq_Some_conv)
  have "P r \<Longrightarrow> runs step s (n * p) r = Some r" by (rule runs_fixed) (rule stop)
  then have "\<not> P r" using r(2) assms(4) by auto
  with r(1) show ?thesis by blast
qed

lemma rel_remove_count [simp]: "critnib_rel (h, c\<lparr>remove_count := x\<rparr>) m = critnib_rel (h, c) m"
  by (simp add: critnib_rel_def)

text \<open>
  C8.  The retry test of the readers wraps around: in a consistent structure whose counter of
  removals is within 16 of \<open>2\<^sup>6\<^sup>4\<close>, a call of \<open>critnib_get\<close> or of \<open>critnib_find_le\<close> that no
  writer interrupts makes load after load for ever: after any number of steps it has neither
  left the allocated blocks nor returned.
\<close>

theorem critnib_get_near_wrap:
  fixes h :: "8 word heap"
  assumes "critnib_rel (h, c) m" "2 ^ 64 \<le> unat (remove_count c) + 16"
  shows "(\<exists>r. runs (reader_step k) (h, c) n RStart = Some r \<and> (\<forall>v. r \<noteq> RReturn v))
    \<and> (\<exists>r. runs (le_step k) (h, c) n LStart = Some r \<and> (\<forall>v. r \<noteq> LReturn v))
    \<and> critnib_get k (h, c) = None"
proof (intro conjI)
  let ?w = "remove_count c"
  have w: "?w + DELETED_LIFE \<le> ?w" using assms(2) no_wrap_16 [of ?w] by linarith
  show "critnib_get k (h, c) = None" by (rule critnib_get_diverges [OF assms(2)])
  note C = readers_check [OF assms(1), of k]
  have "goes (reader_step k) (h, c) (RCheck ?w (val_of (m k))) RStart" using w by (intro one_step) simp
  with C(1) have "goes (reader_step k) (h, c) (RRoot ?w) RStart" by (rule goes_trans)
  then have "\<exists>r. runs (reader_step k) (h, c) n RStart = Some r \<and> \<not> (\<exists>v. r = RReturn v)"
    by (intro loops [of _ _ _ "RRoot ?w"]) auto
  then show "\<exists>r. runs (reader_step k) (h, c) n RStart = Some r \<and> (\<forall>v. r \<noteq> RReturn v)" by blast
  obtain v where "goes (le_step k) (h, c) (LRoot ?w) (LCheck ?w v)" using C(2) by blast
  moreover have "goes (le_step k) (h, c) (LCheck ?w v) LStart" using w by (intro one_step) simp
  ultimately have "goes (le_step k) (h, c) (LRoot ?w) LStart" by (rule goes_trans)
  then have "\<exists>r. runs (le_step k) (h, c) n LStart = Some r \<and> \<not> (\<exists>v. r = LReturn v)"
    by (intro loops [of _ _ _ "LRoot ?w"]) auto
  then show "\<exists>r. runs (le_step k) (h, c) n LStart = Some r \<and> (\<forall>v. r \<noteq> LReturn v)" by blast
qed

theorem critnib_get_near_wrap_witness:
  "\<exists>r. runs (reader_step 1) (demo_heap :: 8 word heap, (snd (demo :: 8 word cstate))\<lparr>remove_count := - 16\<rparr>) 1000 RStart = Some r
     \<and> (\<forall>v. r \<noteq> RReturn v)"
proof -
  let ?c = "(snd (demo :: 8 word cstate))\<lparr>remove_count := - 16\<rparr>"
  have "critnib_rel (demo_heap :: 8 word heap, ?c) [1 \<mapsto> 10, 2 \<mapsto> 20]"
    using demo_rel [where 'a = 8] unfolding rel_remove_count by (simp add: demo_def)
  from critnib_get_near_wrap [OF this, of 1 1000] show ?thesis by simp
qed

subsection \<open>Among writers\<close>

text \<open>
  In the structure with the keys 1 and 9, a query for 5 that has passed the child 3 when the key 3
  is inserted and the key 1 removed returns NULL, although an uninterrupted query returns the value
  of the key 1 or that of the key 3 in each of the three states of the call.
\<close>

lemma find_le_late:
  "\<exists>ss. among (first_fit 8 :: 8 word allocator) (le_step 5) LStart ss (LReturn NULL)
     \<and> map (critnib_find_le 5) ss = [Some 30, Some 30, Some 10]"
proof -
  let ?p = "play_call (first_fit 8 :: 8 word allocator) [Ins 1 10, Ins 9 90] (le_step 5) LStart
    (replicate 8 Read @ [Ins 3 30, Rem 1] @ replicate 6 Read)"
  have "map_option snd ?p = Some (LReturn NULL) \<and> map_option (map (critnib_find_le 5) \<circ> fst) ?p = Some [Some 30, Some 30, Some 10]"
    by code_simp
  then obtain ss where p: "?p = Some (ss, LReturn NULL)" "map (critnib_find_le 5) ss = [Some 30, Some 30, Some 10]" by auto
  with play_call_among [OF p(1)] show ?thesis by auto
qed

text \<open>
  In the structure with the keys 17, 18 and 49, a query for 37 searches the node of 17 and 18 for
  its rightmost child; the key 18 is removed after the first load of that child.
\<close>

lemma find_le_null:
  "\<exists>s ss r. among (first_fit 8 :: 8 word allocator) (le_step 37) LStart (s # ss) r \<and> le_step 37 s r = None"
proof -
  let ?p = "play_call (first_fit 8 :: 8 word allocator) [Ins 17 1, Ins 18 2, Ins 49 3] (le_step 37) LStart
    (replicate 21 Read @ [Rem 18, Read])"
  have "map_option (\<lambda>(ss, r). (length ss, le_step 37 (hd ss) r)) ?p = Some (2, None)"
    by code_simp
  then obtain ss r where p: "?p = Some (ss, r)" "length ss = 2" "le_step 37 (hd ss) r = None" by auto
  then obtain s ss' where "ss = s # ss'" by (cases ss) auto
  then have "among (first_fit 8) (le_step 37) LStart (s # ss') r" "le_step 37 s r = None"
    using p(3) play_call_among [OF p(1)] by simp_all
  then show ?thesis by blast
qed

text \<open>
  C20.  \<open>critnib_find_le\<close> has neither guarantee of \<open>critnib_get\<close>, although its comment says so.
  There is a run in which it returns a value that was current at no point of the call: it searches
  to the left child by child, and misses a key that is inserted where it has searched already when
  the key that it would have found is removed.  There is a run in which it dereferences NULL: \<open>find_successor\<close> loads a child that it has found to be
  non-NULL a second time.
\<close>

theorem find_le_lacks_guarantees:
  "(\<exists>ss. among (first_fit 8 :: 8 word allocator) (le_step 5) LStart ss (LReturn NULL)
     \<and> map (critnib_find_le 5) ss = [Some 30, Some 30, Some 10])
   \<and> (\<exists>s ss r. among (first_fit 8 :: 8 word allocator) (le_step 37) LStart (s # ss) r \<and> le_step 37 s r = None)"
  using find_le_late find_le_null by blast

end
