(* ===== verification/Critnib_Tag_Model.thy ===== *)
theory Critnib_Tag_Model
  imports Critnib_Model
begin

text \<open>
  The operations of \<open>src/critnib-tag.c\<close>, the older sibling of \<open>src/critnib.c\<close>, from its own
  text.  The structs are the same but for the field \<open>shift\<close>, an \<open>int32_t\<close>, so the records
  and the memory primitives of the model of \<open>critnib.c\<close> are used at 32 bits.  The file writes
  the slice of a key and the path mask out at every use, its \<open>remove\<close> does not look for a
  NULL child while descending, and takes child 0 where \<open>critnib.c\<close> asserts.
\<close>

type_synonym tag_heap = "32 word heap"
type_synonym tag_cstate = "32 word cstate"
type_synonym tag_allocator = "32 word allocator"

definition tag_is_leaf :: "ptr \<Rightarrow> bool" where
  "tag_is_leaf n \<longleftrightarrow> n AND 1 \<noteq> 0"

definition tag_to_leaf :: "ptr \<Rightarrow> ptr" where
  "tag_to_leaf n = n AND NOT 1"

subsection \<open>Construction and destruction\<close>

definition critnib_tag_new :: "tag_allocator \<Rightarrow> tag_heap \<Rightarrow> tag_cstate option" where
  "critnib_tag_new mal h =
     (if malloc_critnib mal h = NULL then None
      else Some (h, \<lparr>root = NULL, deleted_node = NULL, deleted_leaf = NULL,
                     pending_del_nodes = replicate 16 NULL,
                     pending_del_leaves = replicate 16 NULL,
                     remove_count = 0, mutex = False\<rparr>))"

partial_function (option) tag_delete_node :: "tag_heap \<Rightarrow> ptr \<Rightarrow> nat \<Rightarrow> tag_heap option" where
  [code]: "tag_delete_node h n i =
     (if \<not> tag_is_leaf n then
        (if i < SLNODES then do {
           nd \<leftarrow> nodes h n;
           if child nd ! i \<noteq> NULL then do {
             h' \<leftarrow> tag_delete_node h (child nd ! i) 0;
             tag_delete_node h' n (Suc i)
           } else tag_delete_node h n (Suc i)
         } else Free_node n h)
      else Free_leaf (tag_to_leaf n) h)"

partial_function (option) tag_free_deleted_nodes :: "tag_heap \<Rightarrow> ptr \<Rightarrow> tag_heap option" where
  [code]: "tag_free_deleted_nodes h m =
     (if m = NULL then Some h
      else do {
        nd \<leftarrow> nodes h m;
        let mm = child nd ! 0;
        h' \<leftarrow> Free_node m h;
        tag_free_deleted_nodes h' mm
      })"

partial_function (option) tag_free_deleted_leaves :: "tag_heap \<Rightarrow> ptr \<Rightarrow> tag_heap option" where
  [code]: "tag_free_deleted_leaves h k =
     (if k = NULL then Some h
      else do {
        lf \<leftarrow> leaves h k;
        let kk = val lf;
        h' \<leftarrow> Free_leaf k h;
        tag_free_deleted_leaves h' kk
      })"

fun tag_free_pending :: "ptr list \<Rightarrow> ptr list \<Rightarrow> tag_heap \<Rightarrow> tag_heap option" where
  "tag_free_pending (n # ns) (k # ks) h = do {
     h \<leftarrow> Free_node n h;
     h \<leftarrow> Free_leaf k h;
     tag_free_pending ns ks h
   }"
| "tag_free_pending _ _ h = Some h"

fun critnib_tag_delete :: "tag_cstate \<Rightarrow> tag_heap option" where
  "critnib_tag_delete (h, c) = do {
     h \<leftarrow> (if root c \<noteq> NULL then tag_delete_node h (root c) 0 else Some h);
     h \<leftarrow> (if mutex c then None else Some h);
     h \<leftarrow> tag_free_deleted_nodes h (deleted_node c);
     h \<leftarrow> tag_free_deleted_leaves h (deleted_leaf c);
     tag_free_pending (pending_del_nodes c) (pending_del_leaves c) h
   }"

subsection \<open>The pools of freed nodes and leaves\<close>

fun tag_free_node :: "ptr \<Rightarrow> tag_cstate \<Rightarrow> tag_cstate option" where
  "tag_free_node n (h, c) =
     (if n = NULL then Some (h, c)
      else if tag_is_leaf n then None \<comment> \<open>ASSERT\<close>
      else do {
        nd \<leftarrow> nodes h n;
        Some (set_node n (nd\<lparr>child := (child nd)[0 := deleted_node c]\<rparr>) h,
              c\<lparr>deleted_node := n\<rparr>)
      })"

fun tag_alloc_node :: "tag_allocator \<Rightarrow> tag_cstate \<Rightarrow> (ptr \<times> tag_cstate) option" where
  "tag_alloc_node mal (h, c) =
     (if deleted_node c = NULL then
        (let (a, nd) = malloc_node mal h
         in Some (a, if a = NULL then (h, c) else (set_node a nd h, c)))
      else do {
        let n = deleted_node c;
        nd \<leftarrow> nodes h n;
        Some (n, (h, c\<lparr>deleted_node := child nd ! 0\<rparr>))
      })"

fun tag_free_leaf :: "ptr \<Rightarrow> tag_cstate \<Rightarrow> tag_cstate option" where
  "tag_free_leaf k (h, c) =
     (if k = NULL then Some (h, c)
      else do {
        lf \<leftarrow> leaves h k;
        Some (set_leaf k (lf\<lparr>val := deleted_leaf c\<rparr>) h, c\<lparr>deleted_leaf := k\<rparr>)
      })"

fun tag_alloc_leaf :: "tag_allocator \<Rightarrow> tag_cstate \<Rightarrow> (ptr \<times> tag_cstate) option" where
  "tag_alloc_leaf mal (h, c) =
     (if deleted_leaf c = NULL then
        (let (a, lf) = malloc_leaf mal h
         in Some (a, if a = NULL then (h, c) else (set_leaf a lf h, c)))
      else do {
        let k = deleted_leaf c;
        lf \<leftarrow> leaves h k;
        Some (k, (h, c\<lparr>deleted_leaf := val lf\<rparr>))
      })"

subsection \<open>Insertion\<close>

partial_function (option) tag_insert_descend ::
  "tag_heap \<Rightarrow> u64 \<Rightarrow> ptr \<Rightarrow> slot \<Rightarrow> ptr \<Rightarrow> (ptr \<times> slot \<times> ptr) option" where
  [code]: "tag_insert_descend h k n parent prev =
     (if n \<noteq> NULL \<and> \<not> tag_is_leaf n then do {
        nd \<leftarrow> nodes h n;
        if k AND push_bit (unat (shift nd)) (NOT NIB) = path nd
        then (let i = unat (drop_bit (unat (shift nd)) k AND NIB)
              in tag_insert_descend h k (child nd ! i) (Child n i) n)
        else Some (n, parent, prev)
      } else Some (n, parent, prev))"

definition critnib_tag_insert :: "tag_allocator \<Rightarrow> u64 \<Rightarrow> ptr \<Rightarrow> tag_cstate \<Rightarrow> (int \<times> tag_cstate) option" where
  "critnib_tag_insert mal k v s = do {
     s \<leftarrow> lock s;
     (kl, s) \<leftarrow> tag_alloc_leaf mal s;
     if kl = NULL then Some (ENOMEM, unlock s)
     else do {
       let (h, c) = s;
       lf \<leftarrow> leaves h kl;
       let h = set_leaf kl (lf\<lparr>key := k, val := v\<rparr>) h;
       let kn = kl OR 1;
       if root c = NULL then Some (0, unlock (h, c\<lparr>root := kn\<rparr>))
       else do {
         (n, parent, prev) \<leftarrow> tag_insert_descend h k (root c) Root (root c);
         if n = NULL then do {
           nd \<leftarrow> nodes h prev;
           s \<leftarrow> store (Child prev (unat (drop_bit (unat (shift nd)) k AND NIB))) kn (h, c);
           Some (0, unlock s)
         } else do {
           p \<leftarrow> (if tag_is_leaf n then map_option key (leaves h (tag_to_leaf n))
                 else map_option path (nodes h n));
           let at = p XOR k;
           if at = 0 then
             (if \<not> tag_is_leaf n then None \<comment> \<open>ASSERT\<close>
              else do {
                s \<leftarrow> tag_free_leaf (tag_to_leaf kn) (h, c);
                Some (EEXIST, unlock s)
              })
           else do {
             let sh = ucast (util_mssb_index64 at) AND NOT (3 :: 32 word);
             (m, s) \<leftarrow> tag_alloc_node mal (h, c);
             if m = NULL then do {
               s \<leftarrow> tag_free_leaf (tag_to_leaf kn) s;
               Some (ENOMEM, unlock s)
             } else do {
               let (h, c) = s;
               nd \<leftarrow> nodes h m;
               let dir = unat (drop_bit (unat sh) k AND NIB);
               let nd = nd\<lparr>child := (replicate SLNODES NULL)
                                     [dir := kn, unat (drop_bit (unat sh) p AND NIB) := n],
                           shift := sh, path := k AND push_bit (unat sh) (NOT NIB)\<rparr>;
               s \<leftarrow> store parent m (set_node m nd h, c);
               Some (0, unlock s)
             }
           }
         }
       }
     }
   }"

subsection \<open>Removal\<close>

text \<open>A NULL child is not a leaf: the next iteration reads its \<open>shift\<close>.\<close>

partial_function (option) tag_remove_descend ::
  "tag_heap \<Rightarrow> u64 \<Rightarrow> ptr \<Rightarrow> slot \<Rightarrow> ptr \<Rightarrow> slot \<Rightarrow> (ptr \<times> ptr \<times> slot) option"
where
  "tag_remove_descend h k kn k_parent n n_parent =
     (if tag_is_leaf kn then Some (kn, n, n_parent)
      else do {
        nd \<leftarrow> nodes h kn;
        let i = unat (drop_bit (unat (shift nd)) k AND NIB);
        tag_remove_descend h k (child nd ! i) (Child kn i) kn k_parent
      })"

fun tag_scan_ochild :: "ptr list \<Rightarrow> nat \<Rightarrow> int \<Rightarrow> int option" where
  "tag_scan_ochild [] i ochild = Some ochild"
| "tag_scan_ochild (p # ps) i ochild =
     (if p \<noteq> NULL then (if ochild \<noteq> -1 then None else tag_scan_ochild ps (Suc i) (int i))
      else tag_scan_ochild ps (Suc i) ochild)"

text \<open>The end of \<open>critnib_tag_remove\<close>, after the descent.\<close>

definition tag_remove_unlink ::
  "u64 \<Rightarrow> nat \<Rightarrow> ptr \<Rightarrow> ptr \<Rightarrow> slot \<Rightarrow> tag_cstate \<Rightarrow> (ptr \<times> tag_cstate) option" where
  "tag_remove_unlink k del kn n n_parent s = do {
     let (h, c) = s;
     lf \<leftarrow> leaves h (tag_to_leaf kn);
     if key lf \<noteq> k then Some (NULL, unlock (h, c))
     else do {
       nd \<leftarrow> nodes h n;
       (h, c) \<leftarrow> store (Child n (unat (drop_bit (unat (shift nd)) k AND NIB))) NULL (h, c);
       nd \<leftarrow> nodes h n;
       case tag_scan_ochild (child nd) 0 (-1) of
         None \<Rightarrow>
           Some (val lf, unlock (h, c\<lparr>pending_del_leaves :=
             (pending_del_leaves c)[del := tag_to_leaf kn]\<rparr>))
       | Some ochild \<Rightarrow> do {
           let ochild = (if ochild = -1 then 0 else ochild); \<comment> \<open>paranoia\<close>
           (h, c) \<leftarrow> store n_parent (child nd ! nat ochild) (h, c);
           Some (val lf, unlock (h, c\<lparr>
             pending_del_nodes := (pending_del_nodes c)[del := n],
             pending_del_leaves := (pending_del_leaves c)[del := tag_to_leaf kn]\<rparr>))
         }
     }
   }"

definition critnib_tag_remove :: "u64 \<Rightarrow> tag_cstate \<Rightarrow> (ptr \<times> tag_cstate) option" where
  "critnib_tag_remove k s = do {
     (h, c) \<leftarrow> lock s;
     let n = root c;
     if n = NULL then Some (NULL, unlock (h, c))
     else do {
       let del = unat (remove_count c mod DELETED_LIFE);
       let c = c\<lparr>remove_count := remove_count c + 1\<rparr>;
       s \<leftarrow> tag_free_node (pending_del_nodes c ! del) (h, c);
       (h, c) \<leftarrow> tag_free_leaf (pending_del_leaves c ! del) s;
       let c = c\<lparr>pending_del_nodes := (pending_del_nodes c)[del := NULL],
                 pending_del_leaves := (pending_del_leaves c)[del := NULL]\<rparr>;
       if tag_is_leaf n then do {
         lf \<leftarrow> leaves h (tag_to_leaf n);
         if key lf = k then
           Some (val lf, unlock (h, c\<lparr>root := NULL,
             pending_del_leaves := (pending_del_leaves c)[del := tag_to_leaf n]\<rparr>))
         else Some (NULL, unlock (h, c))
       } else do {
         (kn, n, n_parent) \<leftarrow> tag_remove_descend h k n Root n Root;
         tag_remove_unlink k del kn n n_parent (h, c)
       }
     }
   }"

subsection \<open>Queries\<close>

partial_function (option) tag_get_descend :: "tag_heap \<Rightarrow> u64 \<Rightarrow> ptr \<Rightarrow> ptr option" where
  [code]: "tag_get_descend h k n =
     (if n \<noteq> NULL \<and> \<not> tag_is_leaf n then do {
        nd \<leftarrow> nodes h n;
        tag_get_descend h k (child nd ! unat (drop_bit (unat (shift nd)) k AND NIB))
      } else Some n)"

partial_function (option) critnib_tag_get :: "u64 \<Rightarrow> tag_cstate \<Rightarrow> ptr option" where
  [code]: "critnib_tag_get k s = do {
     let (h, c) = s;
     let wrs1 = remove_count c;
     n \<leftarrow> tag_get_descend h k (root c);
     res \<leftarrow> (if n = NULL then Some NULL
            else do {
              lf \<leftarrow> leaves h (tag_to_leaf n);
              Some (if key lf = k then val lf else NULL)
            });
     let wrs2 = remove_count c;
     if wrs1 + DELETED_LIFE \<le> wrs2 then critnib_tag_get k s else Some res
   }"

fun tag_scan_down :: "ptr list \<Rightarrow> nat \<Rightarrow> nat option" where
  "tag_scan_down cs 0 = None"
| "tag_scan_down cs (Suc n) = (if cs ! n \<noteq> NULL then Some n else tag_scan_down cs n)"

partial_function (option) tag_find_successor :: "tag_heap \<Rightarrow> ptr \<Rightarrow> ptr option" where
  [code]: "tag_find_successor h n = do {
     nd \<leftarrow> nodes h n;
     case tag_scan_down (child nd) SLNODES of
       None \<Rightarrow> Some NULL
     | Some nib \<Rightarrow>
         (if tag_is_leaf (child nd ! nib)
          then map_option val (leaves h (tag_to_leaf (child nd ! nib)))
          else tag_find_successor h (child nd ! nib))
   }"

partial_function (option) tag_find_le :: "tag_heap \<Rightarrow> ptr \<Rightarrow> u64 \<Rightarrow> ptr option" where
  [code]: "tag_find_le h n k =
     (if n = NULL then Some NULL
      else if tag_is_leaf n then do {
        lf \<leftarrow> leaves h (tag_to_leaf n);
        Some (if key lf \<le> k then val lf else NULL)
      } else do {
        nd \<leftarrow> nodes h n;
        if drop_bit (unat (shift nd)) (k XOR path nd) AND NOT NIB \<noteq> 0 then
          (if path nd < k then tag_find_successor h n else Some NULL)
        else do {
          let nib = unat (drop_bit (unat (shift nd)) k AND NIB);
          v \<leftarrow> tag_find_le h (child nd ! nib) k;
          if v \<noteq> NULL then Some v
          else (case tag_scan_down (child nd) nib of
              None \<Rightarrow> Some NULL
            | Some j \<Rightarrow>
                (if tag_is_leaf (child nd ! j)
                 then map_option val (leaves h (tag_to_leaf (child nd ! j)))
                 else tag_find_successor h (child nd ! j)))
        }
      })"

partial_function (option) critnib_tag_find_le :: "u64 \<Rightarrow> tag_cstate \<Rightarrow> ptr option" where
  [code]: "critnib_tag_find_le k s = do {
     let (h, c) = s;
     let wrs1 = remove_count c;
     let n = root c;
     res \<leftarrow> (if n \<noteq> NULL then tag_find_le h n k else Some NULL);
     let wrs2 = remove_count c;
     if wrs1 + DELETED_LIFE \<le> wrs2 then critnib_tag_find_le k s else Some res
   }"

end
