(* ===== verification/Critnib_Tag.thy ===== *)
theory Critnib_Tag
  imports Critnib_Properties Critnib_Tag_Model
begin

text \<open>
  \<open>src/critnib-tag.c\<close> against \<open>src/critnib.c\<close>: every operation but \<open>remove\<close> is the same
  function (at the width of its \<open>shift\<close> field), so the correctness of critnib carries over.
  \<open>critnib_tag_remove\<close> agrees with \<open>critnib_remove\<close> for keys that are present; for an
  absent key it may dereference NULL.  The structure therefore keeps the hashmap contract
  without the tolerance \<open>absents\<close>.
\<close>

subsection \<open>The same functions\<close>

lemma option_same: "(\<And>y. x = Some y \<Longrightarrow> x' = Some y) \<Longrightarrow> (\<And>y. x' = Some y \<Longrightarrow> x = Some y) \<Longrightarrow> x = x'"
  by (cases x; cases x') auto

lemma tag_is_leaf_eq [simp]: "tag_is_leaf = is_leaf"
  by (simp add: fun_eq_iff tag_is_leaf_def is_leaf_def)

lemma tag_to_leaf_eq [simp]: "tag_to_leaf = to_leaf"
  by (simp add: fun_eq_iff tag_to_leaf_def to_leaf_def)

lemma tag_slice: "unat (drop_bit (unat sh) k AND NIB) = slice_index k sh"
  by (simp add: slice_index_def)

lemma tag_mask: "push_bit (unat sh) (NOT NIB) = path_mask sh"
  by (simp add: path_mask_def)

lemmas tag_simps = tag_slice tag_mask

lemma tag_get_descend_eq: "tag_get_descend h k n = get_descend h k n"
proof (rule option_same)
  show "tag_get_descend h k n = Some y \<Longrightarrow> get_descend h k n = Some y" for y
  proof (induction rule: tag_get_descend.raw_induct [rotated 1, consumes 1])
    case (1 f h k n y)
    then show ?case by (subst get_descend.simps) (auto simp: tag_simps bind_eq_Some_conv split: if_splits)
  qed
  show "get_descend h k n = Some y \<Longrightarrow> tag_get_descend h k n = Some y" for y
  proof (induction rule: get_descend.raw_induct [rotated 1, consumes 1])
    case (1 f h k n y)
    then show ?case by (subst tag_get_descend.simps) (auto simp: tag_simps bind_eq_Some_conv split: if_splits)
  qed
qed

lemma tag_insert_descend_eq: "tag_insert_descend h k n parent prev = insert_descend h k n parent prev"
proof (rule option_same)
  show "tag_insert_descend h k n parent prev = Some y \<Longrightarrow> insert_descend h k n parent prev = Some y" for y
  proof (induction rule: tag_insert_descend.raw_induct [rotated 1, consumes 1])
    case (1 f h k n parent prev y)
    then show ?case by (subst insert_descend.simps) (cases y, auto simp: tag_simps Let_def bind_eq_Some_conv split: if_splits)
  qed
  show "insert_descend h k n parent prev = Some y \<Longrightarrow> tag_insert_descend h k n parent prev = Some y" for y
  proof (induction rule: insert_descend.raw_induct [rotated 1, consumes 1])
    case (1 f h k n parent prev y)
    then show ?case by (subst tag_insert_descend.simps) (cases y, auto simp: tag_simps Let_def bind_eq_Some_conv split: if_splits)
  qed
qed

lemma tag_scan_down_eq [simp]: "tag_scan_down = scan_down"
proof (intro ext)
  show "tag_scan_down cs n = scan_down cs n" for cs n by (induction n) auto
qed

lemma tag_scan_ochild_eq [simp]: "tag_scan_ochild = scan_ochild"
proof (intro ext)
  show "tag_scan_ochild ps i oc = scan_ochild ps i oc" for ps i oc by (induction ps i oc rule: scan_ochild.induct) auto
qed

lemma tag_find_successor_eq: "tag_find_successor h n = find_successor h n"
proof (rule option_same)
  show "tag_find_successor h n = Some y \<Longrightarrow> find_successor h n = Some y" for y
  proof (induction rule: tag_find_successor.raw_induct [rotated 1, consumes 1])
    case (1 f h n y)
    then show ?case by (subst find_successor.simps) (cases "nodes h n"; auto split: if_splits option.splits)
  qed
  show "find_successor h n = Some y \<Longrightarrow> tag_find_successor h n = Some y" for y
  proof (induction rule: find_successor.raw_induct [rotated 1, consumes 1])
    case (1 f h n y)
    then show ?case by (subst tag_find_successor.simps) (cases "nodes h n"; auto split: if_splits option.splits)
  qed
qed

text \<open>The common body of the two \<open>find_le\<close>, with the recursive call as an argument.\<close>

definition le_body :: "(ptr \<Rightarrow> ptr option) \<Rightarrow> tag_heap \<Rightarrow> ptr \<Rightarrow> u64 \<Rightarrow> ptr option" where
  "le_body f h n k =
     (if n = NULL then Some NULL
      else if is_leaf n then do {
        lf \<leftarrow> leaves h (to_leaf n);
        Some (if key lf \<le> k then val lf else NULL)
      } else do {
        nd \<leftarrow> nodes h n;
        if drop_bit (unat (shift nd)) (k XOR path nd) AND NOT NIB \<noteq> 0 then
          (if path nd < k then find_successor h n else Some NULL)
        else do {
          v \<leftarrow> f (child nd ! slice_index k (shift nd));
          if v \<noteq> NULL then Some v
          else (case scan_down (child nd) (slice_index k (shift nd)) of
              None \<Rightarrow> Some NULL
            | Some j \<Rightarrow>
                (if is_leaf (child nd ! j)
                 then map_option val (leaves h (to_leaf (child nd ! j)))
                 else find_successor h (child nd ! j)))
        }
      })"

lemma le_body_mono:
  assumes "le_body f h n k = Some y" "\<And>a y. f a = Some y \<Longrightarrow> g a = Some y"
  shows "le_body g h n k = Some y"
proof (cases "n = NULL \<or> is_leaf n")
  case True
  then show ?thesis using assms(1) by (auto simp: le_body_def)
next
  case False
  then obtain nd where nd: "nodes h n = Some nd" using assms(1) by (auto simp: le_body_def bind_eq_Some_conv)
  show ?thesis
  proof (cases "drop_bit (unat (shift nd)) (k XOR path nd) AND NOT NIB = 0")
    case True
    then obtain v where "f (child nd ! slice_index k (shift nd)) = Some v"
      using assms(1) False nd by (auto simp: le_body_def bind_eq_Some_conv)
    moreover from this have "g (child nd ! slice_index k (shift nd)) = Some v" by (rule assms(2))
    ultimately show ?thesis using assms(1) False nd True by (simp add: le_body_def)
  next
    case out: False
    then show ?thesis using assms(1) False nd by (simp add: le_body_def)
  qed
qed

lemmas tag_le_simps = tag_simps tag_find_successor_eq tag_is_leaf_eq tag_to_leaf_eq tag_scan_down_eq Let_def

lemma le_body_simps:
  "tag_find_le h n k = le_body (\<lambda>a. tag_find_le h a k) h n k"
  "find_le h n k = le_body (\<lambda>a. find_le h a k) h n k"
  unfolding le_body_def tag_find_le.simps [of h n k, unfolded tag_le_simps] find_le.simps [of h n k, unfolded Let_def]
  by (rule refl)+

lemma tag_find_le_eq: "tag_find_le h n k = find_le h n k"
proof (rule option_same)
  show "tag_find_le h n k = Some y \<Longrightarrow> find_le h n k = Some y" for y
  proof (induction rule: tag_find_le.raw_induct [rotated 1, consumes 1])
    case (1 f h n k y)
    from 1(2) have "le_body (\<lambda>a. f h a k) h n k = Some y"
      unfolding le_body_def tag_le_simps .
    then show ?case unfolding le_body_simps(2) [of h n k] by (rule le_body_mono) (rule 1(1))
  qed
  show "find_le h n k = Some y \<Longrightarrow> tag_find_le h n k = Some y" for y
  proof (induction rule: find_le.raw_induct [rotated 1, consumes 1])
    case (1 f h n k y)
    from 1(2) have "le_body (\<lambda>a. f h a k) h n k = Some y"
      unfolding le_body_def Let_def .
    then show ?case unfolding le_body_simps(1) [of h n k] by (rule le_body_mono) (rule 1(1))
  qed
qed

lemma tag_delete_node_eq: "tag_delete_node h n i = delete_node h n i"
proof (rule option_same)
  show "tag_delete_node h n i = Some y \<Longrightarrow> delete_node h n i = Some y" for y
  proof (induction rule: tag_delete_node.raw_induct [rotated 1, consumes 1])
    case (1 f h n i y)
    then show ?case by (subst delete_node.simps) (cases "nodes h n"; auto simp: bind_eq_Some_conv split: if_splits)
  qed
  show "delete_node h n i = Some y \<Longrightarrow> tag_delete_node h n i = Some y" for y
  proof (induction rule: delete_node.raw_induct [rotated 1, consumes 1])
    case (1 f h n i y)
    then show ?case by (subst tag_delete_node.simps) (cases "nodes h n"; auto simp: bind_eq_Some_conv split: if_splits)
  qed
qed

lemma tag_free_deleted_nodes_eq: "tag_free_deleted_nodes h m = free_deleted_nodes h m"
proof (rule option_same)
  show "tag_free_deleted_nodes h m = Some y \<Longrightarrow> free_deleted_nodes h m = Some y" for y
  proof (induction rule: tag_free_deleted_nodes.raw_induct [rotated 1, consumes 1])
    case (1 f h m y)
    then show ?case by (subst free_deleted_nodes.simps) (cases "nodes h m"; auto simp: Let_def bind_eq_Some_conv split: if_splits)
  qed
  show "free_deleted_nodes h m = Some y \<Longrightarrow> tag_free_deleted_nodes h m = Some y" for y
  proof (induction rule: free_deleted_nodes.raw_induct [rotated 1, consumes 1])
    case (1 f h m y)
    then show ?case by (subst tag_free_deleted_nodes.simps) (cases "nodes h m"; auto simp: Let_def bind_eq_Some_conv split: if_splits)
  qed
qed

lemma tag_free_deleted_leaves_eq: "tag_free_deleted_leaves h m = free_deleted_leaves h m"
proof (rule option_same)
  show "tag_free_deleted_leaves h m = Some y \<Longrightarrow> free_deleted_leaves h m = Some y" for y
  proof (induction rule: tag_free_deleted_leaves.raw_induct [rotated 1, consumes 1])
    case (1 f h m y)
    then show ?case by (subst free_deleted_leaves.simps) (cases "leaves h m"; auto simp: Let_def bind_eq_Some_conv split: if_splits)
  qed
  show "free_deleted_leaves h m = Some y \<Longrightarrow> tag_free_deleted_leaves h m = Some y" for y
  proof (induction rule: free_deleted_leaves.raw_induct [rotated 1, consumes 1])
    case (1 f h m y)
    then show ?case by (subst tag_free_deleted_leaves.simps) (cases "leaves h m"; auto simp: Let_def bind_eq_Some_conv split: if_splits)
  qed
qed

lemma tag_free_pending_eq: "tag_free_pending = free_pending"
proof (intro ext)
  show "tag_free_pending ns ks h = free_pending ns ks h" for ns ks h
    by (induction ns ks h rule: free_pending.induct) (auto cong: Option.bind_cong)
qed

lemma tag_pool_eq [simp]:
  "tag_free_node n s = free_node n s" "tag_free_leaf k s = free_leaf k s"
  "tag_alloc_node mal s = alloc_node mal s" "tag_alloc_leaf mal s = alloc_leaf mal s"
  by (cases s; simp)+

lemma critnib_tag_new_eq: "critnib_tag_new mal h = critnib_new mal h"
  by (simp add: critnib_tag_new_def critnib_new_def)

lemma critnib_tag_delete_eq: "critnib_tag_delete s = critnib_delete s"
  by (cases s) (simp add: tag_delete_node_eq tag_free_deleted_nodes_eq tag_free_deleted_leaves_eq tag_free_pending_eq)

lemma critnib_tag_insert_eq: "critnib_tag_insert mal k v s = critnib_insert mal k v s"
  unfolding critnib_tag_insert_def critnib_insert_def insert_link_def tag_pool_eq tag_insert_descend_eq
    tag_simps tag_is_leaf_eq tag_to_leaf_eq node_path_def Let_def by (simp add: Let_def cong: if_cong)

lemma critnib_tag_get_eq: "critnib_tag_get k s = critnib_get k s"
proof (rule option_same)
  show "critnib_tag_get k s = Some y \<Longrightarrow> critnib_get k s = Some y" for y
  proof (induction rule: critnib_tag_get.raw_induct [rotated 1, consumes 1])
    case (1 f k s y)
    then show ?case by (subst critnib_get.simps)
      (cases s; auto simp: get_once_def tag_get_descend_eq Let_def bind_eq_Some_conv split: if_splits)
  qed
  show "critnib_get k s = Some y \<Longrightarrow> critnib_tag_get k s = Some y" for y
  proof (induction rule: critnib_get.raw_induct [rotated 1, consumes 1])
    case (1 f k s y)
    then show ?case by (subst critnib_tag_get.simps)
      (cases s; auto simp: get_once_def tag_get_descend_eq Let_def bind_eq_Some_conv split: if_splits)
  qed
qed

lemma critnib_tag_find_le_eq: "critnib_tag_find_le k s = critnib_find_le k s"
proof (rule option_same)
  show "critnib_tag_find_le k s = Some y \<Longrightarrow> critnib_find_le k s = Some y" for y
  proof (induction rule: critnib_tag_find_le.raw_induct [rotated 1, consumes 1])
    case (1 f k s y)
    then show ?case by (subst critnib_find_le.simps)
      (cases s; auto simp: tag_find_le_eq Let_def bind_eq_Some_conv split: if_splits)
  qed
  show "critnib_find_le k s = Some y \<Longrightarrow> critnib_tag_find_le k s = Some y" for y
  proof (induction rule: critnib_find_le.raw_induct [rotated 1, consumes 1])
    case (1 f k s y)
    then show ?case by (subst critnib_tag_find_le.simps)
      (cases s; auto simp: tag_find_le_eq Let_def bind_eq_Some_conv split: if_splits)
  qed
qed


subsection \<open>Removal\<close>

lemma tag_descend_found:
  "remove_descend h k kn kp n np = Some (Some r) \<Longrightarrow> tag_remove_descend h k kn kp n np = Some r"
proof (induction "Some r :: (ptr \<times> ptr \<times> slot) option" rule: remove_descend.raw_induct [rotated 1, consumes 1])
  case (1 f h k kn kp n np)
  then show ?case by (subst tag_remove_descend.simps)
    (cases "nodes h kn"; auto simp: tag_simps Let_def split: if_splits)
qed

lemma tag_descend_null:
  "remove_descend h k kn kp n np = Some None \<Longrightarrow> nodes h NULL = None \<Longrightarrow> tag_remove_descend h k kn kp n np = None"
proof (induction "None :: (ptr \<times> ptr \<times> slot) option" rule: remove_descend.raw_induct [rotated 1, consumes 1])
  case (1 f h k kn kp n np)
  have null: "tag_remove_descend h k 0 a b c = None" for a b c
    using 1(3) by (subst tag_remove_descend.simps) simp
  from 1 null show ?case by (subst tag_remove_descend.simps)
    (cases "nodes h kn"; auto simp: tag_simps Let_def split: if_splits)
qed

lemma tag_unlink:
  assumes "remove_unlink k del kn n n_parent (h, c) = Some r"
  shows "tag_remove_unlink k del kn n n_parent (h, c) = Some r"
proof -
  obtain lf where lf: "leaves h (to_leaf kn) = Some lf"
    using assms by (auto simp: remove_unlink_def bind_eq_Some_conv)
  show ?thesis
  proof (cases "key lf = k")
    case False
    then show ?thesis using assms lf by (simp add: remove_unlink_def tag_remove_unlink_def)
  next
    case True
    then obtain nd h1 c1 nd1 where
      1: "nodes h n = Some nd" "store (Child n (slice_index k (shift nd))) NULL (h, c) = Some (h1, c1)" "nodes h1 n = Some nd1"
      using assms lf by (auto simp: remove_unlink_def bind_eq_Some_conv simp del: store.simps)
    show ?thesis
      using assms lf True 1
      by (cases "scan_ochild (child nd1) 0 (-1)") (auto simp: remove_unlink_def tag_remove_unlink_def tag_slice simp del: store.simps unlock.simps split: if_splits)
  qed
qed

lemma null_child_absent:
  assumes "wft t" "is_node t" "walk (deeper k) k t = Node b p s ts" "ts ! idx k s = Null"
  shows "k \<notin> keys t"
proof -
  have "t_remove k t = t"
    using t_remove_subst [OF assms(1,2), of k] assms(3,4) subst_walk [of "deeper k" k t] by simp
  then show ?thesis using tmap_absent assms(1) by blast
qed

lemma heap_ok_NULL: "heap_ok h \<Longrightarrow> nodes h NULL = None"
  unfolding heap_ok_def aligned_def by (cases "nodes h NULL") blast+

lemma tag_remove_rel:
  fixes s :: tag_cstate
  assumes rel: "critnib_rel s m"
  shows "critnib_tag_remove k s = critnib_remove k s \<or> k \<notin> dom m \<and> critnib_tag_remove k s = None"
proof -
  obtain h c where s: "s = (h, c)" by fastforce
  from rel s obtain t dn dl where t: "cinv (h, c) t dn dl {#} {#}" "root c = tptr t" "wft t" "\<not> mutex c" "m = tmap t"
    by (auto elim: critnib_relE)
  let ?n = "root c" and ?del = "unat (remove_count c mod DELETED_LIFE)"
  let ?c = "c\<lparr>mutex := True, remove_count := remove_count c + 1\<rparr>"
  note defs = critnib_tag_remove_def tag_le_simps tag_scan_ochild_eq tag_pool_eq
  note ht = cinvD(2) [OF t(1)]
  show ?thesis
  proof (cases "is_node t")
    case False
    then have "?n = NULL \<or> is_leaf ?n" using t(2) tptr_is_leaf_iff [OF ht] by (cases t) auto
    then show ?thesis unfolding s defs critnib_remove_def
      by (auto simp: Let_def simp del: free_node.simps free_leaf.simps cong: Option.bind_cong if_cong)
  next
    case node: True
    then have n: "?n \<noteq> NULL" "\<not> is_leaf ?n" using t(2) tptr_is_leaf_iff [OF ht] tptr_NULL_iff [OF ht] by auto
    have "cinv (h, ?c) t dn dl {#} {#}" using t(1) by simp
    from recycle_inv [OF this del_index, of "remove_count c"] obtain h1 c1 s1 c2 dn1 dl1 where
      f: "free_node (pending_del_nodes c ! ?del) (h, ?c) = Some s1" "free_leaf (pending_del_leaves c ! ?del) s1 = Some (h1, c2)"
      "c1 = c2\<lparr>pending_del_nodes := (pending_del_nodes c2)[?del := NULL], pending_del_leaves := (pending_del_leaves c2)[?del := NULL]\<rparr>"
      "cinv (h1, c1) t dn1 dl1 {#} {#}" "root c1 = tptr t" "pending_del_nodes c1 ! ?del = NULL" "pending_del_leaves c1 ! ?del = NULL"
      using t(2) by auto
    obtain b p sh ts where last: "walk (deeper k) k t = Node b p sh ts" "wft (Node b p sh ts)" "\<not> is_node (ts ! idx k sh)"
      using walk_deeper [OF t(3) node] by blast
    note d = remove_descend_end [OF cinvD(2) [OF f(4)] t(3) node last(1), of Root ?n Root, folded t(2)]
    have "nodes h1 NULL = None" using heap_ok_NULL [OF cinvD(1) [OF f(4)]] .
    show ?thesis
    proof (cases "ts ! idx k sh = Null")
      case True
      then have "remove_descend h1 k ?n Root ?n Root = Some None" using d by simp
      from tag_descend_null [OF this \<open>nodes h1 NULL = None\<close>]
      have "critnib_tag_remove k s = None"
        using f(1,2) t(4) n unfolding s defs by (simp add: Let_def del: free_node.simps free_leaf.simps)
      moreover have "k \<notin> dom m" using null_child_absent [OF t(3) node last(1) True] t(5) by (simp add: dom_tmap)
      ultimately show ?thesis by blast
    next
      case False
      then have sd: "remove_descend h1 k ?n Root ?n Root = Some (Some (tptr (ts ! idx k sh), b, slot_of (deeper k) k Root t))"
        using d by simp
      note td = tag_descend_found [OF this]
      obtain x s' where r: "critnib_remove k s = Some (x, s')" using critnib_remove_rel [OF rel] by blast
      then have "remove_unlink k ?del (tptr (ts ! idx k sh)) b (slot_of (deeper k) k Root t) (h1, c1) = Some (x, s')"
        using f(1-3) sd t(4) n unfolding s critnib_remove_def
        by (simp add: Let_def del: free_node.simps free_leaf.simps)
      from tag_unlink [OF this] have "critnib_tag_remove k s = Some (x, s')"
        using f(1,2) t(4) n td unfolding s defs f(3)
        by (simp add: Let_def del: free_node.simps free_leaf.simps unlock.simps store.simps)
      then show ?thesis using r by simp
    qed
  qed
qed


subsection \<open>The contract\<close>

definition hm_critnib_tag :: "tag_allocator \<Rightarrow> (tag_cstate, tag_heap) hm" where
  "hm_critnib_tag mal =
     \<lparr>hm_new = critnib_tag_new mal \<lparr>nodes = Map.empty, leaves = Map.empty\<rparr>,
      hm_delete = critnib_tag_delete,
      hm_insert = critnib_tag_insert mal, hm_remove = critnib_tag_remove,
      hm_get = critnib_tag_get, hm_find_le = critnib_tag_find_le, hm_immutable = 0\<rparr>"

lemmas tag_eqs = critnib_tag_new_eq critnib_tag_delete_eq critnib_tag_insert_eq critnib_tag_get_eq critnib_tag_find_le_eq

lemma hm_critnib_tag_hashmap_le:
  assumes "serving_allocator mal cap"
  shows "hashmap_le (hm_critnib_tag mal) (cap div 2) (critnib_repr cap) \<lparr>nodes = Map.empty, leaves = Map.empty\<rparr> True False"
proof unfold_locales
  note A = serving_allocator.new_repr [OF assms] serving_allocator.insert_repr [OF assms]
    serving_allocator.remove_repr [OF assms] serving_allocator.get_repr [OF assms]
    serving_allocator.find_le_repr [OF assms] serving_allocator.delete_repr [OF assms]
  show "\<exists>s. hm_new (hm_critnib_tag mal) = Some s \<and> critnib_repr cap (cap div 2) s Map.empty"
    using A(1) by (simp add: hm_critnib_tag_def tag_eqs)
  fix n s m k v
  show "critnib_repr cap n s m \<Longrightarrow> hm_delete (hm_critnib_tag mal) s = Some \<lparr>nodes = Map.empty, leaves = Map.empty\<rparr>"
    using A(6) by (simp add: hm_critnib_tag_def tag_eqs del: critnib_delete.simps critnib_tag_delete.simps)
  show "critnib_repr cap (Suc n) s m \<Longrightarrow> k \<notin> dom m \<Longrightarrow>
      \<exists>s'. hm_insert (hm_critnib_tag mal) k v s = Some (0, s') \<and> critnib_repr cap n s' (m(k \<mapsto> v))"
    using A(2) [of n s m k v] by (auto simp: hm_critnib_tag_def tag_eqs)
  show "True \<Longrightarrow> critnib_repr cap (Suc n) s m \<Longrightarrow> k \<in> dom m \<Longrightarrow>
      \<exists>s'. hm_insert (hm_critnib_tag mal) k v s = Some (EEXIST, s') \<and> critnib_repr cap n s' m"
    using A(2) [of n s m k v] by (auto simp: hm_critnib_tag_def tag_eqs)
  show "critnib_repr cap (Suc n) s m \<Longrightarrow> k \<in> dom m \<or> False \<Longrightarrow>
      \<exists>s'. hm_remove (hm_critnib_tag mal) k s = Some (val_of (m k), s') \<and> critnib_repr cap n s' (m(k := None))"
    using A(3) [of n s m k] tag_remove_rel [of s m k] by (auto simp: hm_critnib_tag_def critnib_repr_def)
  show "critnib_repr cap n s m \<Longrightarrow> hm_get (hm_critnib_tag mal) k s = Some (val_of (m k))"
    using A(4) by (simp add: hm_critnib_tag_def tag_eqs)
  show "critnib_repr cap n s m \<Longrightarrow>
      \<exists>v. hm_find_le (hm_critnib_tag mal) k s = Some v \<and> le_value m k v"
    using A(5) by (simp add: hm_critnib_tag_def tag_eqs)
qed simp

interpretation ff32: serving_allocator "first_fit 8388608 :: tag_allocator" 8388608
  by (rule first_fit_serving) simp_all

interpretation critnib_tag_hm: hashmap_le "hm_critnib_tag (first_fit 8388608)" 4194304 "critnib_repr 8388608"
  "\<lparr>nodes = Map.empty, leaves = Map.empty\<rparr>" True False
  using hm_critnib_tag_hashmap_le [OF ff32.serving_allocator_axioms] by simp

subsection \<open>Properties\<close>

text \<open>
  C10.  All of \<open>src/critnib-tag.c\<close> but its \<open>remove\<close> computes the functions of
  \<open>src/critnib.c\<close>, in every state, valid or not.
\<close>

theorem critnib_tag_equivalent:
  "critnib_tag_new mal h = critnib_new mal h \<and>
   critnib_tag_delete s = critnib_delete s \<and>
   critnib_tag_insert mal k v s = critnib_insert mal k v s \<and>
   critnib_tag_get k s = critnib_get k s \<and>
   critnib_tag_find_le k s = critnib_find_le k s"
  by (intro conjI) (rule tag_eqs)+

text \<open>
  C11.  \<open>critnib_tag_remove\<close> removes a key that is present and returns its value.  For an
  absent key it either behaves as a removal that finds nothing or does not return normally.
\<close>

theorem critnib_tag_remove_correct:
  assumes "critnib_rel s m"
  shows "(\<exists>s'. critnib_tag_remove k s = Some (val_of (m k), s') \<and> critnib_rel s' (m(k := None)))
    \<or> k \<notin> dom m \<and> critnib_tag_remove k s = None"
  using tag_remove_rel [OF assms, of k] critnib_remove_rel [OF assms, of k] by auto

theorem critnib_tag_remove_correct_witness:
  "\<exists>s'. critnib_tag_remove 2 demo = Some (20, s') \<and> critnib_rel s' [1 \<mapsto> 10]"
  using critnib_tag_remove_correct [OF demo_rel, of 2] by auto

text \<open>
  C12.  The missing NULL test of \<open>critnib_tag_remove\<close> (\<open>src/critnib.c\<close> has it): in the
  consistent structure with the keys 1 and 2, removing the absent key 5 dereferences NULL, where
  \<open>critnib_remove\<close> returns NULL.
\<close>

theorem critnib_tag_remove_absent_crashes:
  "critnib_rel (demo :: tag_cstate) [1 \<mapsto> 10, 2 \<mapsto> 20] \<and>
   critnib_tag_remove 5 demo = None \<and> (\<exists>s'. critnib_remove 5 (demo :: tag_cstate) = Some (NULL, s'))"
proof (intro conjI)
  show "critnib_rel (demo :: tag_cstate) [1 \<mapsto> 10, 2 \<mapsto> 20]" by (rule demo_rel)
  have null: "tag_remove_descend h k NULL kp n np = None" if "nodes h NULL = None" for h k kp n np
    using that by (subst tag_remove_descend.simps) (simp add: is_leaf_def)
  have "tag_remove_descend demo_heap 5 48 Root 48 Root = None"
    by (subst tag_remove_descend.simps) (simp add: is_leaf_def demo_heap_def NIB_def null)
  then show "critnib_tag_remove 5 demo = None"
    by (simp add: critnib_tag_remove_def demo_def is_leaf_def DELETED_LIFE_def)
  show "\<exists>s'. critnib_remove 5 (demo :: tag_cstate) = Some (NULL, s')"
    using critnib_remove_rel [OF demo_rel, of 5] by auto
qed

text \<open>
  C13.  Sequences of calls in which only present keys are removed: a critnib_tag answers as a
  finite map and leaves no memory behind.
\<close>

theorem critnib_tag_session_refines:
  assumes "serving_allocator mal cap" "length cs \<le> cap div 2" "permitted True False Map.empty cs"
  shows "session (hm_critnib_tag mal) cs = Some (expect Map.empty cs, \<lparr>nodes = Map.empty, leaves = Map.empty\<rparr>)"
  using hashmap.session_ok [OF hashmap_le.axioms(1) [OF hm_critnib_tag_hashmap_le [OF assms(1)]] assms(2,3)] .

theorem critnib_tag_session_refines_witness:
  "session (hm_critnib_tag (first_fit 8388608)) [Insert 5 50, Insert 5 51, Get 6, Remove 5, Get 5]
   = Some ([Status 0, Status EEXIST, Value 0, Value 50, Value 0], \<lparr>nodes = Map.empty, leaves = Map.empty\<rparr>)"
  using critnib_tag_session_refines [OF ff32.serving_allocator_axioms, of "[Insert 5 50, Insert 5 51, Get 6, Remove 5, Get 5]"]
  by simp

end
