(* ===== verification/Critbit_Model.thy ===== *)
theory Critbit_Model
  imports Hashmap
begin

text \<open>
  The operations of \<open>src/critbit.c\<close>: a binary critbit tree that branches on the lowest bit
  in which keys differ, each insertion allocating the leaf and the inner node it may need as one
  block of two adjacent structs (\<open>k\<close> and \<open>m = k + 1\<close>).

  The heap maps addresses to structs and knows which addresses begin a block that \<open>Free\<close>
  accepts.  A leaf is a node whose field \<open>bit\<close> is 0; its value is in \<open>child[0]\<close>.  The
  progress messages printed by the code have no counterpart.
\<close>

record critbit_node =
  bchild :: "ptr list"
  bpath :: u64
  bbit :: u64

record critbit =
  broot :: ptr
  bmutex :: bool
  bdeleted_node :: ptr

record bheap =
  cells :: "ptr \<rightharpoonup> critbit_node"
  starts :: "ptr \<Rightarrow> bool"

type_synonym bstate = "bheap \<times> critbit"

datatype bslot = BRoot | BChild ptr nat

record ballocator =
  zalloc_pair :: "bheap \<Rightarrow> ptr"
  zalloc_head :: "bheap \<Rightarrow> ptr"

text \<open>\<open>sizeof(struct critbit_node)\<close>.\<close>

definition NODE_SIZE :: ptr where "NODE_SIZE = 32"

definition set_cell :: "ptr \<Rightarrow> critbit_node \<Rightarrow> bheap \<Rightarrow> bheap" where
  "set_cell a nd h = h\<lparr>cells := (cells h)(a \<mapsto> nd)\<rparr>"

fun bstore :: "bslot \<Rightarrow> ptr \<Rightarrow> bstate \<Rightarrow> bstate option" where
  "bstore BRoot p (h, c) = Some (h, c\<lparr>broot := p\<rparr>)"
| "bstore (BChild n i) p (h, c) = do {
     nd \<leftarrow> cells h n;
     Some (set_cell n (nd\<lparr>bchild := (bchild nd)[i := p]\<rparr>) h, c)
   }"

text \<open>\<open>Free\<close> of a block of two nodes.\<close>

definition bfree :: "ptr \<Rightarrow> bheap \<Rightarrow> bheap option" where
  "bfree a h =
     (if a = NULL then Some h
      else if \<not> starts h a then None
      else Some \<lparr>cells = (cells h)(a := None, a + NODE_SIZE := None), starts = (starts h)(a := False)\<rparr>)"

fun bit_lock :: "bstate \<Rightarrow> bstate option" where
  "bit_lock (h, c) = (if bmutex c then None else Some (h, c\<lparr>bmutex := True\<rparr>))"

fun bit_unlock :: "bstate \<Rightarrow> bstate" where
  "bit_unlock (h, c) = (h, c\<lparr>bmutex := False\<rparr>)"

definition critbit_new :: "ballocator \<Rightarrow> bheap \<Rightarrow> bstate option" where
  "critbit_new mal h =
     (if zalloc_head mal h = NULL then None
      else Some (h, \<lparr>broot = NULL, bmutex = False, bdeleted_node = NULL\<rparr>))"

fun critbit_free_node :: "ptr \<Rightarrow> bstate \<Rightarrow> bstate option" where
  "critbit_free_node n (h, c) = do {
     nd \<leftarrow> cells h n;
     Some (set_cell n (nd\<lparr>bchild := (bchild nd)[0 := bdeleted_node c]\<rparr>) h, c\<lparr>bdeleted_node := n\<rparr>)
   }"

partial_function (option) critbit_delete_node :: "ptr \<Rightarrow> bstate \<Rightarrow> bstate option" where
  [code]: "critbit_delete_node n s = do {
     nd \<leftarrow> cells (fst s) n;
     if bbit nd = 0 then critbit_free_node n s
     else do {
       s \<leftarrow> (if bchild nd ! 0 \<noteq> NULL then critbit_delete_node (bchild nd ! 0) s else Some s);
       nd \<leftarrow> cells (fst s) n;
       if bchild nd ! 1 \<noteq> NULL then critbit_delete_node (bchild nd ! 1) s else Some s
     }
   }"

partial_function (option) critbit_free_deleted :: "bheap \<Rightarrow> ptr \<Rightarrow> bheap option" where
  [code]: "critbit_free_deleted h m =
     (if m = NULL then Some h
      else do {
        nd \<leftarrow> cells h m;
        let mm = bchild nd ! 0;
        h' \<leftarrow> bfree m h;
        critbit_free_deleted h' mm
      })"

definition critbit_delete :: "bstate \<Rightarrow> bheap option" where
  "critbit_delete s = do {
     (h, c) \<leftarrow> (if broot (snd s) \<noteq> NULL then critbit_delete_node (broot (snd s)) s else Some s);
     if bmutex c then None else critbit_free_deleted h (bdeleted_node c)
   }"

text \<open>
  \<open>alloc_node\<close>: the condition \<open>1 || !c->deleted_node\<close> always takes the first branch, so the
  pool is never used; \<open>Zalloc\<close> zeroes both nodes of the block.
\<close>

definition zeroed :: critbit_node where
  "zeroed = \<lparr>bchild = [NULL, NULL], bpath = 0, bbit = 0\<rparr>"

definition critbit_alloc_node :: "ballocator \<Rightarrow> bheap \<Rightarrow> ptr \<times> bheap" where
  "critbit_alloc_node mal h =
     (let a = zalloc_pair mal h
      in if a = NULL then (NULL, h)
         else (a, \<lparr>cells = (cells h)(a \<mapsto> zeroed, a + NODE_SIZE \<mapsto> zeroed), starts = (starts h)(a := True)\<rparr>))"

partial_function (option) critbit_insert_descend ::
  "bheap \<Rightarrow> u64 \<Rightarrow> ptr \<Rightarrow> bslot \<Rightarrow> (ptr \<times> bslot) option" where
  [code]: "critbit_insert_descend h k n parent = do {
     nd \<leftarrow> cells h n;
     if bbit nd \<noteq> 0 \<and> k AND (bbit nd - 1) = bpath nd then do {
       let i = (if bbit nd AND k \<noteq> 0 then 1 else 0);
       critbit_insert_descend h k (bchild nd ! i) (BChild n i)
     } else Some (n, parent)
   }"

text \<open>\<open>insert\<close> under the mutex, from the load of the root; \<open>k\<close> is the new leaf, \<open>m\<close> the node after it.\<close>

definition critbit_insert_link :: "u64 \<Rightarrow> ptr \<Rightarrow> bstate \<Rightarrow> (int \<times> bstate) option" where
  "critbit_insert_link key k s = do {
     let (h, c) = s;
     let n = broot c;
     if n = NULL then Some (0, bit_unlock (h, c\<lparr>broot := k\<rparr>))
     else do {
       (n, parent) \<leftarrow> critbit_insert_descend h key n BRoot;
       nn \<leftarrow> cells h n;
       let d = bpath nn XOR key;
       let at = d AND (- d);
       let m = k + NODE_SIZE;
       let dir = (if key AND at \<noteq> 0 then 1 else 0);
       nd \<leftarrow> cells h m;
       let h = set_cell m (nd\<lparr>bchild := (bchild nd)[dir := k, 1 - dir := n],
                             bbit := at, bpath := key AND (at - 1)\<rparr>) h;
       s \<leftarrow> bstore parent m (h, c);
       Some (0, bit_unlock s)
     }
   }"

definition critbit_insert :: "ballocator \<Rightarrow> u64 \<Rightarrow> ptr \<Rightarrow> bstate \<Rightarrow> (int \<times> bstate) option" where
  "critbit_insert mal key v s = do {
     let (h, c) = s;
     let (k, h) = critbit_alloc_node mal h;
     if k = NULL then Some (ENOMEM, (h, c))
     else do {
       nd \<leftarrow> cells h k;
       let h = set_cell k (nd\<lparr>bpath := key, bchild := (bchild nd)[0 := v]\<rparr>) h;
       s \<leftarrow> bit_lock (h, c);
       critbit_insert_link key k s
     }
   }"

text \<open>The descent of \<open>remove\<close>: the leaf \<open>k\<close>, \<open>k_parent\<close>, \<open>n\<close> and \<open>n_parent\<close>.\<close>

partial_function (option) critbit_remove_descend ::
  "bheap \<Rightarrow> u64 \<Rightarrow> ptr \<Rightarrow> bslot \<Rightarrow> ptr \<Rightarrow> bslot \<Rightarrow> (ptr \<times> bslot \<times> ptr \<times> bslot) option" where
  [code]: "critbit_remove_descend h key k k_parent n n_parent = do {
     nd \<leftarrow> cells h k;
     if bbit nd \<noteq> 0 then do {
       let i = (if bbit nd AND key \<noteq> 0 then 1 else 0);
       critbit_remove_descend h key (bchild nd ! i) (BChild k i) k k_parent
     } else Some (k, k_parent, n, n_parent)
   }"

definition critbit_remove :: "u64 \<Rightarrow> bstate \<Rightarrow> (ptr \<times> bstate) option" where
  "critbit_remove key s = do {
     (h, c) \<leftarrow> bit_lock s;
     let n = broot c;
     if n = NULL then Some (NULL, bit_unlock (h, c))
     else do {
       nd \<leftarrow> cells h n;
       if bbit nd = 0 then
         (if bpath nd = key then do {
            s \<leftarrow> critbit_free_node n (h, c\<lparr>broot := NULL\<rparr>);
            Some (bchild nd ! 0, bit_unlock s)
          } else Some (NULL, bit_unlock (h, c)))
       else do {
         (k, k_parent, n, n_parent) \<leftarrow> critbit_remove_descend h key n BRoot n BRoot;
         kd \<leftarrow> cells h k;
         if bpath kd \<noteq> key then Some (NULL, bit_unlock (h, c))
         else do {
           nd \<leftarrow> cells h n;
           (h, c) \<leftarrow> (if k_parent = BChild n 0 then bstore n_parent (bchild nd ! 1) (h, c)
                     else bstore n_parent (bchild nd ! 0) (h, c));
           kd \<leftarrow> cells h k;
           s \<leftarrow> critbit_free_node k (h, c);
           Some (bchild kd ! 0, bit_unlock s)
         }
       }
     }
   }"

partial_function (option) critbit_get_descend :: "bheap \<Rightarrow> u64 \<Rightarrow> ptr \<Rightarrow> ptr option" where
  [code]: "critbit_get_descend h key n = do {
     nd \<leftarrow> cells h n;
     if bbit nd \<noteq> 0
     then critbit_get_descend h key (bchild nd ! (if bbit nd AND key \<noteq> 0 then 1 else 0))
     else Some n
   }"

definition critbit_get :: "u64 \<Rightarrow> bstate \<Rightarrow> ptr option" where
  "critbit_get key s = do {
     let (h, c) = s;
     let n = broot c;
     if n = NULL then Some NULL
     else do {
       n \<leftarrow> critbit_get_descend h key n;
       nd \<leftarrow> cells h n;
       Some (if bpath nd = key then bchild nd ! 0 else NULL)
     }
   }"

text \<open>\<open>find_le\<close> aborts.\<close>

definition critbit_find_le :: "u64 \<Rightarrow> bstate \<Rightarrow> ptr option" where
  "critbit_find_le key s = None"

end
