(* ===== verification/Critbit_Tree.thy ===== *)
theory Critbit_Tree
  imports Critbit_Model Ownership
begin

text \<open>
  The trees of \<open>src/critbit.c\<close> without the heap: a node branches on the lowest bit in
  which the keys below it differ and stores the bits they share underneath.  \<open>bwalk\<close>
  follows a key as the loops of the code do, \<open>bsubst\<close> replaces the subtree where the walk
  ends; the lemmas say what both do to the well-formedness and to the map of a tree.
\<close>

subsection \<open>Bits of keys\<close>

lemma lowest_bit:
  assumes "x \<noteq> (0::u64)"
  obtains d where "d < 64" "x AND - x = 2 ^ d" "bit x d" "\<And>i. i < d \<Longrightarrow> \<not> bit x i"
proof -
  have ex: "\<exists>i. bit x i" using assms by (metis bit_eqI bit_0_eq bot_apply bot_bool_def)
  define d where "d = (LEAST i. bit x i)"
  have d: "bit x d" "\<And>i. i < d \<Longrightarrow> \<not> bit x i"
    using LeastI_ex [OF ex] not_less_Least unfolding d_def by blast+
  have d64: "d < 64" using bit_imp_le_length [OF d(1)] by simp
  define b where "b = x AND NOT (mask (Suc d))"
  have bb: "bit b n \<longleftrightarrow> bit x n \<and> d < n" for n
    unfolding b_def using bit_imp_le_length [of x n]
    by (auto simp: bit_and_iff bit_not_iff bit_mask_iff less_Suc_eq_le not_le)
  have "x = 2 ^ d OR b"
  proof (rule bit_eqI)
    fix n show "bit x n = bit (2 ^ d OR b) n"
      using d bb [of n] d64 by (cases "n = d"; cases "n < d") (auto simp: bit_or_iff bit_exp_iff)
  qed
  also have "\<dots> = 2 ^ d + b"
    by (rule disjunctive_add_eq_or [symmetric], rule bit_eqI) (auto simp: bit_and_iff bit_exp_iff bb)
  finally have "x - 1 = mask d + b" by (simp add: mask_eq_exp_minus_1)
  also have "\<dots> = mask d OR b"
    by (rule disjunctive_add_eq_or, rule bit_eqI) (auto simp: bit_and_iff bit_mask_iff bb)
  finally have m: "x - 1 = mask d OR b" .
  have "x AND - x = 2 ^ d"
  proof (rule bit_eqI)
    fix n
    assume "possible_bit TYPE(u64) n"
    then have n: "n < 64" by simp
    have "bit (- x) n \<longleftrightarrow> \<not> bit (x - 1) n" using n by (simp add: bit_minus_iff)
    also have "\<dots> \<longleftrightarrow> \<not> (n < d \<or> bit b n)" unfolding m using n d64 by (auto simp: bit_or_iff bit_mask_iff)
    finally show "bit (x AND - x) n = bit (2 ^ d :: u64) n"
      using d bb [of n] n d64 by (cases n d rule: linorder_cases) (auto simp: bit_and_iff bit_exp_iff)
  qed
  then show thesis using d d64 that [of d] by blast
qed

lemma and_low: "k AND (2 ^ e - 1) = take_bit e (k :: u64)"
  by (simp add: take_bit_eq_mask mask_eq_exp_minus_1)

lemma bit_pow: "bit (2 ^ e :: u64) n \<longleftrightarrow> n = e \<and> e < 64"
  by (auto simp: bit_exp_iff)

lemma and_pow: "e < 64 \<Longrightarrow> (2 ^ e AND (k :: u64)) = 0 \<longleftrightarrow> \<not> bit k e"
  by (auto simp: u64_eq_iff_bits bit_and_iff bit_pow)

lemma pow_nz: "e < 64 \<Longrightarrow> (2 ^ e :: u64) \<noteq> 0"
  by (auto simp: u64_eq_iff_bits bit_pow)

lemma take_bit_eq_iff: "take_bit e (x :: u64) = take_bit e y \<longleftrightarrow> (\<forall>i<e. bit x i = bit y i)"
  using bit_imp_le_length by (fastforce simp: u64_eq_iff_bits bit_take_bit_iff)

subsection \<open>Trees\<close>

datatype btree = BLeaf ptr u64 ptr | BNode ptr nat u64 btree btree

fun bentries :: "btree \<Rightarrow> (u64 \<times> ptr) list" where
  "bentries (BLeaf a k v) = [(k, v)]"
| "bentries (BNode a e p l r) = bentries l @ bentries r"

definition bkeys :: "btree \<Rightarrow> u64 set" where
  "bkeys t = fst ` set (bentries t)"

lemma bkeys_simps [simp]: "bkeys (BLeaf a k v) = {k}" "bkeys (BNode a e p l r) = bkeys l \<union> bkeys r"
  by (simp_all add: bkeys_def image_Un)

lemma bkeys_nonempty: "bkeys t \<noteq> {}"
  by (induction t) auto

fun wfb :: "btree \<Rightarrow> bool" where
  "wfb (BLeaf a k v) = True"
| "wfb (BNode a e p l r) \<longleftrightarrow>
     e < 64 \<and> (\<forall>k\<in>bkeys l \<union> bkeys r. take_bit e k = p)
     \<and> (\<forall>k\<in>bkeys l. \<not> bit k e) \<and> (\<forall>k\<in>bkeys r. bit k e) \<and> wfb l \<and> wfb r"

definition bmap :: "btree \<Rightarrow> u64 \<rightharpoonup> ptr" where
  "bmap t = map_of (bentries t)"

lemma dom_bmap: "dom (bmap t) = bkeys t"
  by (simp add: bmap_def bkeys_def dom_map_of_conv_image_fst)

lemma wfb_disjoint: "wfb (BNode a e p l r) \<Longrightarrow> bkeys l \<inter> bkeys r = {}"
  by auto

lemma distinct_bentries: "wfb t \<Longrightarrow> distinct (map fst (bentries t))"
proof (induction t)
  case (BNode a e p l r)
  then show ?case using wfb_disjoint [OF BNode.prems] by (simp add: bkeys_def)
qed simp

lemma bmap_Some_iff: "wfb t \<Longrightarrow> bmap t k = Some v \<longleftrightarrow> (k, v) \<in> set (bentries t)"
  by (simp add: bmap_def distinct_bentries)

lemma bmap_eqI: "wfb t \<Longrightarrow> (\<And>k v. (k, v) \<in> set (bentries t) \<longleftrightarrow> m k = Some v) \<Longrightarrow> bmap t = m"
  by (rule ext) (metis bmap_Some_iff not_Some_eq)

text \<open>Walking towards a key as long as \<open>Q\<close> holds, and replacing the subtree where the walk ends.\<close>

fun bwalk :: "(btree \<Rightarrow> bool) \<Rightarrow> u64 \<Rightarrow> btree \<Rightarrow> btree" where
  "bwalk Q k (BNode a e p l r) =
     (if Q (BNode a e p l r) then (if bit k e then bwalk Q k r else bwalk Q k l) else BNode a e p l r)"
| "bwalk Q k t = t"

fun bsubst :: "(btree \<Rightarrow> bool) \<Rightarrow> u64 \<Rightarrow> btree \<Rightarrow> btree \<Rightarrow> btree" where
  "bsubst Q k x (BNode a e p l r) =
     (if Q (BNode a e p l r)
      then (if bit k e then BNode a e p l (bsubst Q k x r) else BNode a e p (bsubst Q k x l) r)
      else x)"
| "bsubst Q k x t = x"

fun bslot_of :: "(btree \<Rightarrow> bool) \<Rightarrow> u64 \<Rightarrow> bslot \<Rightarrow> btree \<Rightarrow> bslot" where
  "bslot_of Q k par (BNode a e p l r) =
     (if Q (BNode a e p l r)
      then (if bit k e then bslot_of Q k (BChild a 1) r else bslot_of Q k (BChild a 0) l)
      else par)"
| "bslot_of Q k par t = par"

fun bmatches :: "u64 \<Rightarrow> btree \<Rightarrow> bool" where
  "bmatches k (BNode a e p l r) \<longleftrightarrow> take_bit e k = p"
| "bmatches k t = False"

lemma wfb_walk: "wfb t \<Longrightarrow> wfb (bwalk Q k t)"
  by (induction Q k t rule: bwalk.induct) auto

lemma bwalk_keys: "bkeys (bwalk Q k t) \<subseteq> bkeys t"
  by (induction Q k t rule: bwalk.induct) auto

lemma bwalk_entries: "set (bentries (bwalk Q k t)) \<subseteq> set (bentries t)"
  by (induction Q k t rule: bwalk.induct) auto

lemma bwalk_finds: "wfb t \<Longrightarrow> k \<in> bkeys t \<Longrightarrow> \<exists>a v. bwalk (bmatches k) k t = BLeaf a k v"
  by (induction "bmatches k" k t rule: bwalk.induct) auto

lemma bwalk_True_finds: "wfb t \<Longrightarrow> k \<in> bkeys t \<Longrightarrow> k \<in> bkeys (bwalk (\<lambda>_. True) k t)"
  by (induction "\<lambda>_::btree. True" k t rule: bwalk.induct) auto

lemma bwalk_True_leaf: "\<exists>a k' v. bwalk (\<lambda>_. True) k t = BLeaf a k' v"
  by (induction "\<lambda>_::btree. True" k t rule: bwalk.induct) auto

lemma bwalk_stops: "bwalk (bmatches k) k t = BNode a e p l r \<Longrightarrow> take_bit e k \<noteq> p"
  by (induction "bmatches k" k t rule: bwalk.induct) (auto split: if_splits)


lemma bsubst_entries:
  "mset (bentries (bsubst Q k x t)) + mset (bentries (bwalk Q k t)) = mset (bentries t) + mset (bentries x)"
  by (induction Q k x t rule: bsubst.induct) (auto simp: ac_simps)

lemma bkeys_mset: "bkeys t = fst ` set_mset (mset (bentries t))"
  by (simp add: bkeys_def)

definition bpath_of :: "btree \<Rightarrow> u64" where
  "bpath_of t = (case t of BLeaf a k v \<Rightarrow> k | BNode a e p l r \<Rightarrow> p)"

definition bjoin :: "ptr \<Rightarrow> nat \<Rightarrow> u64 \<Rightarrow> btree \<Rightarrow> btree \<Rightarrow> btree" where
  "bjoin m d k lf n = (if bit k d then BNode m d (take_bit d k) n lf else BNode m d (take_bit d k) lf n)"

text \<open>Where the walk of an insertion stops, the path of the node differs from the key below its bit.\<close>

lemma parting:
  assumes w: "wfb n" and stop: "bwalk (bmatches k) k n = n" and k: "k \<notin> bkeys n"
  shows "bpath_of n \<noteq> k"
    and "bit (bpath_of n XOR k) d \<Longrightarrow> (\<And>i. i < d \<Longrightarrow> \<not> bit (bpath_of n XOR k) i) \<Longrightarrow> x \<in> bkeys n \<Longrightarrow>
      take_bit d x = take_bit d k \<and> bit x d \<noteq> bit k d"
proof -
  have "bpath_of n \<noteq> k \<and> (bit (bpath_of n XOR k) d \<longrightarrow> (\<forall>i<d. \<not> bit (bpath_of n XOR k) i) \<longrightarrow> x \<in> bkeys n \<longrightarrow>
      take_bit d x = take_bit d k \<and> bit x d \<noteq> bit k d)" for d x
  proof (cases n)
    case (BLeaf a k' v)
    then show ?thesis using k by (auto simp: bpath_of_def take_bit_eq_iff bit_xor_iff)
  next
    case (BNode a e p l r)
    then have ne: "take_bit e k \<noteq> p" using bwalk_stops stop by metis
    have px: "x \<in> bkeys n \<Longrightarrow> p = take_bit e x" for x using w BNode by auto
    obtain y where "y \<in> bkeys n" using bkeys_nonempty by blast
    then have tp: "take_bit e p = p" using px [of y] by simp
    then have pk: "p \<noteq> k" using ne by auto
    from ne tp have "\<exists>i<e. bit p i \<noteq> bit k i" using take_bit_eq_iff [of e k p] by auto
    then obtain i where i: "i < e" "bit p i \<noteq> bit k i" by blast
    have "take_bit d x = take_bit d k \<and> bit x d \<noteq> bit k d"
      if d: "bit (p XOR k) d" "\<forall>i<d. \<not> bit (p XOR k) i" and x: "x \<in> bkeys n"
    proof -
      have "d \<le> i" using d(2) i(2) by (meson bit_xor_iff not_le_imp_less)
      then have "d < e" using i(1) by simp
      have b: "j < e \<Longrightarrow> bit x j = bit p j" for j using px [OF x] by (simp add: bit_take_bit_iff)
      show ?thesis using d b \<open>d < e\<close> by (auto simp: take_bit_eq_iff bit_xor_iff)
    qed
    then show ?thesis using BNode pk by (simp add: bpath_of_def)
  qed
  then show "bpath_of n \<noteq> k"
    "bit (bpath_of n XOR k) d \<Longrightarrow> (\<And>i. i < d \<Longrightarrow> \<not> bit (bpath_of n XOR k) i) \<Longrightarrow> x \<in> bkeys n \<Longrightarrow>
      take_bit d x = take_bit d k \<and> bit x d \<noteq> bit k d"
    by blast+
qed

lemma bjoin_wf:
  assumes "wfb n" "d < 64" "\<And>x. x \<in> bkeys n \<Longrightarrow> take_bit d x = take_bit d k \<and> bit x d \<noteq> bit k d"
  shows "wfb (bjoin m d k (BLeaf a k v) n)"
    "mset (bentries (bjoin m d k (BLeaf a k v) n)) = add_mset (k, v) (mset (bentries n))"
  using assms by (auto simp: bjoin_def)

lemma bwalk_bwalk [simp]: "bwalk Q k (bwalk Q k t) = bwalk Q k t"
  by (induction Q k t rule: bwalk.induct) auto

lemma bsubst_wf_insert:
  "wfb t \<Longrightarrow> wfb x \<Longrightarrow> bkeys x = insert k (bkeys (bwalk (bmatches k) k t)) \<Longrightarrow>
   wfb (bsubst (bmatches k) k x t) \<and> bkeys (bsubst (bmatches k) k x t) \<subseteq> insert k (bkeys t)"
proof (induction "bmatches k" k x t rule: bsubst.induct)
  case (1 k x a e p l r)
  show ?case
  proof (cases "bmatches k (BNode a e p l r)")
    case True
    then show ?thesis using 1 by (cases "bit k e") auto
  qed (use 1 in auto)
qed auto

lemma bsubst_wf_remove:
  "wfb t \<Longrightarrow> wfb x \<Longrightarrow> bkeys x \<subseteq> bkeys (bwalk Q k t) \<Longrightarrow>
   wfb (bsubst Q k x t) \<and> bkeys (bsubst Q k x t) \<subseteq> bkeys t"
proof (induction Q k x t rule: bsubst.induct)
  case (1 Q k x a e p l r)
  show ?case
  proof (cases "Q (BNode a e p l r)")
    case True
    then show ?thesis using 1 by (cases "bit k e") auto
  qed (use 1 in auto)
qed auto

lemma bmap_insert:
  assumes "wfb t'" "mset (bentries t') = add_mset (k, v) (mset (bentries t))" "wfb t" "k \<notin> bkeys t"
  shows "bmap t' = (bmap t)(k \<mapsto> v)"
proof (rule bmap_eqI [OF assms(1)])
  have "set (bentries t') = insert (k, v) (set (bentries t))"
    using arg_cong [OF assms(2), of set_mset] by simp
  then show "(x, y) \<in> set (bentries t') \<longleftrightarrow> ((bmap t)(k \<mapsto> v)) x = Some y" for x y
    using assms(4) by (auto simp: bmap_Some_iff [OF assms(3)] bkeys_def) force
qed

lemma bmap_remove:
  assumes "wfb t'" "mset (bentries t) = add_mset (k, v) (mset (bentries t'))" "wfb t"
  shows "bmap t' = (bmap t)(k := None)" "bmap t k = Some v"
proof -
  have set: "set (bentries t) = insert (k, v) (set (bentries t'))"
    using arg_cong [OF assms(2), of set_mset] by simp
  have "mset (map fst (bentries t)) = mset (map fst ((k, v) # bentries t'))" using assms(2) by simp
  then have "distinct (map fst ((k, v) # bentries t'))"
    using distinct_bentries [OF assms(3)] mset_eq_imp_distinct_iff by blast
  then have k: "k \<notin> bkeys t'" by (simp add: bkeys_def)
  show "bmap t' = (bmap t)(k := None)"
    by (rule bmap_eqI [OF assms(1)]) (use k set in \<open>auto simp: bmap_Some_iff [OF assms(3)] bkeys_def image_iff\<close>)
  show "bmap t k = Some v" using set by (simp add: bmap_Some_iff [OF assms(3)])
qed

end
