(* ===== verification/Critbit_Heap.thy ===== *)
theory Critbit_Heap
  imports Critbit_Tree
begin

text \<open>
  Critbit trees in the heap.  \<open>bholds\<close> says that a tree lies in the heap, \<open>binv\<close> is the
  invariant of a structure: every block is owned once, by a leaf of the tree, by the chain of
  deleted nodes or by the operation under way, and the inner nodes are second halves of blocks.
  \<open>bstore_subst\<close> is the one store with which insertion and removal change the tree.
\<close>

subsection \<open>Trees in the heap\<close>

fun bptr :: "btree \<Rightarrow> ptr" where
  "bptr (BLeaf a k v) = a"
| "bptr (BNode a e p l r) = a"

fun bholds :: "bheap \<Rightarrow> btree \<Rightarrow> bool" where
  "bholds h (BLeaf a k v) \<longleftrightarrow> a \<noteq> NULL \<and> (\<exists>x. cells h a = Some \<lparr>bchild = [v, x], bpath = k, bbit = 0\<rparr>)"
| "bholds h (BNode a e p l r) \<longleftrightarrow>
     a \<noteq> NULL \<and> cells h a = Some \<lparr>bchild = [bptr l, bptr r], bpath = p, bbit = 2 ^ e\<rparr> \<and> bholds h l \<and> bholds h r"

fun binner :: "btree \<Rightarrow> ptr list" where
  "binner (BLeaf a k v) = []"
| "binner (BNode a e p l r) = a # binner l @ binner r"

fun bleaves :: "btree \<Rightarrow> ptr list" where
  "bleaves (BLeaf a k v) = [a]"
| "bleaves (BNode a e p l r) = bleaves l @ bleaves r"

abbreviation baddrs :: "btree \<Rightarrow> ptr set" where
  "baddrs t \<equiv> set (binner t) \<union> set (bleaves t)"

lemma set_cell_simps [simp]: "cells (set_cell a nd h) = (cells h)(a \<mapsto> nd)" "starts (set_cell a nd h) = starts h"
  by (simp_all add: set_cell_def)

lemma bholds_frame:
  "bholds h t \<Longrightarrow> (\<And>a. a \<in> baddrs t \<Longrightarrow> cells h' a = cells h a) \<Longrightarrow> bholds h' t"
  by (induction t) auto

lemma bholds_set_cell: "bholds h t \<Longrightarrow> a \<notin> baddrs t \<Longrightarrow> bholds (set_cell a nd h) t"
  by (erule bholds_frame) auto

lemma bholds_walk: "bholds h t \<Longrightarrow> bholds h (bwalk Q k t)"
  by (induction Q k t rule: bwalk.induct) auto

lemma bptr_nonnull: "bholds h t \<Longrightarrow> bptr t \<noteq> NULL"
  by (cases t) auto

lemma bsubst_addrs:
  "mset (binner (bsubst Q k x t)) + mset (binner (bwalk Q k t)) = mset (binner t) + mset (binner x)"
  "mset (bleaves (bsubst Q k x t)) + mset (bleaves (bwalk Q k t)) = mset (bleaves t) + mset (bleaves x)"
  by (induction Q k x t rule: bsubst.induct) (auto simp: ac_simps)

lemma bwalk_addrs: "set (binner (bwalk Q k t)) \<subseteq> set (binner t)" "set (bleaves (bwalk Q k t)) \<subseteq> set (bleaves t)"
  by (induction Q k t rule: bwalk.induct) auto

definition bseparate :: "btree \<Rightarrow> bool" where
  "bseparate t \<longleftrightarrow> distinct (binner t) \<and> distinct (bleaves t) \<and> set (binner t) \<inter> set (bleaves t) = {}"

lemma bseparate_Node:
  "bseparate (BNode a e p l r) \<Longrightarrow> bseparate l \<and> bseparate r \<and> a \<notin> baddrs l \<and> a \<notin> baddrs r \<and> baddrs l \<inter> baddrs r = {}"
  unfolding bseparate_def by auto

lemma bholds_subst:
  assumes "bholds h t" "bseparate t"
  shows "(bslot_of Q k par t = par \<and> bwalk Q k t = t \<and> bsubst Q k x t = x)
    \<or> (\<exists>b j nd. bslot_of Q k par t = BChild b j \<and> b \<in> set (binner t) \<and> b \<notin> baddrs (bwalk Q k t) \<and> cells h b = Some nd
        \<and> bptr (bsubst Q k x t) = bptr t
        \<and> (bholds h x \<and> b \<notin> baddrs x \<longrightarrow>
            bholds (set_cell b (nd\<lparr>bchild := (bchild nd)[j := bptr x]\<rparr>) h) (bsubst Q k x t)))"
  using assms
proof (induction Q k x t arbitrary: par rule: bsubst.induct)
  case (1 Q k x a e p l r)
  let ?t = "BNode a e p l r"
  note S = bseparate_Node [OF 1(4)]
  have na: "cells h a = Some \<lparr>bchild = [bptr l, bptr r], bpath = p, bbit = 2 ^ e\<rparr>" "a \<noteq> NULL" "bholds h l" "bholds h r"
    using 1(3) by auto
  have sl: "bseparate l" and sr: "bseparate r" using S by simp_all
  show ?case
  proof (cases "Q ?t")
    case False
    then show ?thesis by auto
  next
    case Q: True
    show ?thesis
    proof (cases "bit k e")
      case True
      from 1(1) [OF Q True na(4) sr, of "BChild a 1"] show ?thesis
      proof (elim disjE exE conjE)
        assume e: "bslot_of Q k (BChild a 1) r = BChild a 1" "bwalk Q k r = r" "bsubst Q k x r = x"
        let ?nd = "\<lparr>bchild = [bptr l, bptr r], bpath = p, bbit = 2 ^ e\<rparr>"
        have "bholds (set_cell a (?nd\<lparr>bchild := (bchild ?nd)[1 := bptr x]\<rparr>) h) (bsubst Q k x ?t)"
          if "bholds h x" "a \<notin> baddrs x"
          using that na S Q True e by (simp add: bholds_set_cell)
        then show ?thesis using na(1) Q True e S by auto
      next
        fix b j nd
        assume e: "bslot_of Q k (BChild a 1) r = BChild b j" "b \<in> set (binner r)" "b \<notin> baddrs (bwalk Q k r)" "cells h b = Some nd"
          "bptr (bsubst Q k x r) = bptr r"
          "bholds h x \<and> b \<notin> baddrs x \<longrightarrow> bholds (set_cell b (nd\<lparr>bchild := (bchild nd)[j := bptr x]\<rparr>) h) (bsubst Q k x r)"
        have "b \<noteq> a" "b \<notin> baddrs l" using e(2) S by auto
        then have "bholds (set_cell b (nd\<lparr>bchild := (bchild nd)[j := bptr x]\<rparr>) h) (bsubst Q k x ?t)"
          if "bholds h x" "b \<notin> baddrs x"
          using that na Q True e by (simp add: bholds_set_cell)
        then show ?thesis using e Q True by auto
      qed
    next
      case False
      from 1(2) [OF Q False na(3) sl, of "BChild a 0"] show ?thesis
      proof (elim disjE exE conjE)
        assume e: "bslot_of Q k (BChild a 0) l = BChild a 0" "bwalk Q k l = l" "bsubst Q k x l = x"
        let ?nd = "\<lparr>bchild = [bptr l, bptr r], bpath = p, bbit = 2 ^ e\<rparr>"
        have "bholds (set_cell a (?nd\<lparr>bchild := (bchild ?nd)[0 := bptr x]\<rparr>) h) (bsubst Q k x ?t)"
          if "bholds h x" "a \<notin> baddrs x"
          using that na S Q False e by (simp add: bholds_set_cell)
        then show ?thesis using na(1) Q False e S by auto
      next
        fix b j nd
        assume e: "bslot_of Q k (BChild a 0) l = BChild b j" "b \<in> set (binner l)" "b \<notin> baddrs (bwalk Q k l)" "cells h b = Some nd"
          "bptr (bsubst Q k x l) = bptr l"
          "bholds h x \<and> b \<notin> baddrs x \<longrightarrow> bholds (set_cell b (nd\<lparr>bchild := (bchild nd)[j := bptr x]\<rparr>) h) (bsubst Q k x l)"
        have "b \<noteq> a" "b \<notin> baddrs r" using e(2) S by auto
        then have "bholds (set_cell b (nd\<lparr>bchild := (bchild nd)[j := bptr x]\<rparr>) h) (bsubst Q k x ?t)"
          if "bholds h x" "b \<notin> baddrs x"
          using that na Q False e by (simp add: bholds_set_cell)
        then show ?thesis using e Q False by auto
      qed
    qed
  qed
qed auto

text \<open>The descents of the code walk the tree.\<close>

lemma insert_descend_walk:
  "bholds h t \<Longrightarrow> wfb t \<Longrightarrow> critbit_insert_descend h k (bptr t) par =
     Some (bptr (bwalk (bmatches k) k t), bslot_of (bmatches k) k par t)"
proof (induction "bmatches k" k t arbitrary: par rule: bwalk.induct)
  case (1 k a e p l r)
  then have "e < 64" by simp
  then have e: "(2 ^ e :: u64) \<noteq> 0" "2 ^ e AND k = 0 \<longleftrightarrow> \<not> bit k e" by (simp_all add: pow_nz and_pow)
  with 1 show ?case
    by (subst critbit_insert_descend.simps) (auto simp: and_low Let_def)
next
  case (2 k a k' v)
  then show ?case by (subst critbit_insert_descend.simps) auto
qed

lemma get_descend_walk:
  "bholds h t \<Longrightarrow> wfb t \<Longrightarrow> critbit_get_descend h k (bptr t) = Some (bptr (bwalk (\<lambda>_. True) k t))"
proof (induction "\<lambda>_::btree. True" k t rule: bwalk.induct)
  case (1 k a e p l r)
  then have "e < 64" by simp
  then have e: "(2 ^ e :: u64) \<noteq> 0" "2 ^ e AND k = 0 \<longleftrightarrow> \<not> bit k e" by (simp_all add: pow_nz and_pow)
  with 1 show ?case by (subst critbit_get_descend.simps) auto
next
  case (2 k a k' v)
  then show ?case by (subst critbit_get_descend.simps) auto
qed


subsection \<open>The invariant\<close>

definition bheap_ok :: "bheap \<Rightarrow> bool" where
  "bheap_ok h \<longleftrightarrow>
     finite (Collect (starts h)) \<and> (\<forall>a. starts h a \<longrightarrow> a \<noteq> NULL \<and> a + NODE_SIZE \<noteq> NULL)
     \<and> (\<forall>a b. starts h a \<and> starts h b \<longrightarrow> a \<noteq> b + NODE_SIZE)
     \<and> dom (cells h) = Collect (starts h) \<union> (\<lambda>a. a + NODE_SIZE) ` Collect (starts h)
     \<and> (\<forall>a nd. cells h a = Some nd \<longrightarrow> length (bchild nd) = 2)"

fun bchain :: "bheap \<Rightarrow> ptr \<Rightarrow> ptr list \<Rightarrow> bool" where
  "bchain h p [] \<longleftrightarrow> p = NULL"
| "bchain h p (a # as) \<longleftrightarrow> p = a \<and> (\<exists>nd. cells h a = Some nd \<and> bchain h (bchild nd ! 0) as)"

fun optr :: "btree option \<Rightarrow> ptr" where
  "optr None = NULL"
| "optr (Some t) = bptr t"

fun oinner :: "btree option \<Rightarrow> ptr list" where
  "oinner None = []"
| "oinner (Some t) = binner t"

fun oleaves :: "btree option \<Rightarrow> ptr list" where
  "oleaves None = []"
| "oleaves (Some t) = bleaves t"

fun omap :: "btree option \<Rightarrow> u64 \<rightharpoonup> ptr" where
  "omap None = Map.empty"
| "omap (Some t) = bmap t"

fun oholds :: "bheap \<Rightarrow> btree option \<Rightarrow> bool" where
  "oholds h None = True"
| "oholds h (Some t) = bholds h t"

fun owf :: "btree option \<Rightarrow> bool" where
  "owf None = True"
| "owf (Some t) = wfb t"

definition binv :: "bstate \<Rightarrow> btree option \<Rightarrow> ptr list \<Rightarrow> ptr multiset \<Rightarrow> bool" where
  "binv s T D X \<longleftrightarrow>
     bheap_ok (fst s) \<and> oholds (fst s) T \<and> bchain (fst s) (bdeleted_node (snd s)) D
     \<and> distinct (oinner T) \<and> set (oinner T) \<subseteq> (\<lambda>a. a + NODE_SIZE) ` Collect (starts (fst s))
     \<and> mset (oleaves T) + mset D + X = mset_set (Collect (starts (fst s)))"

definition critbit_rel :: "bstate \<Rightarrow> (u64 \<rightharpoonup> ptr) \<Rightarrow> bool" where
  "critbit_rel s m \<longleftrightarrow>
     (\<exists>T D. binv s T D {#} \<and> broot (snd s) = optr T \<and> owf T \<and> \<not> bmutex (snd s) \<and> m = omap T)"

lemma binvD:
  assumes "binv (h, c) T D X"
  shows "bheap_ok h" "oholds h T" "bchain h (bdeleted_node c) D" "distinct (oinner T)"
    "set (oinner T) \<subseteq> (\<lambda>a. a + NODE_SIZE) ` Collect (starts h)"
    "mset (oleaves T) + mset D + X = mset_set (Collect (starts h))"
  using assms by (simp_all add: binv_def)

lemma binvI:
  assumes "bheap_ok h" "oholds h T" "bchain h (bdeleted_node c) D" "distinct (oinner T)"
    "set (oinner T) \<subseteq> (\<lambda>a. a + NODE_SIZE) ` Collect (starts h)"
    "mset (oleaves T) + mset D + X = mset_set (Collect (starts h))"
  shows "binv (h, c) T D X"
  using assms by (simp add: binv_def)

lemma binv_irrelevant [simp]:
  "binv (h, c\<lparr>bmutex := b\<rparr>) T D X = binv (h, c) T D X" "binv (h, c\<lparr>broot := r\<rparr>) T D X = binv (h, c) T D X"
  by (simp_all add: binv_def)

lemma bchain_frame:
  "bchain h p as \<Longrightarrow> (\<And>a. a \<in> set as \<Longrightarrow> cells h' a = cells h a) \<Longrightarrow> bchain h' p as"
  by (induction as arbitrary: p) auto

lemma binv_facts:
  assumes "binv (h, c) T D X"
  shows "distinct (oleaves T)" "distinct D" "set (oleaves T) \<inter> set D = {}"
    "set (oleaves T) \<subseteq> Collect (starts h)" "set D \<subseteq> Collect (starts h)"
    "x \<in># X \<Longrightarrow> starts h x \<and> x \<notin> set (oleaves T) \<and> x \<notin> set D"
    "set (oinner T) \<inter> Collect (starts h) = {}"
proof -
  note D = binvD [OF assms]
  have e: "mset (oleaves T) + (mset D + X) = mset_set (Collect (starts h))"
    "mset D + (mset (oleaves T) + X) = mset_set (Collect (starts h))"
    "X + (mset (oleaves T) + mset D) = mset_set (Collect (starts h))"
    using D(6) by (simp_all add: ac_simps)
  show "distinct (oleaves T)" "distinct D" using own_distinct e(1,2) by blast+
  show "set (oleaves T) \<inter> set D = {}" "set (oleaves T) \<subseteq> Collect (starts h)" "set D \<subseteq> Collect (starts h)"
    using own_disjoint [OF e(1)] own_in [OF e(1)] own_in [OF e(2)] by auto
  show "x \<in># X \<Longrightarrow> starts h x \<and> x \<notin> set (oleaves T) \<and> x \<notin> set D" using own_once [OF e(3), of x] own_in [OF e(3), of x] by auto
  have "\<not> starts h (b + NODE_SIZE)" if "starts h b" for b using D(1) that unfolding bheap_ok_def by blast
  then show "set (oinner T) \<inter> Collect (starts h) = {}" using D(5) by auto
qed

lemma binv_separate: "binv (h, c) (Some t) D X \<Longrightarrow> bseparate t"
  proof -
  assume i: "binv (h, c) (Some t) D X"
  have "distinct (binner t)" "distinct (bleaves t)" using binvD(4) [OF i] binv_facts(1) [OF i] by simp_all
  moreover have "set (binner t) \<inter> set (bleaves t) = {}" using binv_facts(4,7) [OF i] by auto
  ultimately show ?thesis by (simp add: bseparate_def)
qed

lemma bheap_ok_set_cell: "bheap_ok h \<Longrightarrow> x \<in> dom (cells h) \<Longrightarrow> length (bchild nd) = 2 \<Longrightarrow> bheap_ok (set_cell x nd h)"
proof -
  assume a: "bheap_ok h" "x \<in> dom (cells h)" "length (bchild nd) = 2"
  have "dom (cells (set_cell x nd h)) = dom (cells h)" using a(2) by (auto simp: set_cell_def)
  moreover have "starts (set_cell x nd h) = starts h" by (simp add: set_cell_def)
  moreover have "\<forall>b nd'. cells (set_cell x nd h) b = Some nd' \<longrightarrow> length (bchild nd') = 2"
    using a(1,3) by (simp add: set_cell_def bheap_ok_def)
  ultimately show ?thesis using a(1) unfolding bheap_ok_def by simp
qed

lemma binv_set_cell:
  assumes inv: "binv (h, c) T D X" and "x \<in> dom (cells h)" "length (bchild nd) = 2"
    "x \<notin> set (oinner T)" "x \<notin> set (oleaves T)" "x \<notin> set D"
  shows "binv (set_cell x nd h, c) T D X"
proof -
  note D = binvD [OF inv]
  have "oholds (set_cell x nd h) T" using D(2) assms(4,5) by (cases T) (auto intro: bholds_set_cell)
  moreover have "bchain (set_cell x nd h) (bdeleted_node c) D" using D(3) assms(6) by (auto intro: bchain_frame [of h])
  ultimately show ?thesis using D bheap_ok_set_cell [OF D(1) assms(2,3)] by (intro binvI) simp_all
qed

lemma bfree_node_inv:
  assumes inv: "binv (h, c) T D (add_mset a X)"
  shows "\<exists>nd. cells h a = Some nd \<and>
    critbit_free_node a (h, c) = Some (set_cell a (nd\<lparr>bchild := (bchild nd)[0 := bdeleted_node c]\<rparr>) h, c\<lparr>bdeleted_node := a\<rparr>) \<and>
    binv (set_cell a (nd\<lparr>bchild := (bchild nd)[0 := bdeleted_node c]\<rparr>) h, c\<lparr>bdeleted_node := a\<rparr>) T (a # D) X"
proof -
  note D = binvD [OF inv] and F = binv_facts [OF inv]
  have a: "starts h a" "a \<notin> set (oleaves T)" "a \<notin> set D" "a \<notin> set (oinner T)" using F(6) [of a] F(7) by auto
  have "Collect (starts h) \<subseteq> dom (cells h)" using D(1) unfolding bheap_ok_def by blast
  then obtain nd where nd: "cells h a = Some nd" using a(1) by blast
  then have len: "length (bchild nd) = 2" using D(1) by (auto simp: bheap_ok_def)
  let ?nd = "nd\<lparr>bchild := (bchild nd)[0 := bdeleted_node c]\<rparr>"
  have "binv (set_cell a ?nd h, c) T D (add_mset a X)"
    using nd len a by (intro binv_set_cell [OF inv]) auto
  from binvD [OF this] have "binv (set_cell a ?nd h, c\<lparr>bdeleted_node := a\<rparr>) T (a # D) X"
    using len by (intro binvI) simp_all
  then show ?thesis using nd by simp
qed

lemma bstore_subst:
  assumes inv: "binv (h, c) (Some t) D X" and root: "broot c = bptr t"
    and x: "bholds h x" "set (bleaves x) \<subseteq> Collect (starts h)"
      "set (binner x) \<subseteq> set (binner (bwalk Q k t)) \<union> F" "F \<inter> set (binner t) = {}"
      "F \<subseteq> (\<lambda>a. a + NODE_SIZE) ` Collect (starts h)"
    and dist: "distinct (binner (bsubst Q k x t))"
    and own: "mset (bleaves x) + Y = mset (bleaves (bwalk Q k t)) + X"
  shows "\<exists>h' c'. bstore (bslot_of Q k BRoot t) (bptr x) (h, c) = Some (h', c')
    \<and> binv (h', c') (Some (bsubst Q k x t)) D Y \<and> broot c' = bptr (bsubst Q k x t)
    \<and> starts h' = starts h \<and> (\<exists>r. c' = c\<lparr>broot := r\<rparr>)
    \<and> (\<forall>a. a \<notin> set (binner t) \<longrightarrow> cells h' a = cells h a)"
proof -
  note I = binvD [OF inv]
  have bh: "bholds h t" using I(2) by simp
  let ?t = "bsubst Q k x t"
  have l: "mset (bleaves ?t) + Y = mset (bleaves t) + X"
    by (rule exchange [OF bsubst_addrs(2) own])
  have own': "mset (oleaves (Some ?t)) + mset D + Y = mset_set (Collect (starts h))"
    using own_shift [OF l, of "mset D" "{#}" "mset_set (Collect (starts h))"] I(6) by simp
  have "set (binner ?t) \<subseteq> set (binner t) \<union> set (binner x)"
    using arg_cong [OF bsubst_addrs(1) [of Q k x t], of set_mset] by auto
  then have inn: "set (binner ?t) \<subseteq> (\<lambda>a. a + NODE_SIZE) ` Collect (starts h)"
    using x(3,5) I(5) [unfolded oinner.simps] bwalk_addrs(1) [of Q k t] by (meson Un_least order_trans)
  from bholds_subst [OF bh binv_separate [OF inv], of Q k BRoot x] show ?thesis
  proof (elim disjE exE conjE)
    assume e: "bslot_of Q k BRoot t = BRoot" "bwalk Q k t = t" "?t = x"
    have "binv (h, c) (Some ?t) D Y"
      using I x(1) e(3) dist inn own' by (intro binvI) simp_all
    then show ?thesis using e by (auto intro!: exI [of _ "bptr x"])
  next
    fix b j nd
    assume e: "bslot_of Q k BRoot t = BChild b j" "b \<in> set (binner t)" "b \<notin> baddrs (bwalk Q k t)" "cells h b = Some nd"
      "bptr ?t = bptr t"
      "bholds h x \<and> b \<notin> baddrs x \<longrightarrow> bholds (set_cell b (nd\<lparr>bchild := (bchild nd)[j := bptr x]\<rparr>) h) ?t"
    let ?h = "set_cell b (nd\<lparr>bchild := (bchild nd)[j := bptr x]\<rparr>) h"
    have ns: "\<not> starts h b" using binv_facts(7) [OF inv] e(2) by auto
    then have "b \<notin> baddrs x" using e(2,3) x(2-4) by auto
    then have "bholds ?h ?t" using e(6) x(1) by simp
    moreover have "bheap_ok ?h" using I(1) e(4) by (intro bheap_ok_set_cell) (auto simp: bheap_ok_def)
    moreover have "bchain ?h (bdeleted_node c) D"
      using I(3) binv_facts(5) [OF inv] ns by (auto intro!: bchain_frame [of h])
    ultimately have "binv (?h, c) (Some ?t) D Y" using dist inn own' by (intro binvI) simp_all
    then show ?thesis using e root by (auto intro!: exI [of _ "broot c"])
  qed
qed

end
