(* ===== verification/Critbit_Ops.thy ===== *)
theory Critbit_Ops
  imports Critbit_Heap Hashmap
begin

text \<open>
  The operations of \<open>src/critbit.c\<close> keep the invariant and act on the map of the tree:
  allocation of a block of two nodes, insertion of a new key, lookup, removal (of any key) and
  deletion, which frees every block.  The code does not support inserting a key twice; the last
  section says what becomes of the tree then, and of its deletion.
\<close>

subsection \<open>Allocation\<close>

text \<open>What \<open>Zalloc\<close> promises of a block of two nodes: it is new and does not wrap around.\<close>

definition zalloc_ok :: "ballocator \<Rightarrow> bool" where
  "zalloc_ok mal \<longleftrightarrow> (\<forall>h. zalloc_pair mal h \<noteq> NULL \<longrightarrow>
     zalloc_pair mal h + NODE_SIZE \<noteq> NULL
     \<and> zalloc_pair mal h \<notin> dom (cells h) \<and> zalloc_pair mal h + NODE_SIZE \<notin> dom (cells h))"

definition fresh_pair :: "ptr \<Rightarrow> bheap \<Rightarrow> bheap" where
  "fresh_pair a h =
     \<lparr>cells = (cells h)(a \<mapsto> zeroed, a + NODE_SIZE \<mapsto> zeroed), starts = (starts h)(a := True)\<rparr>"

lemma fresh_pair_simps [simp]:
  "cells (fresh_pair a h) = (cells h)(a \<mapsto> zeroed, a + NODE_SIZE \<mapsto> zeroed)"
  "starts (fresh_pair a h) = (starts h)(a := True)"
  by (simp_all add: fresh_pair_def)

lemma NODE_SIZE_nz [simp]: "NODE_SIZE \<noteq> 0"
  by (simp add: NODE_SIZE_def)

lemma fresh_pair_ok:
  assumes ok: "bheap_ok h" and a: "a \<noteq> NULL" "a + NODE_SIZE \<noteq> NULL" "a \<notin> dom (cells h)" "a + NODE_SIZE \<notin> dom (cells h)"
  shows "bheap_ok (fresh_pair a h)" "\<not> starts h a"
proof -
  have cov: "dom (cells h) = Collect (starts h) \<union> (\<lambda>a. a + NODE_SIZE) ` Collect (starts h)"
    and fin: "finite (Collect (starts h))"
    and nn: "\<And>a. starts h a \<Longrightarrow> a \<noteq> NULL \<and> a + NODE_SIZE \<noteq> NULL"
    and sep: "\<And>a b. starts h a \<Longrightarrow> starts h b \<Longrightarrow> a \<noteq> b + NODE_SIZE"
    and len: "\<And>a nd. cells h a = Some nd \<Longrightarrow> length (bchild nd) = 2"
    using ok unfolding bheap_ok_def by blast+
  show "\<not> starts h a" using cov a(3) by blast
  have col: "Collect ((starts h)(a := True)) = insert a (Collect (starts h))" by auto
  have n: "a \<noteq> b + NODE_SIZE" "b \<noteq> a + NODE_SIZE" if "starts h b" for b
    using that cov a(3,4) by blast+
  show "bheap_ok (fresh_pair a h)"
    unfolding bheap_ok_def fresh_pair_simps col
  proof (intro conjI)
    show "finite (insert a (Collect (starts h)))" using fin by simp
    show "\<forall>b. ((starts h)(a := True)) b \<longrightarrow> b \<noteq> NULL \<and> b + NODE_SIZE \<noteq> NULL"
      using nn a(1,2) by simp
    show "\<forall>b c. ((starts h)(a := True)) b \<and> ((starts h)(a := True)) c \<longrightarrow> b \<noteq> c + NODE_SIZE"
      using sep n by auto
    show "dom ((cells h)(a \<mapsto> zeroed, a + NODE_SIZE \<mapsto> zeroed)) =
        insert a (Collect (starts h)) \<union> (\<lambda>a. a + NODE_SIZE) ` insert a (Collect (starts h))"
      by (simp add: cov insert_commute)
    show "\<forall>b nd. ((cells h)(a \<mapsto> zeroed, a + NODE_SIZE \<mapsto> zeroed)) b = Some nd \<longrightarrow> length (bchild nd) = 2"
      using len by (auto simp: zeroed_def)
  qed
qed

lemma fresh_pair_inv:
  assumes inv: "binv (h, c) T D X" and a: "a \<noteq> NULL" "a + NODE_SIZE \<noteq> NULL" "a \<notin> dom (cells h)" "a + NODE_SIZE \<notin> dom (cells h)"
  shows "binv (fresh_pair a h, c) T D (add_mset a X)" "a + NODE_SIZE \<notin> set (oinner T)"
proof -
  note I = binvD [OF inv] and F = binv_facts [OF inv]
  note ok = fresh_pair_ok [OF I(1) a]
  have cov: "Collect (starts h) \<subseteq> dom (cells h)" "(\<lambda>a. a + NODE_SIZE) ` Collect (starts h) \<subseteq> dom (cells h)"
    using I(1) unfolding bheap_ok_def by blast+
  have sub: "set (oleaves T) \<subseteq> dom (cells h)" "set D \<subseteq> dom (cells h)" "set (oinner T) \<subseteq> dom (cells h)"
    using F(4,5) I(5) cov by (meson order_trans)+
  show "a + NODE_SIZE \<notin> set (oinner T)" using sub(3) a(4) by blast
  have same: "cells (fresh_pair a h) x = cells h x" if "x \<in> dom (cells h)" for x using that a(3,4) by auto
  have "oholds (fresh_pair a h) T"
  proof (cases T)
    case (Some t)
    have "cells (fresh_pair a h) x = cells h x" if "x \<in> baddrs t" for x
      by (rule same) (use that sub Some in auto)
    then have "bholds (fresh_pair a h) t" using I(2) Some bholds_frame [of h t "fresh_pair a h"] by simp
    then show ?thesis using Some by simp
  qed simp
  moreover have "bchain (fresh_pair a h) (bdeleted_node c) D"
    by (rule bchain_frame [OF I(3)], rule same) (use sub(2) in blast)
  moreover have "Collect ((starts h)(a := True)) = insert a (Collect (starts h))" by auto
  moreover have "finite (Collect (starts h))" using I(1) by (simp add: bheap_ok_def)
  ultimately show "binv (fresh_pair a h, c) T D (add_mset a X)"
    using I(4,5,6) ok by (intro binvI) auto
qed

lemma alloc_node_cases:
  assumes "binv (h, c) T D {#}" "zalloc_ok mal"
  obtains (failed) "zalloc_pair mal h = NULL" "critbit_alloc_node mal h = (NULL, h)"
  | (served) a where "zalloc_pair mal h = a" "critbit_alloc_node mal h = (a, fresh_pair a h)"
      "a \<noteq> NULL" "a + NODE_SIZE \<noteq> NULL" "a \<notin> dom (cells h)" "a + NODE_SIZE \<notin> dom (cells h)"
      "a + NODE_SIZE \<notin> set (oinner T)" "binv (fresh_pair a h, c) T D {#a#}"
proof (cases "zalloc_pair mal h = NULL")
  case True
  then show ?thesis using failed by (simp add: critbit_alloc_node_def)
next
  case False
  let ?a = "zalloc_pair mal h"
  have a: "?a \<noteq> NULL" "?a + NODE_SIZE \<noteq> NULL" "?a \<notin> dom (cells h)" "?a + NODE_SIZE \<notin> dom (cells h)"
    using assms(2) False by (simp_all add: zalloc_ok_def)
  show ?thesis
    using served [OF refl _ a fresh_pair_inv(2) [OF assms(1) a] fresh_pair_inv(1) [OF assms(1) a]] False
    by (simp add: critbit_alloc_node_def fresh_pair_def Let_def)
qed

subsection \<open>Insertion\<close>

lemma bpath_cell: "bholds h t \<Longrightarrow> \<exists>nd. cells h (bptr t) = Some nd \<and> bpath nd = bpath_of t"
  by (cases t) (auto simp: bpath_of_def)

lemma insert_node_inv:
  assumes inv: "binv (h, c) (Some t) D {#a#}" and root: "broot c = bptr t" and wf: "wfb t" and k: "k \<notin> bkeys t"
    and leaf: "cells h a = Some \<lparr>bchild = [v, x], bpath = k, bbit = 0\<rparr>" "a \<noteq> NULL"
    and m: "m = a + NODE_SIZE" "m \<noteq> NULL" "m \<notin> set (binner t)"
    and d: "d < 64" "bit (bpath_of (bwalk (bmatches k) k t) XOR k) d"
      "\<And>i. i < d \<Longrightarrow> \<not> bit (bpath_of (bwalk (bmatches k) k t) XOR k) i"
    and md: "md = \<lparr>bchild = (if bit k d then [bptr (bwalk (bmatches k) k t), a] else [a, bptr (bwalk (bmatches k) k t)]),
      bpath = take_bit d k, bbit = 2 ^ d\<rparr>"
  shows "\<exists>h' c' t'. bstore (bslot_of (bmatches k) k BRoot t) m (set_cell m md h, c) = Some (h', c')
    \<and> binv (h', c') (Some t') D {#} \<and> broot c' = bptr t' \<and> wfb t' \<and> bmap t' = (bmap t)(k \<mapsto> v)
    \<and> starts h' = starts h"
proof -
  let ?w = "bwalk (bmatches k) k t" and ?h = "set_cell m md h"
  let ?x = "bjoin m d k (BLeaf a k v) ?w"
  note I = binvD [OF inv] and F = binv_facts [OF inv]
  have ww: "wfb ?w" "k \<notin> bkeys ?w" using wf k wfb_walk bwalk_keys by blast+
  note part = parting(2) [OF ww(1) bwalk_bwalk ww(2) d(2,3)]
  note jw = bjoin_wf [OF ww(1) d(1), of k, OF part, of m a v]
  have a: "starts h a" "a \<notin> set (bleaves t)" using F(6) [of a] by simp_all
  have "a \<notin> set (binner t)" using F(7) a(1) by auto
  have mdom: "m \<in> dom (cells h)" "\<not> starts h m" using I(1) a(1) m(1) unfolding bheap_ok_def by blast+
  have mt: "m \<notin> baddrs t" using m(3) mdom(2) F(4) by auto
  have "m \<notin> set D" using mdom(2) F(5) by auto
  then have inv1: "binv (?h, c) (Some t) D {#a#}"
    using mt mdom by (intro binv_set_cell [OF inv]) (auto simp: md)
  have "bholds ?h ?w" using binvD(2) [OF inv1] bholds_walk by simp
  then have hx: "bholds ?h ?x" using leaf m(1,2) by (auto simp: bjoin_def md)
  have lx: "mset (bleaves ?x) = add_mset a (mset (bleaves ?w))" "mset (binner ?x) = add_mset m (mset (binner ?w))"
    by (auto simp: bjoin_def)
  have sx: "set (bleaves ?x) = insert a (set (bleaves ?w))" "set (binner ?x) = insert m (set (binner ?w))"
    using arg_cong [OF lx(1), of set_mset] arg_cong [OF lx(2), of set_mset] by simp_all
  let ?t = "bsubst (bmatches k) k ?x t"
  have "mset (binner ?t) = add_mset m (mset (binner t))"
    using bsubst_addrs(1) [of "bmatches k" k ?x t] lx(2) by simp
  then have dist: "distinct (binner ?t)"
    using I(4) m(3) by (metis distinct.simps(2) mset.simps(2) mset_eq_imp_distinct_iff oinner.simps(2))
  have "\<exists>h' c'. bstore (bslot_of (bmatches k) k BRoot t) (bptr ?x) (?h, c) = Some (h', c')
    \<and> binv (h', c') (Some ?t) D {#} \<and> broot c' = bptr ?t
    \<and> starts h' = starts ?h \<and> (\<exists>r. c' = c\<lparr>broot := r\<rparr>)
    \<and> (\<forall>a. a \<notin> set (binner t) \<longrightarrow> cells h' a = cells ?h a)"
    by (rule bstore_subst [OF inv1 root hx, of _ _ "{m}"])
       (use sx a m F(4) bwalk_addrs(2) [of "bmatches k" k t] dist lx(1) in auto)
  moreover have "bptr ?x = m" by (simp add: bjoin_def)
  moreover have ent: "mset (bentries ?t) = add_mset (k, v) (mset (bentries t))"
    using bsubst_entries [of "bmatches k" k ?x t] jw(2) by simp
  moreover have "bkeys ?x = insert k (bkeys ?w)" by (simp add: bjoin_def)
  then have wt: "wfb ?t" using bsubst_wf_insert [OF wf jw(1)] by blast
  moreover have "bmap ?t = (bmap t)(k \<mapsto> v)" by (rule bmap_insert [OF wt ent wf k])
  ultimately show ?thesis by auto
qed

lemma insert_new_key:
  assumes rel: "critbit_rel (h, c) m" and k: "k \<notin> dom m" and z: "zalloc_ok mal" "zalloc_pair mal h \<noteq> NULL"
  shows "\<exists>h' c'. critbit_insert mal k v (h, c) = Some (0, (h', c')) \<and> critbit_rel (h', c') (m(k \<mapsto> v))
    \<and> starts h' = (starts h)(zalloc_pair mal h := True)"
proof -
  obtain T D where T: "binv (h, c) T D {#}" "broot c = optr T" "owf T" "\<not> bmutex c" "m = omap T"
    using rel by (auto simp: critbit_rel_def)
  from T(1) z(1) show ?thesis
  proof (cases rule: alloc_node_cases)
    case failed
    then show ?thesis using z(2) by simp
  next
    case (served a)
    let ?lf = "\<lparr>bchild = [v, NULL], bpath = k, bbit = 0\<rparr>"
    let ?h = "set_cell a ?lf (fresh_pair a h)"
    have pre: "critbit_insert mal k v (h, c) = critbit_insert_link k a (?h, c\<lparr>bmutex := True\<rparr>)"
      using served T(4) by (simp add: critbit_insert_def zeroed_def Let_def)
    have a: "a \<in># {#a#}" by simp
    note F = binv_facts [OF served(8)]
    have an: "starts (fresh_pair a h) a" "a \<notin> set (oleaves T)" "a \<notin> set D" "a \<notin> set (oinner T)"
      using F(6) [OF a] F(7) by auto
    then have inv: "binv (?h, c) T D {#a#}"
      by (intro binv_set_cell [OF served(8)]) auto
    note I = binvD [OF inv]
    have st: "(starts h)(a := True) = (starts h)(zalloc_pair mal h := True)" using served(1) by simp
    show ?thesis
    proof (cases T)
      case None
      have "binv (?h, c) (Some (BLeaf a k v)) D {#}"
        using I None served(3) by (intro binvI) simp_all
      then have "critbit_rel (?h, c\<lparr>broot := a, bmutex := False\<rparr>) (m(k \<mapsto> v))"
        using T None unfolding critbit_rel_def
        by (intro exI [of _ "Some (BLeaf a k v)"] exI [of _ D]) (auto simp: bmap_def)
      then show ?thesis using T None pre st by (auto simp: critbit_insert_link_def)
    next
      case (Some t)
      let ?w = "bwalk (bmatches k) k t"
      have wf: "wfb t" "k \<notin> bkeys t" using T Some k by (simp_all add: dom_bmap)
      then have ww: "wfb ?w" "k \<notin> bkeys ?w" using wfb_walk bwalk_keys by blast+
      have bh: "bholds ?h t" using I(2) Some by simp
      have "bpath_of ?w XOR k \<noteq> 0" using parting(1) [OF ww(1) bwalk_bwalk ww(2)]
        by (auto simp: u64_eq_iff_bits bit_xor_iff)
      then obtain d where d: "d < 64" "(bpath_of ?w XOR k) AND - (bpath_of ?w XOR k) = 2 ^ d"
        "bit (bpath_of ?w XOR k) d" "\<And>i. i < d \<Longrightarrow> \<not> bit (bpath_of ?w XOR k) i"
        using lowest_bit by blast
      obtain nn where nn: "cells ?h (bptr ?w) = Some nn" "bpath nn = bpath_of ?w"
        using bpath_cell [OF bholds_walk [OF bh]] by blast
      let ?md = "\<lparr>bchild = (if bit k d then [bptr ?w, a] else [a, bptr ?w]), bpath = take_bit d k, bbit = 2 ^ d\<rparr>"
      let ?c = "c\<lparr>bmutex := True\<rparr>"
      have ic: "binv (?h, ?c) (Some t) D {#a#}" "broot ?c = bptr t" using inv Some T(2) by simp_all
      obtain h' c' t' where r: "bstore (bslot_of (bmatches k) k BRoot t) (a + NODE_SIZE) (set_cell (a + NODE_SIZE) ?md ?h, ?c) = Some (h', c')"
        "binv (h', c') (Some t') D {#}" "broot c' = bptr t'" "wfb t'" "bmap t' = (bmap t)(k \<mapsto> v)" "starts h' = starts ?h"
        using insert_node_inv [OF ic wf _ _ refl _ _ d(1,3,4) refl, of v NULL] served(3,4,7) Some by auto
      have "critbit_rel (h', c'\<lparr>bmutex := False\<rparr>) (m(k \<mapsto> v))"
        using r(2-5) T(5) Some unfolding critbit_rel_def
        by (intro exI [of _ "Some t'"] exI [of _ D]) auto
      moreover have "critbit_insert mal k v (h, c) = Some (0, bit_unlock (h', c'))"
        using pre r(1) insert_descend_walk [OF bh wf(1), of k BRoot] nn d(1,2) T(2) Some bptr_nonnull [OF bh]
          and_pow [OF d(1), of k] and.commute [of k "2 ^ d"]
        by (cases "bit k d") (simp_all add: critbit_insert_link_def and_low zeroed_def Let_def)
      ultimately show ?thesis using r(6) st by auto
    qed
  qed
qed


lemma insert_no_memory:
  assumes "zalloc_pair mal h = NULL"
  shows "critbit_insert mal k v (h, c) = Some (ENOMEM, (h, c))"
  using assms by (simp add: critbit_insert_def critbit_alloc_node_def Let_def)

subsection \<open>Lookup\<close>

lemma walk_map: "wfb t \<Longrightarrow> bwalk (\<lambda>_. True) k t = BLeaf a k' v \<Longrightarrow> bmap t k = (if k' = k then Some v else None)"
proof -
  assume wf: "wfb t" and w: "bwalk (\<lambda>_. True) k t = BLeaf a k' v"
  show ?thesis
  proof (cases "k' = k")
    case True
    then show ?thesis using bwalk_entries [of "\<lambda>_. True" k t] w wf by (simp add: bmap_Some_iff)
  next
    case False
    then have "k \<notin> dom (bmap t)" using bwalk_True_finds [OF wf, of k] w by (auto simp: dom_bmap)
    then show ?thesis using False by (auto simp: domIff)
  qed
qed

lemma get_tree:
  assumes "bholds h t" "wfb t" "broot c = bptr t"
  shows "critbit_get k (h, c) = Some (val_of (bmap t k))"
proof -
  obtain a k' v where w: "bwalk (\<lambda>_. True) k t = BLeaf a k' v" using bwalk_True_leaf by blast
  have "bholds h (BLeaf a k' v)" using bholds_walk [OF assms(1), of "\<lambda>_. True" k] w by simp
  then show ?thesis
    using assms(3) w bptr_nonnull [OF assms(1)] get_descend_walk [OF assms(1,2), of k] walk_map [OF assms(2) w]
    by (auto simp: critbit_get_def)
qed

lemma critbit_get_ok:
  assumes "critbit_rel s m"
  shows "critbit_get k s = Some (val_of (m k))"
proof -
  obtain h c where s: "s = (h, c)" by (cases s)
  obtain T D where T: "binv (h, c) T D {#}" "broot c = optr T" "owf T" "m = omap T"
    using assms s by (auto simp: critbit_rel_def)
  show ?thesis
  proof (cases T)
    case None
    then show ?thesis using T s by (simp add: critbit_get_def)
  next
    case (Some t)
    then show ?thesis using get_tree [of h t c k] binvD(2) [OF T(1)] T(2-4) s by simp
  qed
qed

subsection \<open>Removal\<close>

text \<open>The descent keeps the last two nodes: the walk stops at an inner node whose child for the key is a leaf.\<close>

fun bdeeper :: "u64 \<Rightarrow> btree \<Rightarrow> bool" where
  "bdeeper k (BNode a e p l r) = (case (if bit k e then r else l) of BLeaf _ _ _ \<Rightarrow> False | _ \<Rightarrow> True)"
| "bdeeper k t = False"

lemma remove_descend_leaf:
  "bholds h (BLeaf a k' v) \<Longrightarrow> critbit_remove_descend h k a kp n np = Some (a, kp, n, np)"
  by (subst critbit_remove_descend.simps) auto

lemma remove_descend_walk:
  "bholds h t \<Longrightarrow> wfb t \<Longrightarrow> bwalk (bdeeper k) k t = BNode a e p l r \<Longrightarrow>
   critbit_remove_descend h k (bptr t) kp n np =
     Some (bptr (if bit k e then r else l), BChild a (if bit k e then 1 else 0), a, bslot_of (bdeeper k) k kp t)
   \<and> (\<exists>b k' v. (if bit k e then r else l) = BLeaf b k' v)"
proof (induction "bdeeper k" k t arbitrary: kp n np rule: bwalk.induct)
  case (1 k a' e' p' l' r')
  then have "e' < 64" by simp
  then have e: "(2 ^ e' :: u64) \<noteq> 0" "2 ^ e' AND k = 0 \<longleftrightarrow> \<not> bit k e'" by (simp_all add: pow_nz and_pow)
  have step: "critbit_remove_descend h k a' kp n np =
      critbit_remove_descend h k (bptr (if bit k e' then r' else l')) (BChild a' (if bit k e' then 1 else 0)) a' kp"
    using 1(3) e by (subst critbit_remove_descend.simps) (auto simp: Let_def)
  have hc: "bholds h (if bit k e' then r' else l')" "wfb (if bit k e' then r' else l')" using 1(3,4) by simp_all
  show ?case
  proof (cases "bdeeper k (BNode a' e' p' l' r')")
    case False
    then obtain b k' v where lf: "(if bit k e' then r' else l') = BLeaf b k' v" by (auto split: btree.splits)
    have "bwalk (bdeeper k) k (BNode a' e' p' l' r') = BNode a' e' p' l' r'" using False by simp
    then have eq: "a = a'" "e = e'" "l = l'" "r = r'" using 1(5) by simp_all
    show ?thesis using step False lf remove_descend_leaf [of h b k' v] hc(1) unfolding eq by simp
  next
    case True
    show ?thesis
    proof (cases "bit k e'")
      case bit: True
      from 1(1) [OF True bit, of "BChild a' 1" a' kp] show ?thesis using step True bit hc 1(5) by simp
    next
      case bit: False
      from 1(2) [OF True bit, of "BChild a' 0" a' kp] show ?thesis using step True bit hc 1(5) by simp
    qed
  qed
qed simp

lemma walk_deeper_node: "\<exists>a e p l r. bwalk (bdeeper k) k (BNode b e' p' l' r') = BNode a e p l r"
proof -
  have "(\<exists>b k' v. t = BLeaf b k' v) \<or> (\<exists>a e p l r. bwalk (bdeeper k) k t = BNode a e p l r)" for t
  proof (induction "bdeeper k" k t rule: bwalk.induct)
    case (1 k a e p l r)
    show ?case
    proof (cases "bdeeper k (BNode a e p l r)")
      case True
      show ?thesis using 1 [OF True] True by (cases "bit k e") (auto split: btree.splits)
    qed simp
  qed simp
  then show ?thesis by blast
qed

lemma bwalk_True_bwalk: "bwalk (\<lambda>_. True) k (bwalk Q k t) = bwalk (\<lambda>_. True) k t"
  by (induction Q k t rule: bwalk.induct) auto

text \<open>Handing the leaf of a removed key to the chain of deleted nodes.\<close>

lemma remove_finish:
  assumes inv: "binv (h, c) T D {#b#}" and T: "broot c = optr T" "owf T" "m = omap T"
    and cell: "cells h b = Some \<lparr>bchild = [v, x], bpath = k, bbit = 0\<rparr>"
  shows "\<exists>h' c'. critbit_free_node b (h, c) = Some (h', c') \<and> critbit_rel (bit_unlock (h', c')) m \<and> starts h' = starts h"
proof -
  from bfree_node_inv [OF inv] obtain nd where nd: "cells h b = Some nd"
    "critbit_free_node b (h, c) = Some (set_cell b (nd\<lparr>bchild := (bchild nd)[0 := bdeleted_node c]\<rparr>) h, c\<lparr>bdeleted_node := b\<rparr>)"
    "binv (set_cell b (nd\<lparr>bchild := (bchild nd)[0 := bdeleted_node c]\<rparr>) h, c\<lparr>bdeleted_node := b\<rparr>) T (b # D) {#}"
    by blast
  have "critbit_rel (bit_unlock (set_cell b (nd\<lparr>bchild := (bchild nd)[0 := bdeleted_node c]\<rparr>) h, c\<lparr>bdeleted_node := b\<rparr>)) m"
    unfolding critbit_rel_def using nd(3) T by (intro exI [of _ T] exI [of _ "b # D"]) simp
  then show ?thesis using nd(2) by auto
qed

lemma remove_node:
  assumes inv: "binv (h, c) (Some t) D {#}" and root: "broot c = bptr t" and wf: "wfb t"
    and w: "bwalk (bdeeper k) k t = BNode a e p l r" and lf: "(if bit k e then r else l) = BLeaf b k v"
  defines "y \<equiv> (if bit k e then l else r)"
  shows "\<exists>h' c' t'. bstore (bslot_of (bdeeper k) k BRoot t) (bptr y) (h, c) = Some (h', c')
    \<and> binv (h', c') (Some t') D {#b#} \<and> broot c' = bptr t' \<and> wfb t' \<and> bmap t' = (bmap t)(k := None)
    \<and> starts h' = starts h \<and> cells h' b = cells h b"
proof -
  let ?w = "BNode a e p l r" and ?t = "bsubst (bdeeper k) k y t"
  note I = binvD [OF inv] and F = binv_facts [OF inv]
  have hw: "bholds h ?w" "wfb ?w" using I(2) bholds_walk [of h t "bdeeper k" k] wfb_walk [OF wf, of "bdeeper k" k] w by simp_all
  have y: "bholds h y" "wfb y" using hw by (auto simp: y_def)
  have parts: "mset (bleaves ?w) = add_mset b (mset (bleaves y))" "mset (binner ?w) = add_mset a (mset (binner y))"
    "mset (bentries ?w) = add_mset (k, v) (mset (bentries y))"
    using lf by (auto simp: y_def split: if_splits)
  have sub: "set (binner y) \<subseteq> set (binner ?w)" "set (bleaves y) \<subseteq> set (bleaves ?w)" "bkeys y \<subseteq> bkeys ?w"
    by (auto simp: y_def)
  have "b \<in># mset (bleaves ?w)" unfolding parts(1) by simp
  then have b: "b \<in> set (bleaves t)" using bwalk_addrs(2) [of "bdeeper k" k t] w by auto
  have "b \<notin> set (binner t)" using b F(4,7) by auto
  moreover have "add_mset a (mset (binner ?t)) = mset (binner t)"
    using bsubst_addrs(1) [of "bdeeper k" k y t] parts(2) w by simp
  then have "distinct (a # binner ?t)" using I(4) by (metis mset.simps(2) mset_eq_imp_distinct_iff oinner.simps(2))
  then have dist: "distinct (binner ?t)" by simp
  moreover have "set (bleaves y) \<subseteq> Collect (starts h)"
    using sub(2) F(4) bwalk_addrs(2) [of "bdeeper k" k t] unfolding w oleaves.simps by (meson order_trans)
  then have "\<exists>h' c'. bstore (bslot_of (bdeeper k) k BRoot t) (bptr y) (h, c) = Some (h', c')
    \<and> binv (h', c') (Some ?t) D {#b#} \<and> broot c' = bptr ?t
    \<and> starts h' = starts h \<and> (\<exists>r. c' = c\<lparr>broot := r\<rparr>)
    \<and> (\<forall>a. a \<notin> set (binner t) \<longrightarrow> cells h' a = cells h a)"
    by (intro bstore_subst [OF inv root y(1), of _ _ "{}"]) (use sub dist parts w in auto)
  moreover have "mset (bentries t) = add_mset (k, v) (mset (bentries ?t))"
    using bsubst_entries [of "bdeeper k" k y t] parts(3) w by simp
  moreover have wt: "wfb ?t" using bsubst_wf_remove [OF wf y(2)] sub(3) w by simp
  ultimately show ?thesis using bmap_remove(1) [OF wt _ wf] by blast
qed

lemma critbit_remove_ok:
  assumes rel: "critbit_rel (h, c) m"
  shows "\<exists>h' c'. critbit_remove k (h, c) = Some (val_of (m k), (h', c')) \<and> critbit_rel (h', c') (m(k := None)) \<and> starts h' = starts h"
proof -
  obtain T D where T: "binv (h, c) T D {#}" "broot c = optr T" "owf T" "\<not> bmutex c" "m = omap T"
    using rel by (auto simp: critbit_rel_def)
  let ?c = "c\<lparr>bmutex := True\<rparr>"
  have absent: "critbit_rel (bit_unlock (h, ?c)) (m(k := None)) \<and> val_of (m k) = NULL" if "m k = None"
    using rel that by (auto simp: critbit_rel_def fun_upd_idem)
  note I = binvD [OF T(1)]
  show ?thesis
  proof (cases T)
    case None
    then show ?thesis using T absent by (simp add: critbit_remove_def)
  next
    case (Some t)
    have bh: "bholds h t" "wfb t" using I(2) T(3) Some by simp_all
    show ?thesis
    proof (cases t)
      case (BLeaf a k' v)
      then obtain x where cell: "cells h a = Some \<lparr>bchild = [v, x], bpath = k', bbit = 0\<rparr>" "a \<noteq> NULL" using bh(1) by auto
      show ?thesis
      proof (cases "k' = k")
        case True
        have "binv (h, ?c\<lparr>broot := NULL\<rparr>) None D {#a#}" using I Some BLeaf by (intro binvI) simp_all
        moreover have m: "m(k := None) = Map.empty" "m k = Some v" using T Some BLeaf True by (simp_all add: bmap_def)
        ultimately show ?thesis using remove_finish [of h "?c\<lparr>broot := NULL\<rparr>" None D a "m(k := None)", OF _ _ _ _ cell(1)]
            T Some BLeaf True cell by (auto simp: critbit_remove_def)
      next
        case False
        then have "m k = None" using T Some BLeaf by (simp add: bmap_def)
        then show ?thesis using T Some BLeaf False cell absent by (simp add: critbit_remove_def)
      qed
    next
      case (BNode a0 e0 p0 l0 r0)
      obtain a e p l r where w: "bwalk (bdeeper k) k t = BNode a e p l r" using walk_deeper_node BNode by blast
      note rd = remove_descend_walk [OF bh w, of BRoot a0 BRoot]
      then obtain b k' v where lf: "(if bit k e then r else l) = BLeaf b k' v" by blast
      have hw: "bholds h (BNode a e p l r)" using bholds_walk [OF bh(1), of "bdeeper k" k] w by simp
      then have hl: "bholds h (if bit k e then r else l)" by simp
      then obtain x where cell: "cells h b = Some \<lparr>bchild = [v, x], bpath = k', bbit = 0\<rparr>" unfolding lf by auto
      have e0: "(2 ^ e0 :: u64) \<noteq> 0" using bh(2) BNode by (simp add: pow_nz)
      have "bwalk (\<lambda>_. True) k t = (if bit k e then r else l)"
        using bwalk_True_bwalk [of k "bdeeper k" t] w lf by (auto split: if_splits)
      then have mk: "m k = (if k' = k then Some v else None)" using walk_map [OF bh(2)] lf T Some by simp
      show ?thesis
      proof (cases "k' = k")
        case False
        then show ?thesis
          using T Some BNode bh(1) rd lf cell absent mk e0 by (simp add: critbit_remove_def)
      next
        case True
        let ?y = "if bit k e then l else r"
        have ic: "binv (h, ?c) (Some t) D {#}" "broot ?c = bptr t" using T Some by simp_all
        obtain h' c' t' where st: "bstore (bslot_of (bdeeper k) k BRoot t) (bptr ?y) (h, ?c) = Some (h', c')"
          "binv (h', c') (Some t') D {#b#}" "broot c' = bptr t'" "wfb t'" "bmap t' = (bmap t)(k := None)"
          "starts h' = starts h" "cells h' b = cells h b"
          using remove_node [OF ic bh(2) w] lf True by blast
        have "\<exists>h1 c1. critbit_free_node b (h', c') = Some (h1, c1) \<and> critbit_rel (bit_unlock (h1, c1)) (m(k := None)) \<and> starts h1 = starts h'"
          using st T Some cell by (intro remove_finish [OF st(2)]) auto
        then obtain h1 c1 where f: "critbit_free_node b (h', c') = Some (h1, c1)"
          "critbit_rel (bit_unlock (h1, c1)) (m(k := None))" "starts h1 = starts h'" by blast
        have "critbit_remove k (h, c) = Some (v, bit_unlock (h1, c1))"
        proof (cases "bit k e")
          case True
          then show ?thesis using T Some BNode bh(1) rd lf cell e0 \<open>k' = k\<close> st hw f(1)
            by (simp add: critbit_remove_def del: critbit_free_node.simps)
        next
          case False
          then show ?thesis using T Some BNode bh(1) rd lf cell e0 \<open>k' = k\<close> st hw f(1)
            by (simp add: critbit_remove_def del: critbit_free_node.simps)
        qed
        then show ?thesis using f st(6) mk True by auto
      qed
    qed
  qed
qed


subsection \<open>Deletion\<close>

lemma delete_node_chain:
  "bholds h t \<Longrightarrow> bseparate t \<Longrightarrow> wfb t \<Longrightarrow> bheap_ok h \<Longrightarrow> bchain h (bdeleted_node c) D \<Longrightarrow> set (bleaves t) \<inter> set D = {} \<Longrightarrow>
   \<exists>h' c'. critbit_delete_node (bptr t) (h, c) = Some (h', c') \<and> bheap_ok h' \<and> bchain h' (bdeleted_node c') (rev (bleaves t) @ D)
     \<and> starts h' = starts h \<and> (\<forall>a. a \<notin> set (bleaves t) \<longrightarrow> cells h' a = cells h a) \<and> bmutex c' = bmutex c"
proof (induction t arbitrary: h c D)
  case (BLeaf a k v)
  then obtain x where nd: "cells h a = Some \<lparr>bchild = [v, x], bpath = k, bbit = 0\<rparr>" by auto
  let ?h = "set_cell a \<lparr>bchild = [bdeleted_node c, x], bpath = k, bbit = 0\<rparr> h"
  have "critbit_delete_node a (h, c) = Some (?h, c\<lparr>bdeleted_node := a\<rparr>)"
    using nd by (subst critbit_delete_node.simps) simp
  moreover have "bheap_ok ?h" using nd BLeaf.prems(4) by (intro bheap_ok_set_cell) auto
  moreover have "bchain ?h (bdeleted_node c) D" using BLeaf.prems(5,6) by (auto intro: bchain_frame [of h])
  ultimately show ?case by simp
next
  case (BNode a e p l r)
  note S = bseparate_Node [OF BNode.prems(2)]
  have cell: "cells h a = Some \<lparr>bchild = [bptr l, bptr r], bpath = p, bbit = 2 ^ e\<rparr>" "bholds h l" "bholds h r"
    using BNode.prems(1) by simp_all
  have wf: "wfb l" "wfb r" "(2 ^ e :: u64) \<noteq> 0" using BNode.prems(3) by (simp_all add: pow_nz)
  have dl: "set (bleaves l) \<inter> set D = {}" "set (bleaves r) \<inter> set (rev (bleaves l) @ D) = {}" using BNode.prems(6) S by auto
  from BNode.IH(1) [OF cell(2) _ wf(1) BNode.prems(4,5) dl(1)] S obtain h1 c1 where
    l: "critbit_delete_node (bptr l) (h, c) = Some (h1, c1)" "bheap_ok h1" "bchain h1 (bdeleted_node c1) (rev (bleaves l) @ D)"
      "starts h1 = starts h" "\<And>x. x \<notin> set (bleaves l) \<Longrightarrow> cells h1 x = cells h x" "bmutex c1 = bmutex c" by blast
  have "bholds h1 r" by (rule bholds_frame [OF cell(3)], rule l(5)) (use S in auto)
  from BNode.IH(2) [OF this _ wf(2) l(2,3) dl(2)] S obtain h2 c2 where
    r: "critbit_delete_node (bptr r) (h1, c1) = Some (h2, c2)" "bheap_ok h2"
      "bchain h2 (bdeleted_node c2) (rev (bleaves r) @ rev (bleaves l) @ D)"
      "starts h2 = starts h1" "\<And>x. x \<notin> set (bleaves r) \<Longrightarrow> cells h2 x = cells h1 x" "bmutex c2 = bmutex c1" by blast
  have a: "cells h1 a = cells h a" using l(5) [of a] S by simp
  have "critbit_delete_node a (h, c) = Some (h2, c2)"
    using cell wf(3) l(1) r(1) a bptr_nonnull [OF cell(2)] bptr_nonnull [OF cell(3)]
    by (subst critbit_delete_node.simps) simp
  then show ?case using l(4-6) r(2-6) by auto
qed

lemma delete_node_ok:
  assumes "bholds h t" "bseparate t" "wfb t" "binv (h, c) None D (mset (bleaves t) + X)"
  shows "\<exists>h' c' D'. critbit_delete_node (bptr t) (h, c) = Some (h', c') \<and> binv (h', c') None D' X \<and> bmutex c' = bmutex c"
proof -
  note I = binvD [OF assms(4)] and F = binv_facts [OF assms(4)]
  have "set (bleaves t) \<inter> set D = {}" using F(6) by auto
  from delete_node_chain [OF assms(1-3) I(1,3) this] obtain h' c' where
    d: "critbit_delete_node (bptr t) (h, c) = Some (h', c')" "bheap_ok h'" "bchain h' (bdeleted_node c') (rev (bleaves t) @ D)"
      "starts h' = starts h" "bmutex c' = bmutex c" by blast
  have "binv (h', c') None (rev (bleaves t) @ D) X" using d I(6) by (intro binvI) (simp_all add: ac_simps)
  with d(1,5) show ?thesis by blast
qed

definition bheap_empty :: bheap where
  "bheap_empty = \<lparr>cells = Map.empty, starts = (\<lambda>_. False)\<rparr>"

lemma bfree_ok:
  assumes ok: "bheap_ok h" and a: "starts h a"
  shows "\<exists>h'. bfree a h = Some h' \<and> bheap_ok h' \<and> Collect (starts h') = Collect (starts h) - {a}
    \<and> (\<forall>x. x \<noteq> a \<and> starts h x \<longrightarrow> cells h' x = cells h x)"
proof -
  have cov: "dom (cells h) = Collect (starts h) \<union> (\<lambda>a. a + NODE_SIZE) ` Collect (starts h)"
    and nn: "\<And>a. starts h a \<Longrightarrow> a \<noteq> NULL \<and> a + NODE_SIZE \<noteq> NULL"
    and sep: "\<And>a b. starts h a \<Longrightarrow> starts h b \<Longrightarrow> a \<noteq> b + NODE_SIZE"
    using ok unfolding bheap_ok_def by blast+
  let ?h = "\<lparr>cells = (cells h)(a := None, a + NODE_SIZE := None), starts = (starts h)(a := False)\<rparr>"
  have col: "Collect (starts ?h) = Collect (starts h) - {a}" by (auto split: if_splits)
  have "dom (cells ?h) = dom (cells h) - {a} - {a + NODE_SIZE}" by auto
  also have "\<dots> = Collect (starts ?h) \<union> (\<lambda>a. a + NODE_SIZE) ` Collect (starts ?h)"
    unfolding cov col using sep a by auto
  finally have "bheap_ok ?h" using ok unfolding bheap_ok_def by auto
  moreover have "\<forall>x. x \<noteq> a \<and> starts h x \<longrightarrow> cells ?h x = cells h x" using sep a by auto
  ultimately show ?thesis using nn [OF a] a col by (intro exI [of _ ?h]) (simp add: bfree_def)
qed

lemma free_deleted_ok:
  "bheap_ok h \<Longrightarrow> bchain h p D \<Longrightarrow> mset D = mset_set (Collect (starts h)) \<Longrightarrow>
   critbit_free_deleted h p = Some bheap_empty"
proof (induction D arbitrary: h p)
  case Nil
  then have fin: "finite (Collect (starts h))" and cov: "dom (cells h) = Collect (starts h) \<union> (\<lambda>a. a + NODE_SIZE) ` Collect (starts h)"
    by (simp_all add: bheap_ok_def)
  have none: "Collect (starts h) = {}" using Nil.prems(3) fin by (metis mset.simps(1) mset_set_empty_iff)
  then have "starts h = (\<lambda>_. False)" by auto
  moreover have "cells h = Map.empty" using cov none by simp
  ultimately have "h = bheap_empty" by (simp add: bheap_empty_def)
  then show ?case using Nil.prems(2) by (subst critbit_free_deleted.simps) simp
next
  case (Cons a D)
  have "finite (Collect (starts h))" using Cons.prems(1) by (simp add: bheap_ok_def)
  have own: "mset (a # D) + {#} = mset_set (Collect (starts h))" using Cons.prems(3) by simp
  have a: "starts h a" "a \<notin> set D" using own_distinct [OF own] own_in [OF own, of a] by simp_all
  have D: "set D \<subseteq> Collect (starts h)" using own_in [OF own] by auto
  from bfree_ok [OF Cons.prems(1) a(1)] obtain h' where h': "bfree a h = Some h'" "bheap_ok h'"
    "Collect (starts h') = Collect (starts h) - {a}" "\<And>x. x \<noteq> a \<Longrightarrow> starts h x \<Longrightarrow> cells h' x = cells h x" by blast
  obtain nd where nd: "p = a" "cells h a = Some nd" "bchain h (bchild nd ! 0) D" using Cons.prems(2) by auto
  have "bchain h' (bchild nd ! 0) D" by (rule bchain_frame [OF nd(3)], rule h'(4)) (use a D in auto)
  moreover have "mset D = mset_set (Collect (starts h'))"
    using own by (simp add: h'(3) mset_set_Diff \<open>finite _\<close> a(1) flip: own)
  ultimately have "critbit_free_deleted h' (bchild nd ! 0) = Some bheap_empty" by (rule Cons.IH [OF h'(2)])
  moreover have "a \<noteq> NULL" using Cons.prems(1) a(1) by (auto simp: bheap_ok_def)
  ultimately show ?case using nd h'(1) by (subst critbit_free_deleted.simps) simp
qed

lemma critbit_delete_ok:
  assumes "critbit_rel s m"
  shows "critbit_delete s = Some bheap_empty"
proof -
  obtain h c where s: "s = (h, c)" by (cases s)
  obtain T D where T: "binv (h, c) T D {#}" "broot c = optr T" "owf T" "\<not> bmutex c" "m = omap T"
    using assms s by (auto simp: critbit_rel_def)
  have fin: "critbit_free_deleted h' (bdeleted_node c') = Some bheap_empty" if "binv (h', c') None D' {#}" for h' c' D'
    by (rule free_deleted_ok) (use binvD [OF that] in auto)
  show ?thesis
  proof (cases T)
    case None
    then show ?thesis using T s fin [of h c D] by (simp add: critbit_delete_def)
  next
    case (Some t)
    note I = binvD [OF T(1)]
    have bh: "bholds h t" "wfb t" using I(2) T(3) Some by simp_all
    have sep: "bseparate t" using T(1) Some binv_separate by blast
    have "binv (h, c) None D (mset (bleaves t) + {#})" using I Some by (intro binvI) (simp_all add: ac_simps)
    from delete_node_ok [OF bh(1) sep bh(2) this] obtain h' c' D' where
      "critbit_delete_node (bptr t) (h, c) = Some (h', c')" "binv (h', c') None D' {#}" "bmutex c' = bmutex c" by blast
    then show ?thesis using T s Some fin [of h' c' D'] bptr_nonnull [OF bh(1)] by (simp add: critbit_delete_def)
  qed
qed

subsection \<open>A key that is inserted twice\<close>

text \<open>The calls of \<open>Free\<close> on a list of blocks.\<close>

fun bfrees :: "ptr list \<Rightarrow> bheap \<Rightarrow> bheap option" where
  "bfrees [] h = Some h"
| "bfrees (a # D) h = do { h \<leftarrow> bfree a h; bfrees D h }"

lemma free_deleted_bad:
  "bheap_ok h \<Longrightarrow> bchain h p (D @ a # D') \<Longrightarrow> set (D @ D') \<subseteq> Collect (starts h) \<Longrightarrow> distinct (D @ D') \<Longrightarrow>
   a \<noteq> NULL \<Longrightarrow> \<not> starts h a \<Longrightarrow> \<forall>b\<in>set D. a \<noteq> b + NODE_SIZE \<Longrightarrow>
   \<exists>h'. bfrees D h = Some h' \<and> \<not> starts h' a \<and> critbit_free_deleted h p = None"
proof (induction D arbitrary: h p)
  case Nil
  then show ?case by (subst critbit_free_deleted.simps) (auto simp: bfree_def Let_def)
next
  case (Cons b D)
  have b: "starts h b" "b \<notin> set (D @ D')" using Cons.prems(3,4) by simp_all
  from bfree_ok [OF Cons.prems(1) b(1)] obtain h1 where h1: "bfree b h = Some h1" "bheap_ok h1"
    "Collect (starts h1) = Collect (starts h) - {b}" "\<And>x. x \<noteq> b \<Longrightarrow> starts h x \<Longrightarrow> cells h1 x = cells h x" by blast
  obtain nd where nd: "p = b" "cells h b = Some nd" "bchain h (bchild nd ! 0) (D @ a # D')" using Cons.prems(2) by auto
  have "b \<noteq> NULL" using Cons.prems(1) b(1) by (auto simp: bheap_ok_def)
  have "cells h1 a = cells h a"
    using h1(1) \<open>b \<noteq> NULL\<close> b(1) Cons.prems(6,7) by (auto simp: bfree_def split: if_splits)
  then have "cells h1 x = cells h x" if "x \<in> set (D @ a # D')" for x
    using h1(4) [of x] b(2) Cons.prems(3) that by (cases "x = a") auto
  then have ch: "bchain h1 (bchild nd ! 0) (D @ a # D')" by (rule bchain_frame [OF nd(3)])
  have h: "set (D @ D') \<subseteq> Collect (starts h1)" "\<not> starts h1 a" using h1(3) b(2) Cons.prems(3,6) by auto
  have "distinct (D @ D')" "\<forall>b\<in>set D. a \<noteq> b + NODE_SIZE" using Cons.prems(4,7) by simp_all
  from Cons.IH [OF h1(2) ch h(1) this(1) Cons.prems(5) h(2) this(2)] obtain h2 where "bfrees D h1 = Some h2" "\<not> starts h2 a" "critbit_free_deleted h1 (bchild nd ! 0) = None"
    by blast
  then show ?case using h1(1) nd(1,2) \<open>b \<noteq> NULL\<close> by (subst critbit_free_deleted.simps) (simp add: Let_def)
qed

text \<open>The leaf of the key is replaced by the node at \<open>m\<close>, which looks like a leaf.\<close>

lemma bmap_replace:
  assumes wf: "wfb t" "wfb t'" and e: "add_mset (k, u) (mset (bentries t')) = add_mset (k, z) (mset (bentries t))"
    and u: "bmap t k = Some u"
  shows "bmap t' = (bmap t)(k \<mapsto> z)"
proof (rule bmap_eqI [OF wf(2)])
  have other: "(x, y) \<in> set (bentries t') \<longleftrightarrow> (x, y) \<in> set (bentries t)" if "x \<noteq> k" for x y
    using arg_cong [OF e, of "\<lambda>M. (x, y) \<in># M"] that by simp
  have "(k, u) \<in> set (bentries t)" using u wf(1) by (simp add: bmap_Some_iff)
  moreover have "z = u \<Longrightarrow> set (bentries t') = set (bentries t)" using e by (intro mset_eq_setD) simp
  moreover have "(k, z) \<in># add_mset (k, u) (mset (bentries t'))" unfolding e by simp
  ultimately have "(k, z) \<in> set (bentries t')" by auto
  then have "bmap t' k = Some z" using wf(2) by (simp add: bmap_Some_iff)
  then have "(k, y) \<in> set (bentries t') \<longleftrightarrow> y = z" for y using bmap_Some_iff [OF wf(2), of k y] by auto
  then show "(x, y) \<in> set (bentries t') \<longleftrightarrow> ((bmap t)(k \<mapsto> z)) x = Some y" for x y
    using other [of x y] by (auto simp: bmap_Some_iff [OF wf(1)])
qed

lemma insert_duplicate:
  assumes rel: "critbit_rel (h, c) m" and k: "k \<in> dom m" and z: "zalloc_ok mal" "z = zalloc_pair mal h" "z \<noteq> NULL"
  shows "\<exists>h' c' t D. critbit_insert mal k v (h, c) = Some (0, (h', c')) \<and> bholds h' t \<and> bseparate t \<and> wfb t \<and> broot c' = bptr t
    \<and> bmap t = m(k \<mapsto> z) \<and> \<not> bmutex c' \<and> bheap_ok h' \<and> bchain h' (bdeleted_node c') D \<and> starts h' z \<and> \<not> starts h' (z + NODE_SIZE)
    \<and> z + NODE_SIZE \<in> set (bleaves t) \<and> distinct (bleaves t @ D) \<and> set (bleaves t @ D) \<subseteq> insert (z + NODE_SIZE) (Collect (starts h') - {z})"
proof -
  obtain T D where T: "binv (h, c) T D {#}" "broot c = optr T" "owf T" "\<not> bmutex c" "m = omap T"
    using rel by (auto simp: critbit_rel_def)
  then obtain t where t: "T = Some t" "wfb t" "k \<in> bkeys t" "m = bmap t" "broot c = bptr t"
    using k by (cases T) (auto simp: dom_bmap)
  let ?c = "c\<lparr>bmutex := True\<rparr>" and ?m = "z + NODE_SIZE"
  from T(1) z(1) show ?thesis
  proof (cases rule: alloc_node_cases)
    case failed
    then show ?thesis using z(2,3) by simp
  next
    case (served a)
    have a: "a = z" using served(1) z(2) by simp
    define h1 where "h1 = set_cell z \<lparr>bchild = [v, NULL], bpath = k, bbit = 0\<rparr> (fresh_pair z h)"
    have F: "starts (fresh_pair z h) z" "z \<notin> set (oleaves T)" "z \<notin> set D" "z \<notin> set (oinner T)"
      using binv_facts(6,7) [OF served(8)] a by auto
    then have inv: "binv (h1, ?c) T D {#z#}" unfolding h1_def using a 
      by (subst binv_irrelevant, intro binv_set_cell [OF served(8) [unfolded a]]) auto
    obtain n u where w: "bwalk (bmatches k) k t = BLeaf n k u" using bwalk_finds [OF t(2,3)] by blast
    define md where "md = \<lparr>bchild = [z, n], bpath = k, bbit = 0\<rparr>"
    define h2 where "h2 = set_cell ?m md h1"
    let ?x = "BLeaf ?m k z"
    let ?t = "bsubst (bmatches k) k ?x t"
    note I1 = binvD [OF inv] and F1 = binv_facts [OF inv]
    have st: "starts h1 z" by (simp add: h1_def)
    have m: "?m \<in> dom (cells h1)" "\<not> starts h1 ?m" "?m \<notin> set (binner t)"
      using I1(1) st served(7) a t(1) unfolding bheap_ok_def by (blast, blast, simp)
    have mt: "?m \<notin> set (oleaves T)" "?m \<notin> set D" using F1(4,5) m(2) by auto
    have inv2: "binv (h2, ?c) T D {#z#}" unfolding h2_def
      by (rule binv_set_cell [OF inv m(1)]) (use m(3) mt t(1) in \<open>simp_all add: md_def\<close>)
    note I2 = binvD [OF inv2]
    have bh: "bholds h1 t" "bholds h2 t" using I1(2) I2(2) t(1) by simp_all
    have sep: "bseparate t" using inv t(1) binv_separate by blast
    have x: "bholds h2 ?x" using served(4) a by (simp add: h2_def md_def)
    have "bholds h1 (BLeaf n k u)" using bholds_walk [OF bh(1), of "bmatches k" k] w by simp
    then obtain y where n: "cells h1 n = Some \<lparr>bchild = [u, y], bpath = k, bbit = 0\<rparr>" by auto
    have mc: "cells h1 ?m = Some zeroed" by (simp add: h1_def)
    have pre: "critbit_insert mal k v (h, c) =
        do { s \<leftarrow> bstore (bslot_of (bmatches k) k BRoot t) ?m (h2, ?c); Some (0, bit_unlock s) }"
    proof -
      have "critbit_insert mal k v (h, c) = critbit_insert_link k z (h1, ?c)"
        using served(2,3) a T(4) by (simp add: critbit_insert_def zeroed_def Let_def h1_def)
      also have "\<dots> = do { s \<leftarrow> bstore (bslot_of (bmatches k) k BRoot t) ?m (h2, ?c); Some (0, bit_unlock s) }"
        using insert_descend_walk [OF bh(1) t(2), of k BRoot] w n mc t(5) bptr_nonnull [OF bh(1)]
        by (simp add: critbit_insert_link_def Let_def h2_def md_def zeroed_def del: bstore.simps)
      finally show ?thesis .
    qed
    have wt: "wfb ?t" using bsubst_wf_insert [OF t(2), of ?x k] w by simp
    have mt': "bmap ?t = m(k \<mapsto> z)" unfolding t(4)
    proof (rule bmap_replace [OF t(2) wt])
      show "add_mset (k, u) (mset (bentries ?t)) = add_mset (k, z) (mset (bentries t))"
        using bsubst_entries [of "bmatches k" k ?x t] w by simp
      show "bmap t k = Some u" using bwalk_entries [of "bmatches k" k t] w t(2) by (simp add: bmap_Some_iff)
    qed
    have lv: "add_mset n (mset (bleaves ?t)) = add_mset ?m (mset (bleaves t))" and inn: "mset (binner ?t) = mset (binner t)"
      using bsubst_addrs [of "bmatches k" k ?x t] w by simp_all
    have fin: "finite (Collect (starts h1))" using I1(1) by (simp add: bheap_ok_def)
    have "mset (bleaves ?t @ D) + {#n, z#} = add_mset n (mset (bleaves ?t)) + (mset D + {#z#})" by simp
    also have "\<dots> = add_mset ?m (mset (bleaves t) + mset D + {#z#})" unfolding lv by simp
    also have "\<dots> = mset_set (insert ?m (Collect (starts h1)))" using I1(6) t(1) m(2) fin by simp
    finally have own: "mset (bleaves ?t @ D) + {#n, z#} = mset_set (insert ?m (Collect (starts h1)))" .
    have dist: "distinct (bleaves ?t @ D)" by (rule own_distinct [OF own])
    have sub: "set (bleaves ?t @ D) \<subseteq> insert ?m (Collect (starts h1) - {z})"
      using own_in [OF own] own_disjoint [OF own] by fastforce
    have "n \<in> set (bleaves t)" using bwalk_addrs(2) [of "bmatches k" k t] w by simp
    then have "n \<noteq> ?m" using mt(1) t(1) by auto
    then have mem: "?m \<in> set (bleaves ?t)" using arg_cong [OF lv, of "\<lambda>M. ?m \<in># M"] by simp
    have "set (binner ?t) = set (binner t)" using inn by (rule mset_eq_setD)
    then have sept: "bseparate ?t" unfolding bseparate_def
      using mset_eq_imp_distinct_iff [OF inn] I1(4) t(1) dist sub m(3) F1(7) by auto
    note common = wt mt' sept dist mem T(4)
    from bholds_subst [OF bh(2) sep, of "bmatches k" k BRoot ?x] show ?thesis
    proof (elim disjE exE conjE)
      assume e: "bslot_of (bmatches k) k BRoot t = BRoot" "?t = ?x"
      have "critbit_insert mal k v (h, c) = Some (0, (h2, ?c\<lparr>broot := ?m, bmutex := False\<rparr>))"
        unfolding pre e(1) by simp
      then show ?thesis
        using common e(2) x I2(1,3) st m(2) sub by (intro exI [of _ h2] exI [of _ "?c\<lparr>broot := ?m, bmutex := False\<rparr>"] exI [of _ ?t] exI [of _ D]) (simp add: h2_def)
    next
      fix b j nd
      assume e: "bslot_of (bmatches k) k BRoot t = BChild b j" "b \<in> set (binner t)" "cells h2 b = Some nd" "bptr ?t = bptr t"
        "bholds h2 ?x \<and> b \<notin> baddrs ?x \<longrightarrow> bholds (set_cell b (nd\<lparr>bchild := (bchild nd)[j := bptr ?x]\<rparr>) h2) ?t"
      define h3 where "h3 = set_cell b (nd\<lparr>bchild := (bchild nd)[j := ?m]\<rparr>) h2"
      have bm: "b \<noteq> ?m" using e(2) m(3) by auto
      have bs: "\<not> starts h1 b" using F1(7) e(2) t(1) by auto
      have h3: "bholds h3 ?t" using e(5) x bm by (simp add: h3_def)
      have ok3: "bheap_ok h3" unfolding h3_def using I2(1) e(3) by (intro bheap_ok_set_cell) (auto simp: bheap_ok_def)
      have ch3: "bchain h3 (bdeleted_node ?c) D" unfolding h3_def
        using I2(3) F1(5) bs by (auto intro!: bchain_frame [of h2])
      have st3: "starts h3 = starts h1" by (simp add: h3_def h2_def)
      have "critbit_insert mal k v (h, c) = Some (0, (h3, ?c\<lparr>bmutex := False\<rparr>))"
        unfolding pre e(1) using e(3) by (simp add: h3_def)
      then show ?thesis
        using common h3 ok3 ch3 st m(2) sub e(4) t(5)
        by (intro exI [of _ h3] exI [of _ "?c\<lparr>bmutex := False\<rparr>"] exI [of _ ?t] exI [of _ D]) (simp add: st3)
    qed
  qed
qed


lemma critbit_new_ok:
  "zalloc_head mal bheap_empty \<noteq> NULL \<Longrightarrow> \<exists>c. critbit_new mal bheap_empty = Some (bheap_empty, c) \<and> critbit_rel (bheap_empty, c) Map.empty"
  unfolding critbit_new_def critbit_rel_def
  by (auto intro!: exI [of _ None] exI [of _ "[]"] simp: binv_def bheap_ok_def bheap_empty_def)

end
