(* ===== verification/Critbit.thy ===== *)
theory Critbit
  imports Critbit_Ops Corr_Tests
begin

text \<open>
  Critbit behind the interface of \<open>src/hmproto.h\<close>: its table of operations, the
  interpretation of the contract (new keys only; absent keys may be removed), and the properties.
\<close>

subsection \<open>The table of operations\<close>

definition hm_critbit :: "ballocator \<Rightarrow> (bstate, bheap) hm" where
  "hm_critbit mal =
     \<lparr>hm_new = critbit_new mal bheap_empty,
      hm_delete = critbit_delete,
      hm_insert = critbit_insert mal,
      hm_remove = critbit_remove,
      hm_get = critbit_get,
      hm_find_le = critbit_find_le,
      hm_immutable = 2\<rparr>"

definition bblocks :: "bheap \<Rightarrow> nat" where
  "bblocks h = card (Collect (starts h))"

definition critbit_repr :: "nat \<Rightarrow> nat \<Rightarrow> bstate \<Rightarrow> (u64 \<rightharpoonup> ptr) \<Rightarrow> bool" where
  "critbit_repr cap n s m \<longleftrightarrow> critbit_rel s m \<and> bblocks (fst s) + n \<le> cap"

lemma critbit_rel_heap: "critbit_rel (h, c) m \<Longrightarrow> bheap_ok h"
  by (auto simp: critbit_rel_def dest: binvD(1))

text \<open>An allocator that has memory for \<open>cap\<close> blocks of two nodes.\<close>

locale serving_pairs =
  fixes mal :: ballocator and cap :: nat
  assumes ok: "zalloc_ok mal"
    and serves: "bheap_ok h \<Longrightarrow> bblocks h < cap \<Longrightarrow> zalloc_pair mal h \<noteq> NULL"
    and head_serves: "zalloc_head mal bheap_empty \<noteq> NULL"
begin

lemma insert_repr:
  assumes "critbit_repr cap (Suc n) s m" "k \<notin> dom m"
  shows "\<exists>s'. critbit_insert mal k v s = Some (0, s') \<and> critbit_repr cap n s' (m(k \<mapsto> v))"
proof -
  obtain h c where s: "s = (h, c)" by (cases s)
  have rel: "critbit_rel (h, c) m" and b: "bblocks h + Suc n \<le> cap" using assms(1) s by (simp_all add: critbit_repr_def)
  note hok = critbit_rel_heap [OF rel]
  have z: "zalloc_pair mal h \<noteq> NULL" using b by (intro serves [OF hok]) simp
  obtain h' c' where r: "critbit_insert mal k v (h, c) = Some (0, (h', c'))" "critbit_rel (h', c') (m(k \<mapsto> v))"
    "starts h' = (starts h)(zalloc_pair mal h := True)" using insert_new_key [OF rel assms(2) ok z] by blast
  have "Collect (starts h') = insert (zalloc_pair mal h) (Collect (starts h))" unfolding r(3) by auto
  then have "bblocks h' \<le> Suc (bblocks h)" by (simp add: bblocks_def card_insert_le_m1 card_insert_if)
  then show ?thesis using r(1,2) b s by (auto simp: critbit_repr_def)
qed

lemma remove_repr:
  assumes "critbit_repr cap (Suc n) s m"
  shows "\<exists>s'. critbit_remove k s = Some (val_of (m k), s') \<and> critbit_repr cap n s' (m(k := None))"
proof -
  obtain h c where s: "s = (h, c)" by (cases s)
  have rel: "critbit_rel (h, c) m" and b: "bblocks h + Suc n \<le> cap" using assms s by (simp_all add: critbit_repr_def)
  then show ?thesis using critbit_remove_ok [OF rel, of k] s by (fastforce simp: critbit_repr_def bblocks_def)
qed

end

lemma hm_critbit_hashmap:
  assumes "serving_pairs mal cap"
  shows "hashmap (hm_critbit mal) cap (critbit_repr cap) bheap_empty False True"
proof unfold_locales
  have "bblocks bheap_empty = 0" by (simp add: bblocks_def bheap_empty_def)
  then show "\<exists>s. hm_new (hm_critbit mal) = Some s \<and> critbit_repr cap cap s Map.empty"
    using critbit_new_ok [OF serving_pairs.head_serves [OF assms]] by (auto simp: hm_critbit_def critbit_repr_def)
qed (use serving_pairs.insert_repr [OF assms] serving_pairs.remove_repr [OF assms] critbit_get_ok critbit_delete_ok
     in \<open>auto simp: hm_critbit_def critbit_repr_def\<close>)

subsection \<open>A first-fit allocator\<close>

text \<open>Blocks of 64 bytes at the addresses 64, 128, \<dots>, 64 n.\<close>

definition pair_addrs :: "nat \<Rightarrow> ptr list" where
  "pair_addrs n = map (\<lambda>i. of_nat (64 * Suc i)) [0..<n]"

definition free_pair :: "nat \<Rightarrow> bheap \<Rightarrow> ptr" where
  "free_pair n h =
     (case filter (\<lambda>a. Option.is_none (cells h a) \<and> Option.is_none (cells h (a + NODE_SIZE))) (pair_addrs n) of
        [] \<Rightarrow> NULL | a # _ \<Rightarrow> a)"

definition first_fit_pairs :: "nat \<Rightarrow> ballocator" where
  "first_fit_pairs n = \<lparr>zalloc_pair = free_pair n, zalloc_head = (\<lambda>_. 8)\<rparr>"

lemma unat_pair_addr: "64 * Suc i < 2 ^ 64 \<Longrightarrow> unat (of_nat (64 * Suc i) :: ptr) = 64 * Suc i"
  by (simp only: unat_of_nat) (simp only: len_bit0 len_num1, simp)

lemma pair_addrs_ok:
  assumes "n < 2 ^ 57"
  shows "distinct (pair_addrs n)" "length (pair_addrs n) = n" "a \<in> set (pair_addrs n) \<Longrightarrow> a \<noteq> NULL \<and> a + NODE_SIZE \<noteq> NULL"
proof -
  have u: "unat (of_nat (64 * Suc i) :: ptr) = 64 * Suc i" if "i < n" for i
    using that assms by (intro unat_pair_addr) simp
  have "inj_on (\<lambda>i. of_nat (64 * Suc i) :: ptr) {0..<n}"
  proof (rule inj_onI)
    fix i j assume "i \<in> {0..<n}" "j \<in> {0..<n}" "(of_nat (64 * Suc i) :: ptr) = of_nat (64 * Suc j)"
    then show "i = j" using u [of i] u [of j] by (metis atLeastLessThan_iff nat.inject mult_left_cancel zero_neq_numeral)
  qed
  then show "distinct (pair_addrs n)" by (simp add: pair_addrs_def distinct_map)
  show "length (pair_addrs n) = n" by (simp add: pair_addrs_def)
  show "a \<noteq> NULL \<and> a + NODE_SIZE \<noteq> NULL" if a: "a \<in> set (pair_addrs n)"
  proof -
    obtain i where i: "i < n" "a = of_nat (64 * Suc i)" using a by (auto simp: pair_addrs_def)
    have ua: "unat a = 64 * Suc i" using u [OF i(1)] i(2) by simp
    have n32: "unat NODE_SIZE = 32" by (simp add: NODE_SIZE_def)
    have "unat (a + NODE_SIZE) = unat a + unat NODE_SIZE"
      by (rule unat_add_lem [THEN iffD1]) (use ua n32 i assms in simp)
    then have "unat (a + NODE_SIZE) \<noteq> 0" using n32 by simp
    then show ?thesis using ua by auto
  qed
qed

lemma free_pair_cases:
  obtains (none) "free_pair n h = NULL" "\<And>a. a \<in> set (pair_addrs n) \<Longrightarrow> a \<in> dom (cells h) \<or> a + NODE_SIZE \<in> dom (cells h)"
  | (some) "free_pair n h \<in> set (pair_addrs n)" "free_pair n h \<notin> dom (cells h)" "free_pair n h + NODE_SIZE \<notin> dom (cells h)"
proof (cases "filter (\<lambda>a. Option.is_none (cells h a) \<and> Option.is_none (cells h (a + NODE_SIZE))) (pair_addrs n)")
  case Nil
  then have "a \<in> set (pair_addrs n) \<Longrightarrow> a \<in> dom (cells h) \<or> a + NODE_SIZE \<in> dom (cells h)" for a
    by (auto simp: filter_empty_conv Option.is_none_def)
  with none Nil show ?thesis by (simp add: free_pair_def)
next
  case (Cons a as)
  then have "a \<in> set (filter (\<lambda>a. Option.is_none (cells h a) \<and> Option.is_none (cells h (a + NODE_SIZE))) (pair_addrs n))" by simp
  then show ?thesis using some Cons by (auto simp: free_pair_def Option.is_none_def domIff)
qed

lemma occupied_pairs:
  assumes ok: "bheap_ok h" and cov: "\<And>a. a \<in> set (pair_addrs n) \<Longrightarrow> a \<in> dom (cells h) \<or> a + NODE_SIZE \<in> dom (cells h)"
    and n: "n < 2 ^ 57"
  shows "n \<le> 4 * bblocks h"
proof -
  have fin: "finite (Collect (starts h))"
    and dom: "dom (cells h) = Collect (starts h) \<union> (\<lambda>a. a + NODE_SIZE) ` Collect (starts h)"
    using ok by (simp_all add: bheap_ok_def)
  have "set (pair_addrs n) \<subseteq> dom (cells h) \<union> (\<lambda>a. a - NODE_SIZE) ` dom (cells h)"
    using cov by (metis (no_types, lifting) Un_iff add_diff_cancel_right' image_eqI subsetI)
  then have "card (set (pair_addrs n)) \<le> card (dom (cells h) \<union> (\<lambda>a. a - NODE_SIZE) ` dom (cells h))"
    using fin dom by (intro card_mono) auto
  also have "\<dots> \<le> card (dom (cells h)) + card ((\<lambda>a. a - NODE_SIZE) ` dom (cells h))" by (rule card_Un_le)
  also have "\<dots> \<le> 2 * card (dom (cells h))" using card_image_le [of "dom (cells h)"] fin dom by simp
  also have "card (dom (cells h)) \<le> card (Collect (starts h)) + card ((\<lambda>a. a + NODE_SIZE) ` Collect (starts h))"
    unfolding dom by (rule card_Un_le)
  also have "\<dots> \<le> 2 * bblocks h" using card_image_le [OF fin] by (simp add: bblocks_def)
  finally show ?thesis using pair_addrs_ok(1,2) [OF n] distinct_card by fastforce
qed

lemma first_fit_pairs_serving:
  assumes "4 * cap < 2 ^ 57"
  shows "serving_pairs (first_fit_pairs (4 * cap)) cap"
proof
  note A = pair_addrs_ok [OF assms]
  show "zalloc_ok (first_fit_pairs (4 * cap))"
    unfolding zalloc_ok_def
  proof (intro allI impI)
    fix h assume nn: "zalloc_pair (first_fit_pairs (4 * cap)) h \<noteq> NULL"
    show "zalloc_pair (first_fit_pairs (4 * cap)) h + NODE_SIZE \<noteq> NULL
      \<and> zalloc_pair (first_fit_pairs (4 * cap)) h \<notin> dom (cells h)
      \<and> zalloc_pair (first_fit_pairs (4 * cap)) h + NODE_SIZE \<notin> dom (cells h)"
      by (rule free_pair_cases [of "4 * cap" h]) (use nn A(3) in \<open>auto simp: first_fit_pairs_def\<close>)
  qed
  show "zalloc_pair (first_fit_pairs (4 * cap)) h \<noteq> NULL" if "bheap_ok h" "bblocks h < cap" for h
    by (rule free_pair_cases [of "4 * cap" h])
       (use that occupied_pairs [OF that(1) _ assms] A(3) in \<open>auto simp: first_fit_pairs_def\<close>)
qed (simp add: first_fit_pairs_def)

interpretation ffp: serving_pairs "first_fit_pairs 16777216" 4194304
  using first_fit_pairs_serving [of 4194304] by simp

interpretation critbit_hm: hashmap "hm_critbit (first_fit_pairs 16777216)" 4194304 "critbit_repr 4194304" bheap_empty False True
  by (rule hm_critbit_hashmap [OF ffp.serving_pairs_axioms])

subsection \<open>A concrete structure\<close>

text \<open>The keys 1 and 3, inserted in this order: they differ in bit 1.\<close>

definition bdemo :: bstate where
  "bdemo =
     (\<lparr>cells = [64 \<mapsto> \<lparr>bchild = [10, 0], bpath = 1, bbit = 0\<rparr>, 96 \<mapsto> zeroed,
                128 \<mapsto> \<lparr>bchild = [30, 0], bpath = 3, bbit = 0\<rparr>, 160 \<mapsto> \<lparr>bchild = [64, 128], bpath = 1, bbit = 2\<rparr>],
       starts = (\<lambda>a. a = 64 \<or> a = 128)\<rparr>,
      \<lparr>broot = 160, bmutex = False, bdeleted_node = 0\<rparr>)"

lemma bdemo_heap: "bheap_ok (fst bdemo)"
proof -
  let ?h = "fresh_pair 128 (fresh_pair 64 bheap_empty)"
  have "bheap_ok bheap_empty" by (simp add: bheap_ok_def bheap_empty_def)
  then have "bheap_ok (fresh_pair 64 bheap_empty)"
    by (rule fresh_pair_ok) (simp_all add: NODE_SIZE_def bheap_empty_def)
  then have "bheap_ok ?h"
    by (rule fresh_pair_ok) (simp_all add: NODE_SIZE_def bheap_empty_def)
  then have "bheap_ok (set_cell 160 \<lparr>bchild = [64, 128], bpath = 1, bbit = 2\<rparr>
      (set_cell 128 \<lparr>bchild = [30, 0], bpath = 3, bbit = 0\<rparr> (set_cell 64 \<lparr>bchild = [10, 0], bpath = 1, bbit = 0\<rparr> ?h)))"
    by (intro bheap_ok_set_cell) (simp_all add: NODE_SIZE_def)
  moreover have "fst bdemo = \<dots>"
    by (simp add: bdemo_def set_cell_def fresh_pair_def bheap_empty_def NODE_SIZE_def fun_eq_iff)
  ultimately show ?thesis by simp
qed

lemma bdemo_rel: "critbit_rel bdemo [1 \<mapsto> 10, 3 \<mapsto> 30]"
proof -
  let ?t = "BNode 160 1 1 (BLeaf 64 1 10) (BLeaf 128 3 30)"
  have st: "{a. a = 64 \<or> a = 128} = {64, 128 :: ptr}" by auto
  note bdemo_heap
  moreover have "bholds (fst bdemo) ?t" by (simp add: bdemo_def)
  ultimately have "binv bdemo (Some ?t) [] {#}"
    by (simp add: binv_def) (simp add: bdemo_def st NODE_SIZE_def)
  moreover have "wfb ?t" by (simp add: take_bit_eq_mod bit_iff_odd_drop_bit)
  moreover have "bmap ?t = [1 \<mapsto> 10, 3 \<mapsto> 30]" by (auto simp: bmap_def)
  ultimately show ?thesis unfolding critbit_rel_def
    by (intro exI [of _ "Some ?t"] exI [of _ "[]"]) (simp add: bdemo_def)
qed

subsection \<open>Properties\<close>

text \<open>
  C15.  Insertion of a key that is absent, on both branches: \<open>critbit_insert\<close> returns 0 and
  adds the key, or \<open>ENOMEM\<close> with the state unchanged when \<open>Zalloc\<close> fails.
\<close>

theorem critbit_insert_correct:
  assumes "zalloc_ok mal" "critbit_rel s m" "k \<notin> dom m"
  shows "if zalloc_pair mal (fst s) = NULL then critbit_insert mal k v s = Some (ENOMEM, s)
    else \<exists>s'. critbit_insert mal k v s = Some (0, s') \<and> critbit_rel s' (m(k \<mapsto> v)) \<and> bblocks (fst s') = Suc (bblocks (fst s))"
proof (cases "zalloc_pair mal (fst s) = NULL")
  case True
  then show ?thesis using insert_no_memory [of mal "fst s" k v "snd s"] by simp
next
  case False
  obtain h c where s: "s = (h, c)" by (cases s)
  note rel = assms(2) [unfolded s] and z = assms(1) False [unfolded s fst_conv]
  obtain h' c' where r: "critbit_insert mal k v (h, c) = Some (0, (h', c'))" "critbit_rel (h', c') (m(k \<mapsto> v))"
    "starts h' = (starts h)(zalloc_pair mal h := True)" using insert_new_key [OF rel assms(3) z] by blast
  have "\<not> starts h (zalloc_pair mal h)"
    by (rule fresh_pair_ok(2) [OF critbit_rel_heap [OF rel]]) (use z in \<open>auto simp: zalloc_ok_def\<close>)
  moreover have "finite (Collect (starts h))" using critbit_rel_heap [OF rel] by (simp add: bheap_ok_def)
  moreover have "Collect (starts h') = insert (zalloc_pair mal h) (Collect (starts h))" unfolding r(3) by auto
  ultimately have "bblocks h' = Suc (bblocks h)" by (simp add: bblocks_def)
  then have "critbit_insert mal k v s = Some (0, (h', c')) \<and> critbit_rel (h', c') (m(k \<mapsto> v))
      \<and> bblocks (fst (h', c')) = Suc (bblocks (fst s))" using r(1,2) s by simp
  then show ?thesis by (simp only: False if_False) blast
qed

theorem critbit_insert_correct_witness:
  "\<exists>s'. critbit_insert (first_fit_pairs 16777216) 5 50 bdemo = Some (0, s') \<and> critbit_rel s' [1 \<mapsto> 10, 3 \<mapsto> 30, 5 \<mapsto> 50]"
proof -
  have "bblocks (fst bdemo) \<le> 2" using card_insert_le_m1 by (simp add: bblocks_def bdemo_def Collect_disj_eq)
  then have "zalloc_pair (first_fit_pairs 16777216) (fst bdemo) \<noteq> NULL"
    using critbit_rel_heap [of "fst bdemo" "snd bdemo"] bdemo_rel by (intro ffp.serves) simp_all
  with critbit_insert_correct [OF ffp.ok bdemo_rel, of 5 50] show ?thesis by auto
qed

text \<open>
  C16.  Removal, of present and absent keys alike: \<open>critbit_remove\<close> returns the value the key
  had, or NULL, and exactly that key is gone afterwards.  No memory is allocated or freed: the
  leaf goes to the chain of deleted nodes.
\<close>

theorem critbit_remove_correct:
  assumes "critbit_rel s m"
  shows "\<exists>s'. critbit_remove k s = Some (val_of (m k), s') \<and> critbit_rel s' (m(k := None))
    \<and> starts (fst s') = starts (fst s)"
  using critbit_remove_ok [of "fst s" "snd s" m k] assms by auto

theorem critbit_remove_correct_witness:
  "\<exists>s'. critbit_remove 3 bdemo = Some (30, s') \<and> critbit_rel s' [1 \<mapsto> 10]"
  using critbit_remove_correct [OF bdemo_rel, of 3] by auto

text \<open>C17.  Lookup: \<open>critbit_get\<close> always returns, with the value of the key or NULL.\<close>

theorem critbit_get_correct:
  assumes "critbit_rel s m"
  shows "critbit_get k s = Some (val_of (m k))"
  by (rule critbit_get_ok [OF assms])

theorem critbit_get_correct_witness: "critbit_get 3 bdemo = Some 30 \<and> critbit_get 2 bdemo = Some NULL"
  using critbit_get_correct [OF bdemo_rel, of 3] critbit_get_correct [OF bdemo_rel, of 2] by simp

text \<open>
  C18.  Deletion frees every block of two nodes exactly once, those in the tree and those on the
  chain of deleted nodes, and leaves none.
\<close>

theorem critbit_delete_frees_all:
  assumes "critbit_rel s m"
  shows "critbit_delete s = Some bheap_empty"
  by (rule critbit_delete_ok [OF assms])

theorem critbit_delete_frees_all_witness: "critbit_delete bdemo = Some bheap_empty"
  by (rule critbit_delete_frees_all [OF bdemo_rel])

text \<open>
  C19.  Sequences of calls that never insert a key that is present: critbit answers as a finite
  map and leaves no memory behind.
\<close>

theorem critbit_session_refines:
  assumes "serving_pairs mal cap" "length cs \<le> cap" "permitted False True Map.empty cs"
  shows "session (hm_critbit mal) cs = Some (expect Map.empty cs, bheap_empty)"
  by (rule hashmap.session_ok [OF hm_critbit_hashmap [OF assms(1)] assms(2,3)])

theorem critbit_session_refines_witness:
  "session (hm_critbit (first_fit_pairs 16777216)) [Insert 5 50, Remove 6, Get 5, Remove 5, Get 5, Insert 5 51, Get 5]
   = Some ([Status 0, Value 0, Value 50, Value 50, Value 0, Status 0, Value 51], bheap_empty)"
  using critbit_session_refines [OF ffp.serving_pairs_axioms, of "[Insert 5 50, Remove 6, Get 5, Remove 5, Get 5, Insert 5 51, Get 5]"]
  by simp

text \<open>
  C21.  Why duplicates are excluded.  Inserting any key that is present a second time, with memory
  for the block, reports success and makes the second half of the new block a node whose field \<open>bit\<close>
  is 0, which is taken for a leaf: from then on \<open>get\<close> returns, for this key, the address of the
  new leaf instead of either value (other keys are not affected), and \<open>delete\<close> goes wrong: its first
  phase puts that second half on the chain of deleted nodes, its loop frees the blocks before it
  and then calls \<open>Free\<close> on it, a pointer into the middle of a block.
\<close>

theorem critbit_insert_duplicate_breaks:
  assumes "zalloc_ok mal" "critbit_rel s m" "k \<in> dom m" "zalloc_pair mal (fst s) \<noteq> NULL"
  shows "\<exists>s'. critbit_insert mal k v s = Some (0, s')
    \<and> (\<forall>x. critbit_get x s' = Some (val_of ((m(k \<mapsto> zalloc_pair mal (fst s))) x)))
    \<and> (\<exists>h c D D' h'. critbit_delete_node (broot (snd s')) s' = Some (h, c)
        \<and> bchain h (bdeleted_node c) (D @ (zalloc_pair mal (fst s) + NODE_SIZE) # D') \<and> bfrees D h = Some h'
        \<and> zalloc_pair mal (fst s) + NODE_SIZE \<noteq> NULL \<and> \<not> starts h' (zalloc_pair mal (fst s) + NODE_SIZE))
    \<and> critbit_delete s' = None"
proof -
  obtain h0 c0 where s: "s = (h0, c0)" by (cases s)
  let ?z = "zalloc_pair mal h0"
  let ?m = "?z + NODE_SIZE"
  have z: "?z \<noteq> NULL" "?m \<noteq> NULL" using assms(1,4) s by (auto simp: zalloc_ok_def)
  obtain h1 c1 t D where i: "critbit_insert mal k v (h0, c0) = Some (0, (h1, c1))" "bholds h1 t" "bseparate t" "wfb t"
    "broot c1 = bptr t" "bmap t = m(k \<mapsto> ?z)" "\<not> bmutex c1" "bheap_ok h1" "bchain h1 (bdeleted_node c1) D" "starts h1 ?z"
    "\<not> starts h1 ?m" "?m \<in> set (bleaves t)" "distinct (bleaves t @ D)"
    "set (bleaves t @ D) \<subseteq> insert ?m (Collect (starts h1) - {?z})"
    using insert_duplicate [OF assms(2) [unfolded s] assms(3,1) refl z(1)] by blast
  have "set (bleaves t) \<inter> set D = {}" using i(13) by simp
  from delete_node_chain [OF i(2-4,8,9) this] obtain h c where d: "critbit_delete_node (bptr t) (h1, c1) = Some (h, c)" "bheap_ok h"
    "bchain h (bdeleted_node c) (rev (bleaves t) @ D)" "starts h = starts h1" "bmutex c = bmutex c1" by blast
  obtain D1 D2 where sp: "rev (bleaves t) @ D = D1 @ ?m # D2" using i(12) split_list [of ?m "rev (bleaves t) @ D"] by auto
  have "distinct (rev (bleaves t) @ D)" "set (rev (bleaves t) @ D) \<subseteq> insert ?m (Collect (starts h1) - {?z})" using i(13,14) by simp_all
  then have D: "distinct (D1 @ D2)" "set (D1 @ D2) \<subseteq> Collect (starts h)" "\<forall>b\<in>set D1. ?m \<noteq> b + NODE_SIZE"
    unfolding sp d(4) by auto
  obtain h' where h': "bfrees D1 h = Some h'" "\<not> starts h' ?m" "critbit_free_deleted h (bdeleted_node c) = None"
    using free_deleted_bad [OF d(2) d(3) [unfolded sp] D(2,1) z(2) _ D(3)] i(11) d(4) by auto
  have "critbit_delete (h1, c1) = None" using d(1,5) h'(3) i(5,7) bptr_nonnull [OF i(2)] by (simp add: critbit_delete_def)
  then show ?thesis using i(1,5,6) s d(1) d(3) [unfolded sp] h'(1,2) z(2) get_tree [OF i(2,4,5)]
    by (intro exI [of _ "(h1, c1)"]) auto
qed

theorem critbit_insert_duplicate_breaks_witness:
  "\<exists>s'. critbit_insert (first_fit_pairs 16777216) 3 50 bdemo = Some (0, s') \<and> critbit_get 1 s' = Some 10
    \<and> critbit_get 3 s' = Some (zalloc_pair (first_fit_pairs 16777216) (fst bdemo)) \<and> critbit_delete s' = None"
proof -
  have "bblocks (fst bdemo) \<le> 2" using card_insert_le_m1 by (simp add: bblocks_def bdemo_def Collect_disj_eq)
  then have "zalloc_pair (first_fit_pairs 16777216) (fst bdemo) \<noteq> NULL"
    using critbit_rel_heap [of "fst bdemo" "snd bdemo"] bdemo_rel by (intro ffp.serves) simp_all
  from critbit_insert_duplicate_breaks [OF ffp.ok bdemo_rel _ this, of 3 50] obtain s' where
    s': "critbit_insert (first_fit_pairs 16777216) 3 50 bdemo = Some (0, s')" "critbit_delete s' = None"
      "\<And>x. critbit_get x s' = Some (val_of (([1 \<mapsto> 10, 3 \<mapsto> 30](3 \<mapsto> zalloc_pair (first_fit_pairs 16777216) (fst bdemo))) x))"
    by auto
  then show ?thesis by (intro exI [of _ s']) simp
qed

end
