(* ===== verification/Tcradix_Model.thy ===== *)
theory Tcradix_Model
  imports Hashmap
begin

text \<open>
  The operations of \<open>src/tcradix.c\<close>: a radix tree over the 16 nibbles of a key, in which a
  subtree that has only ever held one key is not built but remembered in the fields
  \<open>only_key\<close> and \<open>only_val\<close> of its node.

  A node owns its children (all node pointers of the source are \<open>restrict\<close>), so a node is a
  value of a datatype; an entry of \<open>nodes[]\<close> is NULL, a node, or, in a node of level 0, a
  value.  The chain of deleted nodes runs through \<open>nodes[0]\<close> as in the source.  An access that
  would take a value for a node is undefined: \<open>None\<close>.  \<open>live\<close> counts the blocks that
  \<open>Zalloc\<close> handed out and \<open>Free\<close> has not yet taken back; whether \<open>Zalloc\<close> succeeds is
  the argument \<open>mal\<close>.  The root is embedded in \<open>struct tcrhead\<close> and freed with it.
  The counters of \<open>TRACEMEM\<close> and the messages of \<open>DEBUG_SPAM\<close> have no counterpart.
\<close>

definition SLICE :: nat where "SLICE = 4"
definition TCR_SLNODES :: nat where "TCR_SLNODES = 16"
definition LEVELS :: nat where "LEVELS = (63 + SLICE) div SLICE"
definition TOP_EMPTY :: u64 where "TOP_EMPTY = 0xffffffffffffffff"

datatype tcrnode = Tcrnode (tnodes: "tslot list") (only_key: u64) (only_val: ptr) (nchildren: u64)
  and tslot = TNull | TSub tcrnode | TVal ptr

record tmem =
  tdeleted_node :: tslot
  live :: nat

record tcrhead =
  troot :: tcrnode
  write_status :: u64
  tmutex :: bool
  tmem :: tmem

definition set_slot :: "nat \<Rightarrow> tslot \<Rightarrow> tcrnode \<Rightarrow> tcrnode" where
  "set_slot i x n = Tcrnode ((tnodes n)[i := x]) (only_key n) (only_val n) (nchildren n)"

definition set_only_key :: "u64 \<Rightarrow> tcrnode \<Rightarrow> tcrnode" where
  "set_only_key k n = Tcrnode (tnodes n) k (only_val n) (nchildren n)"

definition set_only_val :: "ptr \<Rightarrow> tcrnode \<Rightarrow> tcrnode" where
  "set_only_val v n = Tcrnode (tnodes n) (only_key n) v (nchildren n)"

definition set_nchildren :: "u64 \<Rightarrow> tcrnode \<Rightarrow> tcrnode" where
  "set_nchildren x n = Tcrnode (tnodes n) (only_key n) (only_val n) x"

text \<open>A node that \<open>Zalloc\<close> has zeroed, and a value as an entry of \<open>nodes[]\<close>.\<close>

definition zero_node :: tcrnode where
  "zero_node = Tcrnode (replicate TCR_SLNODES TNull) 0 NULL 0"

definition slot_val :: "ptr \<Rightarrow> tslot" where
  "slot_val v = (if v = NULL then TNull else TVal v)"

definition tcradix_new :: "(tmem \<Rightarrow> bool) \<Rightarrow> tcrhead option" where
  "tcradix_new mal =
     (let c = \<lparr>tdeleted_node = TNull, live = 0\<rparr>
      in if \<not> mal c then None
         else Some \<lparr>troot = set_only_key TOP_EMPTY zero_node, write_status = 0, tmutex = False, tmem = c\<lparr>live := Suc (live c)\<rparr>\<rparr>)"

definition write_poke :: "tcrhead \<Rightarrow> tcrhead" where
  "write_poke h = h\<lparr>write_status := write_status h + 1\<rparr>"

definition sl :: "u64 \<Rightarrow> nat \<Rightarrow> nat" where
  "sl key lev = unat (drop_bit (lev * SLICE) key AND of_nat (TCR_SLNODES - 1))"

definition tfree :: "tmem \<Rightarrow> tmem option" where
  "tfree c = (if live c = 0 then None else Some (c\<lparr>live := live c - 1\<rparr>))"

text \<open>\<open>teardown\<close>; \<open>teardown_slots\<close> is its loop over \<open>nodes[]\<close>.\<close>

function teardown :: "tcrnode \<Rightarrow> nat \<Rightarrow> tmem \<Rightarrow> tmem option"
  and teardown_slots :: "tslot list \<Rightarrow> nat \<Rightarrow> tmem \<Rightarrow> tmem option" where
  "teardown n lev c = do {
     c \<leftarrow> (if lev = 0 then Some c
          else if only_key n \<noteq> 0 then
            (case tnodes n ! sl (only_key n) lev of
               TNull \<Rightarrow> Some c
             | TSub m \<Rightarrow> teardown m (lev - 1) c
             | TVal _ \<Rightarrow> None)
          else teardown_slots (tnodes n) (lev - 1) c);
     tfree c
   }"
| "teardown_slots [] lev c = Some c"
| "teardown_slots (x # xs) lev c =
     (case x of
        TNull \<Rightarrow> teardown_slots xs lev c
      | TSub m \<Rightarrow> do { c \<leftarrow> teardown m lev c; teardown_slots xs lev c }
      | TVal _ \<Rightarrow> None)"
  by pat_completeness auto

termination
  by (relation "inv_image (less_than <*lex*> less_than)
      (case_sum (\<lambda>(n, lev, c). (lev, 0)) (\<lambda>(xs, lev, c). (lev, Suc (length xs))))") auto

partial_function (option) free_deleted :: "tslot \<Rightarrow> tmem \<Rightarrow> tmem option" where
  [code]: "free_deleted m c =
     (case m of
        TNull \<Rightarrow> Some c
      | TSub n \<Rightarrow> do { let mm = tnodes n ! 0; c \<leftarrow> tfree c; free_deleted mm c }
      | TVal _ \<Rightarrow> None)"

text \<open>\<open>delete\<close> returns the number of blocks still allocated.\<close>

definition tcradix_delete :: "tcrhead \<Rightarrow> nat option" where
  "tcradix_delete h =
     (if tmutex h then None
      else do {
        c \<leftarrow> free_deleted (tdeleted_node (tmem h)) (tmem h);
        c \<leftarrow> teardown (troot h) (LEVELS - 1) c;
        Some (live c)
      })"

fun tcr_alloc_node :: "(tmem \<Rightarrow> bool) \<Rightarrow> tmem \<Rightarrow> (tcrnode option \<times> tmem) option" where
  "tcr_alloc_node mal c =
     (case tdeleted_node c of
        TNull \<Rightarrow> Some (if mal c then (Some zero_node, c\<lparr>live := Suc (live c)\<rparr>) else (None, c))
      | TSub n \<Rightarrow> Some (Some (set_slot 0 TNull n), c\<lparr>tdeleted_node := tnodes n ! 0\<rparr>)
      | TVal _ \<Rightarrow> None)"

function tcr_insert_child ::
    "(tmem \<Rightarrow> bool) \<Rightarrow> tmem \<Rightarrow> tcrnode \<Rightarrow> nat \<Rightarrow> u64 \<Rightarrow> ptr \<Rightarrow> (int \<times> tmem \<times> tcrnode) option"
  and tcr_insert :: "(tmem \<Rightarrow> bool) \<Rightarrow> tmem \<Rightarrow> tcrnode \<Rightarrow> nat \<Rightarrow> u64 \<Rightarrow> ptr \<Rightarrow> (int \<times> tmem \<times> tcrnode) option"
where
  "tcr_insert_child mal c n lev key value =
     (if lev = 0 then None
      else case tnodes n ! sl key lev of
        TSub m \<Rightarrow> do {
          (ret, c, m) \<leftarrow> tcr_insert mal c m (lev - 1) key value;
          Some (ret, c, set_slot (sl key lev) (TSub m) n)
        }
      | TVal _ \<Rightarrow> None
      | TNull \<Rightarrow> do {
          (m, c) \<leftarrow> tcr_alloc_node mal c;
          case m of
            None \<Rightarrow> Some (ENOMEM, c, n)
          | Some m \<Rightarrow> do {
              let m = set_nchildren (if lev = 1 then 1 else 0) (set_only_val value (set_only_key key m));
              (ret, c, m) \<leftarrow>
                (if lev = 1 then Some (0, c, set_slot (sl key 0) (slot_val value) m)
                 else if key = 0 then do {
                   (ret, c, m) \<leftarrow> tcr_insert mal c m (lev - 1) key value;
                   if ret \<noteq> 0 then do { c \<leftarrow> teardown m (lev - 1) c; Some (ret, c, m) }
                   else Some (0, c, m)
                 }
                 else Some (0, c, m));
              if ret \<noteq> 0 then Some (ret, c, n)
              else Some (0, c, set_nchildren (nchildren n + 1) (set_slot (sl key lev) (TSub m) n))
            }
        })"
| "tcr_insert mal c n lev key value =
     (if lev = 0 then
        Some (0, c, set_slot (sl key lev) (slot_val value)
                      (if tnodes n ! sl key lev = TNull then set_nchildren (nchildren n + 1) n else n))
      else do {
        (ret, c, n) \<leftarrow>
          (if only_key n \<noteq> 0 then
             if only_key n = key then Some (0, c, set_only_val value n)
             else do {
               (ret, c, n) \<leftarrow> tcr_insert_child mal c n lev (only_key n) (only_val n);
               if ret \<noteq> 0 then Some (ret, c, n) else Some (0, c, set_only_key 0 n)
             }
           else Some (0, c, n));
        if ret \<noteq> 0 then Some (ret, c, n) else tcr_insert_child mal c n lev key value
      })"
  by pat_completeness auto

termination
  by (relation "measure (case_sum (\<lambda>(mal, c, n, lev, k, v). 2 * lev - 1) (\<lambda>(mal, c, n, lev, k, v). 2 * lev))") auto

fun tcr_lock :: "tcrhead \<Rightarrow> tcrhead option" where
  "tcr_lock h = (if tmutex h then None else Some (h\<lparr>tmutex := True\<rparr>))"

definition tcr_unlock :: "tcrhead \<Rightarrow> tcrhead" where
  "tcr_unlock h = h\<lparr>tmutex := False\<rparr>"

definition tcradix_insert :: "(tmem \<Rightarrow> bool) \<Rightarrow> u64 \<Rightarrow> ptr \<Rightarrow> tcrhead \<Rightarrow> (int \<times> tcrhead) option" where
  "tcradix_insert mal key value h =
     (if value = NULL then Some (0, h)
      else do {
        h \<leftarrow> tcr_lock h;
        let h = write_poke h;
        let h = (if only_key (troot h) = TOP_EMPTY \<and> nchildren (troot h) = 0
                 then h\<lparr>troot := set_only_key key (set_only_val value (troot h))\<rparr> else h);
        (ret, c, n) \<leftarrow> tcr_insert mal (tmem h) (troot h) (LEVELS - 1) key value;
        let h = tcr_unlock (write_poke (h\<lparr>troot := n, tmem := c\<rparr>));
        if ret \<noteq> 0 then Some (ret, h) else Some (0, h)
      })"

text \<open>\<open>nremove\<close>: the result, \<open>*value\<close>, and the states.\<close>

fun nremove :: "tmem \<Rightarrow> tcrnode \<Rightarrow> nat \<Rightarrow> u64 \<Rightarrow> ptr \<Rightarrow> (bool \<times> ptr \<times> tmem \<times> tcrnode) option" where
  "nremove c n lev key value =
     (let (n, value) = (if only_key n = key \<and> key \<noteq> 0 then (set_only_key 0 n, only_val n) else (n, value));
          slice = sl key lev
      in if lev = 0 then
           (case tnodes n ! slice of
              TNull \<Rightarrow> Some (False, value, c, n)
            | TVal v \<Rightarrow> let n = set_nchildren (nchildren n - 1) (set_slot slice TNull n)
                      in Some (nchildren n = 0 \<and> only_key n = 0, v, c, n)
            | TSub _ \<Rightarrow> None)
         else
           (case tnodes n ! slice of
              TNull \<Rightarrow> Some (nchildren n = 0 \<and> only_key n = 0, value, c, n)
            | TVal _ \<Rightarrow> None
            | TSub m \<Rightarrow> do {
                (r, value, c, m) \<leftarrow> nremove c m (lev - 1) key value;
                if \<not> r then Some (False, value, c, set_slot slice (TSub m) n)
                else do {
                  let n = set_slot slice TNull n;
                  let m = set_slot 0 (tdeleted_node c) (set_only_val NULL m);
                  let c = c\<lparr>tdeleted_node := TSub m\<rparr>;
                  let n = set_nchildren (nchildren n - 1) n;
                  Some (nchildren n = 0 \<and> only_key n = 0, value, c, n)
                }
              }))"

definition tcradix_remove :: "u64 \<Rightarrow> tcrhead \<Rightarrow> (ptr \<times> tcrhead) option" where
  "tcradix_remove key h = do {
     h \<leftarrow> tcr_lock h;
     let h = write_poke h;
     (r, value, c, n) \<leftarrow> nremove (tmem h) (troot h) (LEVELS - 1) key NULL;
     Some (value, tcr_unlock (write_poke (h\<lparr>troot := n, tmem := c\<rparr>)))
   }"

text \<open>The macros \<open>GETL(15); \<dots> GETL(0)\<close>: a return from inside, or the pointer they leave in \<open>n\<close>.\<close>

datatype getl = Return ptr | Fall ptr

fun GETL :: "nat \<Rightarrow> tcrnode \<Rightarrow> u64 \<Rightarrow> getl option" where
  "GETL l n key =
     (if l \<noteq> 0 \<and> only_key n \<noteq> 0 then Some (Return (if only_key n = key then only_val n else NULL))
      else case tnodes n ! sl key l of
        TNull \<Rightarrow> Some (Return NULL)
      | TSub m \<Rightarrow> if l = 0 then None else GETL (l - 1) m key
      | TVal v \<Rightarrow> if l = 0 then Some (Fall v) else None)"

text \<open>
  With no writer running at the same time, both loads of \<open>write_status\<close> see the same number;
  an odd one makes \<open>get_slow\<close> spin.
\<close>

partial_function (option) get_slow :: "tcrhead \<Rightarrow> u64 \<Rightarrow> ptr option" where
  [code]: "get_slow h key = do {
     let wrs1 = write_status h;
     if wrs1 AND 1 \<noteq> 0 then get_slow h key
     else do {
       r \<leftarrow> GETL (LEVELS - 1) (troot h) key;
       case r of
         Return v \<Rightarrow> Some v
       | Fall n \<Rightarrow> let wrs2 = write_status h in if wrs1 \<noteq> wrs2 then get_slow h key else Some n
     }
   }"

definition tcradix_get :: "u64 \<Rightarrow> tcrhead \<Rightarrow> ptr option" where
  "tcradix_get key h = do {
     let wrs1 = write_status h;
     if wrs1 AND 1 \<noteq> 0 then get_slow h key
     else do {
       r \<leftarrow> GETL (LEVELS - 1) (troot h) key;
       case r of
         Return v \<Rightarrow> Some v
       | Fall n \<Rightarrow> let wrs2 = write_status h in if wrs1 \<noteq> wrs2 then get_slow h key else Some n
     }
   }"

definition tcradix_find_le :: "u64 \<Rightarrow> tcrhead \<Rightarrow> ptr option" where
  "tcradix_find_le key h = None"

end
