(* ===== verification/Tcradix_Node.thy ===== *)
theory Tcradix_Node
  imports Tcradix_Model
begin

text \<open>
  Nodes of \<open>src/tcradix.c\<close>.  \<open>wfn l p n\<close> says that \<open>n\<close> is a node of level \<open>l\<close>
  whose keys share the prefix \<open>p\<close>: the counter of children is right, the children are well
  formed, and where \<open>only_key\<close> is set the subtree holds that key and no other.  \<open>tlook\<close> is
  what a lookup sees, \<open>tsize\<close> the number of nodes, and \<open>mem_ok\<close> the account of the memory:
  every block is a node of the tree or a clean node on the chain of deleted nodes.
\<close>

text \<open>The recursive equations are applied by hand, one step at a time.\<close>

declare tcr_insert.simps [simp del] tcr_insert_child.simps [simp del] teardown.simps [simp del]
  tcr_alloc_node.simps [simp del] nremove.simps [simp del] GETL.simps [simp del]

subsection \<open>Slices and fields\<close>

lemma sl_up: "sl k l = up (4 * l) k mod 16"
proof -
  have "(of_nat (TCR_SLNODES - 1) :: u64) = mask 4" by (simp add: TCR_SLNODES_def mask_eq_exp_minus_1)
  then have "drop_bit (l * SLICE) k AND of_nat (TCR_SLNODES - 1) = take_bit 4 (drop_bit (4 * l) k)"
    by (simp add: SLICE_def take_bit_eq_mask mult.commute)
  then show ?thesis by (simp add: sl_def unat_mod unat_drop_bit64 take_bit_eq_mod)
qed

lemma sl_less [simp]: "sl k l < 16"
  by (simp add: sl_up)

text \<open>The keys below a node of level \<open>l\<close> share the number \<open>pre l k\<close>.\<close>

definition pre :: "nat \<Rightarrow> u64 \<Rightarrow> nat" where
  "pre l k = up (4 * l + 4) k"

lemma pre_child: "pre l k = 16 * pre (Suc l) k + sl k (Suc l)"
  using up_split [of "4 * Suc l" k] by (simp add: pre_def sl_up add.commute)

lemma pre_eq: "pre (Suc l) k = pre (Suc l) k' \<Longrightarrow> sl k (Suc l) = sl k' (Suc l) \<longleftrightarrow> pre l k = pre l k'"
  by (simp only: pre_child [of l k] pre_child [of l k']) simp

lemma pre_0_eq: "pre 0 k = pre 0 k' \<Longrightarrow> sl k 0 = sl k' 0 \<Longrightarrow> k = k'"
  using up_eq_split [of 0 k k'] by (simp add: pre_def sl_up word_unat_eq_iff)

lemma pre_top: "pre 15 k = 0"
  using unsigned_less [of k, where 'a = nat] by (simp add: pre_def up_def)

lemma node_fields [simp]:
  "tnodes (set_slot i x n) = (tnodes n)[i := x]" "only_key (set_slot i x n) = only_key n"
  "only_val (set_slot i x n) = only_val n" "nchildren (set_slot i x n) = nchildren n"
  "tnodes (set_only_key k n) = tnodes n" "only_key (set_only_key k n) = k"
  "only_val (set_only_key k n) = only_val n" "nchildren (set_only_key k n) = nchildren n"
  "tnodes (set_only_val v n) = tnodes n" "only_key (set_only_val v n) = only_key n"
  "only_val (set_only_val v n) = v" "nchildren (set_only_val v n) = nchildren n"
  "tnodes (set_nchildren j n) = tnodes n" "only_key (set_nchildren j n) = only_key n"
  "only_val (set_nchildren j n) = only_val n" "nchildren (set_nchildren j n) = j"
  by (simp_all add: set_slot_def set_only_key_def set_only_val_def set_nchildren_def)

lemma zero_node_fields [simp]:
  "tnodes zero_node = replicate 16 TNull" "only_key zero_node = 0" "only_val zero_node = NULL" "nchildren zero_node = 0"
  by (simp_all add: zero_node_def TCR_SLNODES_def)

subsection \<open>The invariant of a node\<close>

text \<open>What \<open>GETL\<close> finds in a node of level \<open>l\<close>.\<close>

fun tlook :: "nat \<Rightarrow> tcrnode \<Rightarrow> u64 \<Rightarrow> ptr" where
  "tlook 0 n k = (case tnodes n ! sl k 0 of TVal v \<Rightarrow> v | _ \<Rightarrow> NULL)"
| "tlook (Suc l) n k =
     (if only_key n \<noteq> 0 then (if only_key n = k then only_val n else NULL)
      else case tnodes n ! sl k (Suc l) of TSub m \<Rightarrow> tlook l m k | _ \<Rightarrow> NULL)"

definition clook :: "nat \<Rightarrow> tcrnode \<Rightarrow> u64 \<Rightarrow> ptr" where
  "clook l n k = (case tnodes n ! sl k (Suc l) of TSub m \<Rightarrow> tlook l m k | _ \<Rightarrow> NULL)"

definition used :: "tcrnode \<Rightarrow> nat" where
  "used n = length (filter (\<lambda>x. x \<noteq> TNull) (tnodes n))"

text \<open>
  A subtree that has only ever held the key \<open>k\<close>: every node on the path to it, as far as the
  path is built, remembers \<open>k\<close> and its value.
\<close>

fun only :: "nat \<Rightarrow> u64 \<Rightarrow> ptr \<Rightarrow> tcrnode \<Rightarrow> bool" where
  "only 0 k v n \<longleftrightarrow> (\<forall>i<16. tnodes n ! i = (if i = sl k 0 then TVal v else TNull))"
| "only (Suc l) k v n \<longleftrightarrow> only_key n = k \<and> only_val n = v
     \<and> (\<forall>i<16. i \<noteq> sl k (Suc l) \<longrightarrow> tnodes n ! i = TNull)
     \<and> (case tnodes n ! sl k (Suc l) of TNull \<Rightarrow> True | TSub m \<Rightarrow> only l k v m | TVal _ \<Rightarrow> False)"

definition wf0 :: "tcrnode \<Rightarrow> bool" where
  "wf0 n \<longleftrightarrow> length (tnodes n) = 16 \<and> nchildren n = of_nat (used n)"

fun wfn :: "nat \<Rightarrow> nat \<Rightarrow> tcrnode \<Rightarrow> bool" where
  "wfn 0 p n \<longleftrightarrow> wf0 n
     \<and> (\<forall>i<16. case tnodes n ! i of TNull \<Rightarrow> True | TSub _ \<Rightarrow> False | TVal v \<Rightarrow> v \<noteq> NULL)
     \<and> (only_key n \<noteq> 0 \<longrightarrow> pre 0 (only_key n) = p \<and> tnodes n ! sl (only_key n) 0 \<noteq> TNull)"
| "wfn (Suc l) p n \<longleftrightarrow> wf0 n
     \<and> (\<forall>i<16. case tnodes n ! i of TNull \<Rightarrow> True | TSub m \<Rightarrow> wfn l (16 * p + i) m | TVal _ \<Rightarrow> False)
     \<and> (only_key n \<noteq> 0 \<longrightarrow> pre (Suc l) (only_key n) = p \<and> only_val n \<noteq> NULL
          \<and> only (Suc l) (only_key n) (only_val n) n)"

definition wfc :: "nat \<Rightarrow> nat \<Rightarrow> tcrnode \<Rightarrow> bool" where
  "wfc l p n \<longleftrightarrow> wf0 n
     \<and> (\<forall>i<16. case tnodes n ! i of TNull \<Rightarrow> True | TSub m \<Rightarrow> wfn l (16 * p + i) m | TVal _ \<Rightarrow> False)"

lemma wfn_Suc: "wfn (Suc l) p n \<longleftrightarrow> wfc l p n \<and> (only_key n \<noteq> 0 \<longrightarrow> pre (Suc l) (only_key n) = p
    \<and> only_val n \<noteq> NULL \<and> only (Suc l) (only_key n) (only_val n) n)"
  by (auto simp: wfc_def)

lemma wfcD: "wfc l p n \<Longrightarrow> i < 16 \<Longrightarrow> tnodes n ! i = TSub m \<Longrightarrow> wfn l (16 * p + i) m"
  "wfc l p n \<Longrightarrow> i < 16 \<Longrightarrow> tnodes n ! i \<noteq> TVal v"
  "wfc l p n \<Longrightarrow> length (tnodes n) = 16"
  by (auto simp: wfc_def wf0_def split: tslot.splits)

lemma wfn_wf0: "wfn l p n \<Longrightarrow> wf0 n"
  by (cases l) simp_all

text \<open>Number of nodes, and the effect of one store into \<open>nodes[]\<close>.\<close>

primrec tsize :: "nat \<Rightarrow> tcrnode \<Rightarrow> nat" where
  "tsize 0 = (\<lambda>n. 1)"
| "tsize (Suc l) = (\<lambda>n. Suc (sum_list (map (\<lambda>x. case x of TSub m \<Rightarrow> tsize l m | _ \<Rightarrow> 0) (tnodes n))))"

definition ssize :: "nat \<Rightarrow> tslot \<Rightarrow> nat" where
  "ssize l x = (case x of TSub m \<Rightarrow> tsize l m | _ \<Rightarrow> 0)"

lemma ssize_simps [simp]: "ssize l TNull = 0" "ssize l (TSub m) = tsize l m" "ssize l (TVal v) = 0"
  by (simp_all add: ssize_def)

lemma tsize_Suc: "tsize (Suc l) n = Suc (sum_list (map (ssize l) (tnodes n)))"
  by (simp add: ssize_def [abs_def])

declare tsize.simps(2) [simp del]

lemma tsize_fields [simp]:
  "tsize l (set_only_key k n) = tsize l n" "tsize l (set_only_val v n) = tsize l n" "tsize l (set_nchildren j n) = tsize l n"
  by (cases l; simp add: tsize_Suc)+

lemma sum_list_map_update:
  "i < length xs \<Longrightarrow> sum_list (map f (xs[i := y])) + (f (xs ! i) :: nat) = sum_list (map f xs) + f y"
  by (induction xs arbitrary: i) (auto split: nat.splits)

lemma tsize_set_slot:
  "i < length (tnodes n) \<Longrightarrow> tsize (Suc l) (set_slot i y n) + ssize l (tnodes n ! i) = tsize (Suc l) n + ssize l y"
  unfolding tsize_Suc using sum_list_map_update [of i "tnodes n" "ssize l" y] by simp

lemma used_sum: "used n = sum_list (map (\<lambda>x. if x = TNull then 0 else 1) (tnodes n))"
proof -
  have "length (filter (\<lambda>x. x \<noteq> TNull) xs) = sum_list (map (\<lambda>x. if x = TNull then 0 else 1) xs)" for xs
    by (induction xs) auto
  then show ?thesis by (simp add: used_def)
qed

lemma used_set_slot:
  "i < length (tnodes n) \<Longrightarrow>
   used (set_slot i y n) + (if tnodes n ! i = TNull then 0 else 1) = used n + (if y = TNull then 0 else 1)"
  unfolding used_sum using sum_list_map_update [of i "tnodes n" "\<lambda>x. if x = TNull then 0 else 1" y] by simp

lemma used_fields [simp]:
  "used (set_only_key k n) = used n" "used (set_only_val v n) = used n" "used (set_nchildren j n) = used n"
  by (simp_all add: used_def)

lemma used_le: "wf0 n \<Longrightarrow> used n \<le> 16"
  using length_filter_le [of "\<lambda>x. x \<noteq> TNull" "tnodes n"] by (simp add: used_def wf0_def)

lemma nchildren_0: "wf0 n \<Longrightarrow> nchildren n = 0 \<longleftrightarrow> tnodes n = replicate 16 TNull"
proof -
  assume w: "wf0 n"
  have "unat (nchildren n) = used n"
    using used_le [OF w] w by (simp add: wf0_def unat_of_nat take_bit_nat_eq_self)
  then have "nchildren n = 0 \<longleftrightarrow> used n = 0" by (metis unat_0 word_unat_eq_iff)
  also have "\<dots> \<longleftrightarrow> (\<forall>x\<in>set (tnodes n). x = TNull)" by (simp add: used_def filter_empty_conv)
  also have "\<dots> \<longleftrightarrow> tnodes n = replicate 16 TNull"
    using w replicate_eqI [of "tnodes n" 16 TNull] by (auto simp: wf0_def)
  finally show ?thesis .
qed

lemma wf0_set_slot:
  assumes "wf0 n" "i < 16"
  shows "tnodes n ! i \<noteq> TNull \<Longrightarrow> y \<noteq> TNull \<Longrightarrow> wf0 (set_slot i y n)"
    "tnodes n ! i = TNull \<Longrightarrow> y \<noteq> TNull \<Longrightarrow> wf0 (set_nchildren (nchildren n + 1) (set_slot i y n))"
    "tnodes n ! i \<noteq> TNull \<Longrightarrow> wf0 (set_nchildren (nchildren n - 1) (set_slot i TNull n))"
proof -
  note u = used_set_slot [of i n y] used_set_slot [of i n TNull]
  have l: "i < length (tnodes n)" using assms by (simp add: wf0_def)
  show "tnodes n ! i \<noteq> TNull \<Longrightarrow> y \<noteq> TNull \<Longrightarrow> wf0 (set_slot i y n)"
    "tnodes n ! i = TNull \<Longrightarrow> y \<noteq> TNull \<Longrightarrow> wf0 (set_nchildren (nchildren n + 1) (set_slot i y n))"
    using u(1) [OF l] assms by (simp_all add: wf0_def)
  assume ne: "tnodes n ! i \<noteq> TNull"
  then have "used n = Suc (used (set_slot i TNull n))" using u(2) [OF l] by simp
  then have "(of_nat (used n) :: u64) - 1 = of_nat (used (set_slot i TNull n))" by simp
  then show "wf0 (set_nchildren (nchildren n - 1) (set_slot i TNull n))" using assms by (simp add: wf0_def)
qed

lemma wf0_fields [simp]: "wf0 (set_only_key k n) = wf0 n" "wf0 (set_only_val v n) = wf0 n"
  by (simp_all add: wf0_def)

lemma wfc_fields [simp]: "wfc l p (set_only_key k n) = wfc l p n" "wfc l p (set_only_val v n) = wfc l p n"
  by (simp_all add: wfc_def)

lemma clook_fields [simp]:
  "clook l (set_only_key k n) = clook l n" "clook l (set_only_val v n) = clook l n" "clook l (set_nchildren j n) = clook l n"
  by (simp_all add: clook_def fun_eq_iff)

lemma wf0_zero [simp]: "wf0 zero_node"
  by (simp add: wf0_def used_def)

lemma wfn_zero: "wfn l p zero_node"
  by (cases l) simp_all

lemma tlook_zero [simp]: "tlook l zero_node k = NULL"
  by (cases l) simp_all

subsection \<open>Memory\<close>

text \<open>
  The chain of deleted nodes: apart from the link in \<open>nodes[0]\<close>, every node on it is as
  \<open>Zalloc\<close> would return it.
\<close>

fun pooled :: "nat \<Rightarrow> tslot \<Rightarrow> bool" where
  "pooled 0 x \<longleftrightarrow> x = TNull"
| "pooled (Suc j) x \<longleftrightarrow> (\<exists>m. x = TSub m \<and> set_slot 0 TNull m = zero_node \<and> pooled j (tnodes m ! 0))"

definition mem_ok :: "tmem \<Rightarrow> nat \<Rightarrow> bool" where
  "mem_ok c x \<longleftrightarrow> (\<exists>j. pooled j (tdeleted_node c) \<and> live c = x + j)"

lemma alloc_cases:
  assumes "mem_ok c x"
  obtains (failed) "tcr_alloc_node mal c = Some (None, c)" "\<not> mal c"
  | (served) c' where "tcr_alloc_node mal c = Some (Some zero_node, c')" "mem_ok c' (Suc x)" "live c' \<le> Suc (live c)"
proof -
  obtain j where j: "pooled j (tdeleted_node c)" "live c = x + j" using assms by (auto simp: mem_ok_def)
  show ?thesis
  proof (cases j)
    case 0
    show ?thesis
    proof (cases "mal c")
      case True
      show ?thesis by (rule served [of "c\<lparr>live := Suc (live c)\<rparr>"]) (use 0 j True in \<open>auto simp: mem_ok_def tcr_alloc_node.simps\<close>)
    next
      case False
      show ?thesis by (rule failed) (use 0 j False in \<open>auto simp: tcr_alloc_node.simps\<close>)
    qed
  next
    case (Suc j')
    then obtain m where m: "tdeleted_node c = TSub m" "set_slot 0 TNull m = zero_node" "pooled j' (tnodes m ! 0)"
      using j by auto
    show ?thesis
      by (rule served [of "c\<lparr>tdeleted_node := tnodes m ! 0\<rparr>"]) (use m j Suc in \<open>auto simp: mem_ok_def tcr_alloc_node.simps\<close>)
  qed
qed

lemma sum_one: "i < length xs \<Longrightarrow> (\<And>j. j < length xs \<Longrightarrow> j \<noteq> i \<Longrightarrow> f (xs ! j) = 0) \<Longrightarrow> sum_list (map f xs) = (f (xs ! i) :: nat)"
proof -
  assume i: "i < length xs" and z: "\<And>j. j < length xs \<Longrightarrow> j \<noteq> i \<Longrightarrow> f (xs ! j) = 0"
  have "sum_list (map f xs) = (\<Sum>j<length xs. f (xs ! j))" by (simp add: sum_list_sum_nth atLeast0LessThan)
  also have "\<dots> = (\<Sum>j\<in>{i}. f (xs ! j))" by (rule sum.mono_neutral_right) (use i z in auto)
  finally show ?thesis by simp
qed

lemma tsize_only:
  "length (tnodes n) = 16 \<Longrightarrow> only (Suc l) k v n \<Longrightarrow> tsize (Suc l) n = Suc (ssize l (tnodes n ! sl k (Suc l)))"
  unfolding tsize_Suc by (subst sum_one [of "sl k (Suc l)"]) auto

lemma live_twice: "c\<lparr>live := a\<rparr>\<lparr>live := b\<rparr> = c\<lparr>live := b\<rparr>"
  by simp

lemma teardown_ok:
  "wfn l p n \<Longrightarrow> tsize l n \<le> live c \<Longrightarrow> teardown n l c = Some (c\<lparr>live := live c - tsize l n\<rparr>)"
proof (induction l arbitrary: p n c)
  case 0
  then show ?case by (simp add: teardown.simps tfree_def)
next
  case (Suc l)
  have wc: "wfc l p n" using Suc.prems(1) unfolding wfn_Suc by blast
  have slots: "(\<forall>x\<in>set xs. x = TNull \<or> (\<exists>m p. x = TSub m \<and> wfn l p m)) \<Longrightarrow> sum_list (map (ssize l) xs) \<le> live c \<Longrightarrow>
      teardown_slots xs l c = Some (c\<lparr>live := live c - sum_list (map (ssize l) xs)\<rparr>)" for xs c
  proof (induction xs arbitrary: c)
    case (Cons x xs)
    show ?case
    proof (cases x)
      case (TSub m)
      then obtain p where "wfn l p m" using Cons.prems(1) by auto
      then have "teardown m l c = Some (c\<lparr>live := live c - tsize l m\<rparr>)" using Suc.IH Cons.prems(2) TSub by simp
      moreover have "teardown_slots xs l (c\<lparr>live := live c - tsize l m\<rparr>) =
          Some (c\<lparr>live := live c - tsize l m\<rparr>\<lparr>live := live (c\<lparr>live := live c - tsize l m\<rparr>) - sum_list (map (ssize l) xs)\<rparr>)"
        by (rule Cons.IH) (use Cons.prems TSub in auto)
      ultimately show ?thesis using TSub by simp
    qed (use Cons in auto)
  qed simp
  show ?case
  proof (cases "only_key n = 0")
    case True
    have "\<forall>x\<in>set (tnodes n). x = TNull \<or> (\<exists>m p. x = TSub m \<and> wfn l p m)"
    proof
      fix x assume "x \<in> set (tnodes n)"
      then obtain i where "i < 16" "x = tnodes n ! i" using wfcD(3) [OF wc] by (metis in_set_conv_nth)
      then show "x = TNull \<or> (\<exists>m p. x = TSub m \<and> wfn l p m)"
        using wfcD(1,2) [OF wc, of i] by (cases "tnodes n ! i") auto
    qed
    then have "teardown_slots (tnodes n) l c = Some (c\<lparr>live := live c - sum_list (map (ssize l) (tnodes n))\<rparr>)"
      using Suc.prems(2) by (intro slots) (simp_all add: tsize_Suc)
    then show ?thesis using True Suc.prems(2) by (simp add: teardown.simps tsize_Suc tfree_def)
  next
    case False
    have len: "length (tnodes n) = 16" using wfcD(3) [OF wc] .
    have o: "only (Suc l) (only_key n) (only_val n) n" using Suc.prems(1) False by simp
    note sz = tsize_only [OF len o]
    show ?thesis
    proof (cases "tnodes n ! sl (only_key n) (Suc l)")
      case (TSub m)
      then have "wfn l (16 * p + sl (only_key n) (Suc l)) m" using wfcD(1) [OF wc] by simp
      then have "teardown m l c = Some (c\<lparr>live := live c - tsize l m\<rparr>)" using Suc.IH Suc.prems(2) sz TSub by simp
      then show ?thesis using False TSub sz Suc.prems(2) by (subst teardown.simps) (simp add: tfree_def)
    qed (use False sz Suc.prems(2) o in \<open>simp_all add: teardown.simps tfree_def\<close>)
  qed
qed

lemma tcr_free_deleted_ok:
  "pooled j m \<Longrightarrow> j \<le> live c \<Longrightarrow> free_deleted m c = Some (c\<lparr>live := live c - j\<rparr>)"
proof (induction j arbitrary: m c)
  case 0
  then show ?case by (subst free_deleted.simps) simp
next
  case (Suc j)
  then obtain n where n: "m = TSub n" "pooled j (tnodes n ! 0)" by auto
  have "free_deleted (tnodes n ! 0) (c\<lparr>live := live c - 1\<rparr>) = Some (c\<lparr>live := live c - 1\<rparr>\<lparr>live := live (c\<lparr>live := live c - 1\<rparr>) - j\<rparr>)"
    by (rule Suc.IH [OF n(2)]) (use Suc.prems(2) in simp)
  then show ?case using n Suc.prems(2) by (subst free_deleted.simps) (simp add: tfree_def)
qed

subsection \<open>Children\<close>

lemma wfc_set_sub:
  "wfc l p n \<Longrightarrow> i < 16 \<Longrightarrow> tnodes n ! i = TSub m \<Longrightarrow> wfn l (16 * p + i) m' \<Longrightarrow> wfc l p (set_slot i (TSub m') n)"
  unfolding wfc_def using wf0_set_slot(1) [of n i "TSub m'"] by (auto simp: wf0_def nth_list_update)

lemma wfc_add_sub:
  "wfc l p n \<Longrightarrow> i < 16 \<Longrightarrow> tnodes n ! i = TNull \<Longrightarrow> wfn l (16 * p + i) m' \<Longrightarrow>
   wfc l p (set_nchildren (nchildren n + 1) (set_slot i (TSub m') n))"
  unfolding wfc_def using wf0_set_slot(2) [of n i "TSub m'"] by (auto simp: wf0_def nth_list_update)

lemma wfc_del_sub:
  "wfc l p n \<Longrightarrow> i < 16 \<Longrightarrow> tnodes n ! i = TSub m \<Longrightarrow> wfc l p (set_nchildren (nchildren n - 1) (set_slot i TNull n))"
  unfolding wfc_def using wf0_set_slot(3) [of n i] by (auto simp: wf0_def nth_list_update)

lemma child_frame:
  assumes "wfc l p n" "i < 16" "tnodes n ! i = TSub m"
  obtains y where "tsize (Suc l) n = tsize l m + y" "\<And>m'. tsize (Suc l) (set_slot i (TSub m') n) = tsize l m' + y"
    "tsize (Suc l) (set_slot i TNull n) = y"
proof -
  have l: "i < length (tnodes n)" using wfcD(3) [OF assms(1)] assms(2) by simp
  define y where "y = tsize (Suc l) (set_slot i TNull n)"
  have "tsize (Suc l) n = tsize l m + y" using tsize_set_slot [OF l, of l TNull] assms(3) by (simp add: y_def)
  moreover from this have "tsize (Suc l) (set_slot i (TSub m') n) = tsize l m' + y" for m'
    using tsize_set_slot [OF l, of l "TSub m'"] assms(3) by simp
  ultimately show ?thesis using that y_def by blast
qed

lemma tsize_add_sub:
  "wfc l p n \<Longrightarrow> i < 16 \<Longrightarrow> tnodes n ! i = TNull \<Longrightarrow>
   tsize (Suc l) (set_nchildren j (set_slot i (TSub m') n)) = tsize (Suc l) n + tsize l m'"
  using tsize_set_slot [of i n l "TSub m'"] wfcD(3) [of l p n] by simp

lemma clook_set_slot:
  "length (tnodes n) = 16 \<Longrightarrow> clook l (set_slot i x n) k =
     (if sl k (Suc l) = i then (case x of TSub m \<Rightarrow> tlook l m k | _ \<Rightarrow> NULL) else clook l n k)"
  by (auto simp: clook_def nth_list_update)

lemma tlook_only:
  "only l k v n \<Longrightarrow> l = 0 \<or> k \<noteq> 0 \<Longrightarrow> pre l x = pre l k \<Longrightarrow> tlook l n x = (if x = k then v else NULL)"
proof (cases l)
  case 0
  assume a: "only l k v n" "pre l x = pre l k"
  have "tnodes n ! sl x 0 = (if sl x 0 = sl k 0 then TVal v else TNull)" using a(1) 0 by simp
  moreover have "sl x 0 = sl k 0 \<longleftrightarrow> x = k" using pre_0_eq [of x k] a(2) 0 by auto
  ultimately show ?thesis using 0 by simp
qed auto

end
