(* ===== verification/Tcradix_Insert.thy ===== *)
theory Tcradix_Insert
  imports Tcradix_Node
begin

text \<open>
  Insertion into a node of \<open>src/tcradix.c\<close>: first into a subtree that has only ever held the
  key (\<open>chain_insert\<close>), which is also how a remembered key is given a node of its own, then in
  general (\<open>tcr_insert_ok\<close>), with and without memory.
\<close>

subsection \<open>Insertion into a subtree with one key\<close>

text \<open>
  Where the subtree has only ever held the key, an insertion builds at most one more node of the
  path to it, and also a failed one leaves the new value.
\<close>

text \<open>Some call of \<open>Zalloc\<close> fails while fewer than \<open>b\<close> blocks are allocated.\<close>

definition fails :: "(tmem \<Rightarrow> bool) \<Rightarrow> nat \<Rightarrow> bool" where
  "fails mal b \<longleftrightarrow> (\<exists>c. live c < b \<and> \<not> mal c)"

lemma fails_mono: "fails mal b \<Longrightarrow> b \<le> b' \<Longrightarrow> fails mal b'"
  unfolding fails_def by (meson order_less_le_trans)

lemma failsI: "\<not> mal c \<Longrightarrow> live c < b \<Longrightarrow> fails mal b"
  unfolding fails_def by blast

definition chain_outcome ::
  "(tmem \<Rightarrow> bool) \<Rightarrow> tmem \<Rightarrow> int \<Rightarrow> tmem \<Rightarrow> bool" where
  "chain_outcome mal c r c' \<longleftrightarrow> live c' \<le> Suc (live c) \<and> (r = 0 \<or> r = ENOMEM \<and> fails mal (Suc (live c)))"

definition only_slot :: "nat \<Rightarrow> u64 \<Rightarrow> ptr \<Rightarrow> tcrnode \<Rightarrow> bool" where
  "only_slot l k v n \<longleftrightarrow> (\<forall>i<16. i \<noteq> sl k (Suc l) \<longrightarrow> tnodes n ! i = TNull)
     \<and> (case tnodes n ! sl k (Suc l) of TNull \<Rightarrow> True | TSub m \<Rightarrow> only l k v m | TVal _ \<Rightarrow> False)"

lemma only_Suc: "only (Suc l) k v n \<longleftrightarrow> only_key n = k \<and> only_val n = v \<and> only_slot l k v n"
  by (simp add: only_slot_def)

definition new_leaf :: "nat \<Rightarrow> u64 \<Rightarrow> ptr \<Rightarrow> tcrnode" where
  "new_leaf l k v =
     (let m = set_nchildren (if l = 0 then 1 else 0) (set_only_val v (set_only_key k zero_node))
      in if l = 0 then set_slot (sl k 0) (slot_val v) m else m)"

lemma new_leaf:
  assumes "v \<noteq> NULL" "pre l k = p" "l = 0 \<or> k \<noteq> 0"
  shows "only l k v (new_leaf l k v)" "wfn l p (new_leaf l k v)" "tsize l (new_leaf l k v) = 1"
proof -
  show o: "only l k v (new_leaf l k v)"
    using assms by (cases l) (auto simp: new_leaf_def Let_def slot_val_def nth_list_update)
  have "used (set_slot (sl k 0) (TVal v) zero_node) = 1"
    using used_set_slot [of "sl k 0" zero_node "TVal v"] by (simp add: used_def)
  then have u: "used (set_slot (sl k 0) (TVal v) (set_nchildren 1 (set_only_val v (set_only_key k zero_node)))) = 1"
    by (simp add: used_def)
  show "wfn l p (new_leaf l k v)"
  proof (cases l)
    case 0
    then show ?thesis using assms u
      by (auto simp: new_leaf_def Let_def slot_val_def wf0_def nth_list_update)
  next
    case (Suc l')
    then show ?thesis using assms o by (simp add: wfn_Suc wfc_def wf0_def new_leaf_def used_def)
  qed
  show "tsize l (new_leaf l k v) = 1" by (cases l) (simp_all add: new_leaf_def Let_def tsize_Suc)
qed

lemma insert_child_new:
  assumes "tnodes n ! sl k (Suc l) = TNull" "l = 0 \<or> k \<noteq> 0"
  shows "tcr_insert_child mal c n (Suc l) k v = do {
    (m, c) \<leftarrow> tcr_alloc_node mal c;
    case m of
      None \<Rightarrow> Some (ENOMEM, c, n)
    | Some m \<Rightarrow> do {
        let m = set_nchildren (if l = 0 then 1 else 0) (set_only_val v (set_only_key k m));
        Some (0, c, set_nchildren (nchildren n + 1) (set_slot (sl k (Suc l))
          (TSub (if l = 0 then set_slot (sl k 0) (slot_val v) m else m)) n))
      }
   }"
  using assms by (subst tcr_insert_child.simps, cases "tcr_alloc_node mal c")
    (auto split: option.splits)

lemma chain_insert_child:
  assumes IH: "\<And>m p c x. only l k v m \<Longrightarrow> wfn l p m \<Longrightarrow> pre l k = p \<Longrightarrow> mem_ok c (tsize l m + x) \<Longrightarrow>
      \<exists>r c' m'. tcr_insert mal c m l k w = Some (r, c', m') \<and> only l k w m' \<and> wfn l p m'
        \<and> mem_ok c' (tsize l m' + x) \<and> chain_outcome mal c r c'"
    and wc: "wfc l p n" and o: "only_slot l k v n" and k: "pre (Suc l) k = p" "k \<noteq> 0" "w \<noteq> NULL"
    and mem: "mem_ok c (tsize (Suc l) n + x)"
  shows "\<exists>r c' n'. tcr_insert_child mal c n (Suc l) k w = Some (r, c', n') \<and> only_slot l k w n' \<and> wfc l p n'
    \<and> only_key n' = only_key n \<and> only_val n' = only_val n \<and> (r = 0 \<longrightarrow> tnodes n' ! sl k (Suc l) \<noteq> TNull)
    \<and> mem_ok c' (tsize (Suc l) n' + x) \<and> chain_outcome mal c r c'"
proof -
  let ?i = "sl k (Suc l)"
  have pk: "pre l k = 16 * p + ?i" using pre_child [of l k] k(1) by simp
  have len: "length (tnodes n) = 16" using wfcD(3) [OF wc] .
  show ?thesis
  proof (cases "tnodes n ! ?i")
    case TNull
    from mem show ?thesis
    proof (cases rule: alloc_cases [where mal = mal])
      case failed
      then show ?thesis using insert_child_new [OF TNull, of mal c w] k wc o mem TNull
        by (auto simp: chain_outcome_def only_slot_def ENOMEM_def intro: failsI)
    next
      case (served c')
      let ?n = "set_nchildren (nchildren n + 1) (set_slot ?i (TSub (new_leaf l k w)) n)"
      have "tcr_insert_child mal c n (Suc l) k w = Some (0, c', ?n)"
        using insert_child_new [OF TNull, of mal c w] k served(1)
        by (simp add: new_leaf_def Let_def)
      moreover have "wfc l p ?n" using k by (intro wfc_add_sub [OF wc _ TNull]) (auto simp: new_leaf [OF k(3) pk])
      moreover have "only_slot l k w ?n" using o len k new_leaf(1) [OF k(3) pk] by (auto simp: only_slot_def nth_list_update)
      moreover have "mem_ok c' (tsize (Suc l) ?n + x)"
        unfolding tsize_add_sub [OF wc sl_less TNull] using served(2) new_leaf(3) [OF k(3) pk] k(2) by simp
      ultimately show ?thesis using served(3) len by (auto simp: chain_outcome_def)
    qed
  next
    case (TSub m)
    obtain y where y: "tsize (Suc l) n = tsize l m + y" "\<And>m'. tsize (Suc l) (set_slot ?i (TSub m') n) = tsize l m' + y"
      using child_frame [OF wc sl_less TSub] by blast
    have "only l k v m" "wfn l (pre l k) m" "mem_ok c (tsize l m + (y + x))"
      using o TSub wfcD(1) [OF wc sl_less TSub] pk mem y(1) by (simp_all add: only_slot_def add.assoc)
    from IH [OF this(1,2) refl this(3)] obtain r c' m' where
      r: "tcr_insert mal c m l k w = Some (r, c', m')" "only l k w m'" "wfn l (pre l k) m'"
        "mem_ok c' (tsize l m' + (y + x))" "chain_outcome mal c r c'" by blast
    let ?n = "set_slot ?i (TSub m') n"
    have "tcr_insert_child mal c n (Suc l) k w = Some (r, c', ?n)"
      using TSub r(1) by (subst tcr_insert_child.simps) simp
    moreover have "wfc l p ?n" using wfc_set_sub [OF wc sl_less TSub] r(3) pk by simp
    moreover have "only_slot l k w ?n" using o len r(2) by (auto simp: only_slot_def nth_list_update)
    moreover have "mem_ok c' (tsize (Suc l) ?n + x)" unfolding y(2) using r(4) by (simp add: add.assoc)
    ultimately show ?thesis using r(5) len by (auto)
  next
    case (TVal v)
    then show ?thesis using wfcD(2) [OF wc sl_less] by blast
  qed
qed

lemma chain_insert:
  assumes "k \<noteq> 0" "w \<noteq> NULL"
  shows "only l k v n \<Longrightarrow> wfn l p n \<Longrightarrow> pre l k = p \<Longrightarrow> mem_ok c (tsize l n + x) \<Longrightarrow>
    \<exists>r c' n'. tcr_insert mal c n l k w = Some (r, c', n') \<and> only l k w n' \<and> wfn l p n'
      \<and> mem_ok c' (tsize l n' + x) \<and> chain_outcome mal c r c'"
proof (induction l arbitrary: n p c x)
  case 0
  let ?n = "set_slot (sl k 0) (TVal w) n"
  have ne: "tnodes n ! sl k 0 = TVal v" using 0(1) by simp
  have w0: "wf0 n" "length (tnodes n) = 16" using 0(2) by (simp_all add: wf0_def)
  have "tcr_insert mal c n 0 k w = Some (0, c, ?n)" using ne assms(2) by (simp add: tcr_insert.simps slot_val_def)
  moreover have "only 0 k w ?n" using 0(1) w0 by (auto simp: nth_list_update)
  moreover have "wf0 ?n" using wf0_set_slot(1) [OF w0(1) sl_less] ne by simp
  then have "wfn 0 p ?n" using 0(2) w0(2) assms(2) ne by (auto simp: nth_list_update)
  ultimately show ?case using 0(4) by (simp add: chain_outcome_def)
next
  case (Suc l)
  let ?n = "set_only_val w n"
  have ok: "only_key n = k" "only_slot l k v n" "wfc l p n" using Suc.prems(1,2) unfolding only_Suc wfn_Suc by blast+
  have "only_slot l k v ?n" "wfc l p ?n" "mem_ok c (tsize (Suc l) ?n + x)"
    using ok Suc.prems(4) by (simp_all add: only_slot_def)
  from chain_insert_child [OF Suc.IH this(2,1) Suc.prems(3) assms this(3)] obtain r c' n' where
    r: "tcr_insert_child mal c ?n (Suc l) k w = Some (r, c', n')" "only_slot l k w n'" "wfc l p n'"
      "only_key n' = only_key ?n" "only_val n' = only_val ?n" "mem_ok c' (tsize (Suc l) n' + x)" "chain_outcome mal c r c'" by blast
  have "tcr_insert mal c n (Suc l) k w = Some (r, c', n')"
    using r(1) ok(1) assms(1) by (subst tcr_insert.simps) simp
  moreover have "only (Suc l) k w n'" using r ok(1) by (simp add: only_Suc del: only.simps)
  moreover from this have "wfn (Suc l) p n'" using r ok(1) assms(2) Suc.prems(3) unfolding wfn_Suc by simp
  ultimately show ?case using r(6,7) by blast
qed

lemma chain_child:
  assumes "wfc l p n" "only_slot l k v n" "pre (Suc l) k = p" "k \<noteq> 0" "w \<noteq> NULL" "mem_ok c (tsize (Suc l) n + x)"
  shows "\<exists>r c' n'. tcr_insert_child mal c n (Suc l) k w = Some (r, c', n') \<and> only_slot l k w n' \<and> wfc l p n'
    \<and> only_key n' = only_key n \<and> only_val n' = only_val n \<and> (r = 0 \<longrightarrow> tnodes n' ! sl k (Suc l) \<noteq> TNull)
    \<and> mem_ok c' (tsize (Suc l) n' + x) \<and> chain_outcome mal c r c'"
  by (rule chain_insert_child [OF _ assms], rule chain_insert [OF assms(4,5)])

subsection \<open>Insertion\<close>

definition ins_outcome :: "(tmem \<Rightarrow> bool) \<Rightarrow> nat \<Rightarrow> tmem \<Rightarrow> int \<Rightarrow> tmem \<Rightarrow> bool" where
  "ins_outcome mal b c r c' \<longleftrightarrow>
     live c' \<le> live c + b \<and> (r = 0 \<or> r = ENOMEM \<and> fails mal (live c + b))"

definition look_ins :: "(u64 \<Rightarrow> bool) \<Rightarrow> u64 \<Rightarrow> ptr \<Rightarrow> int \<Rightarrow> (u64 \<Rightarrow> ptr) \<Rightarrow> (u64 \<Rightarrow> ptr) \<Rightarrow> bool" where
  "look_ins P key v r L L' \<longleftrightarrow>
     (\<forall>k. P k \<and> k \<noteq> key \<longrightarrow> L' k = L k) \<and> (L' key = v \<and> (r = 0 \<or> L key \<noteq> NULL) \<or> r \<noteq> 0 \<and> L' key = L key)"

lemma ENOMEM_nz [simp]: "ENOMEM \<noteq> 0"
  by (simp add: ENOMEM_def)

lemma ins_outcome_trans:
  "live c1 \<le> live c + a \<Longrightarrow> ins_outcome mal b c1 r c' \<Longrightarrow> a + b \<le> d \<Longrightarrow> ins_outcome mal d c r c'"
  unfolding ins_outcome_def by (elim conjE disjE) (auto intro: fails_mono)

lemma chain_ins_outcome: "chain_outcome mal c r c' \<Longrightarrow> 0 < b \<Longrightarrow> ins_outcome mal b c r c'"
  unfolding chain_outcome_def ins_outcome_def by (elim conjE disjE) (auto intro: fails_mono)

text \<open>The node that \<open>insert_child\<close> prepares for the key 0 is empty.\<close>

definition new_empty :: "ptr \<Rightarrow> tcrnode" where
  "new_empty v = set_nchildren 0 (set_only_val v (set_only_key 0 zero_node))"

lemma new_empty: "wfn (Suc l) p (new_empty v)" "tsize (Suc l) (new_empty v) = 1" "tlook (Suc l) (new_empty v) k = NULL"
  by (simp_all add: new_empty_def wf0_def used_def tsize_Suc)

lemma mem_ok_teardown:
  assumes "wfn l p n" "mem_ok c (tsize l n + x)"
  shows "\<exists>c'. teardown n l c = Some c' \<and> mem_ok c' x \<and> live c' \<le> live c"
proof -
  obtain j where j: "pooled j (tdeleted_node c)" "live c = tsize l n + x + j" using assms(2) by (auto simp: mem_ok_def)
  then show ?thesis using teardown_ok [OF assms(1), of c] by (auto simp: mem_ok_def)
qed

lemma tlook_clook: "only_key n = 0 \<Longrightarrow> tlook (Suc l) n = clook l n"
  by (simp add: clook_def fun_eq_iff)

text \<open>Once the path to the only key has been built, the children say what the node says.\<close>

lemma only_slot_look:
  assumes "only_slot l k v n" "tnodes n ! sl k (Suc l) \<noteq> TNull" "k \<noteq> 0" "pre (Suc l) x = pre (Suc l) k"
  shows "clook l n x = (if x = k then v else NULL)"
proof (cases "sl x (Suc l) = sl k (Suc l)")
  case True
  obtain m where m: "tnodes n ! sl k (Suc l) = TSub m" "only l k v m"
    using assms(1,2) by (auto simp: only_slot_def split: tslot.splits)
  then show ?thesis using True tlook_only [OF m(2)] assms(3,4) pre_eq [of l x k] by (simp add: clook_def)
next
  case False
  then show ?thesis using assms(1) by (auto simp: only_slot_def clook_def)
qed

lemma insert_child_ok:
  assumes IH: "\<And>m p c x. wfn l p m \<Longrightarrow> pre l key = p \<Longrightarrow> mem_ok c (tsize l m + x) \<Longrightarrow>
      \<exists>r c' m'. tcr_insert mal c m l key v = Some (r, c', m') \<and> wfn l p m' \<and> mem_ok c' (tsize l m' + x)
        \<and> ins_outcome mal (2 * l) c r c' \<and> look_ins (\<lambda>k. pre l k = p) key v r (tlook l m) (tlook l m')"
    and wc: "wfc l p n" and k: "pre (Suc l) key = p" and v: "v \<noteq> NULL" and mem: "mem_ok c (tsize (Suc l) n + x)"
  shows "\<exists>r c' n'. tcr_insert_child mal c n (Suc l) key v = Some (r, c', n') \<and> wfc l p n'
    \<and> only_key n' = only_key n \<and> only_val n' = only_val n \<and> mem_ok c' (tsize (Suc l) n' + x)
    \<and> ins_outcome mal (Suc (2 * l)) c r c' \<and> look_ins (\<lambda>k. pre (Suc l) k = p) key v r (clook l n) (clook l n')"
proof -
  let ?i = "sl key (Suc l)"
  have pk: "pre l key = 16 * p + ?i" using pre_child [of l key] k by simp
  have len: "length (tnodes n) = 16" using wfcD(3) [OF wc] .
  have same: "sl x (Suc l) = ?i \<longleftrightarrow> pre l x = pre l key" if "pre (Suc l) x = p" for x
    using pre_eq [of l x key] that k by simp
  show ?thesis
  proof (cases "tnodes n ! ?i")
    case (TVal v)
    then show ?thesis using wfcD(2) [OF wc sl_less] by blast
  next
    case (TSub m)
    obtain y where y: "tsize (Suc l) n = tsize l m + y" "\<And>m'. tsize (Suc l) (set_slot ?i (TSub m') n) = tsize l m' + y"
      using child_frame [OF wc sl_less TSub] by blast
    have "wfn l (pre l key) m" "mem_ok c (tsize l m + (y + x))"
      using wfcD(1) [OF wc sl_less TSub] pk mem y(1) by (simp_all add: add.assoc)
    from IH [OF this(1) refl this(2)] obtain r c' m' where
      r: "tcr_insert mal c m l key v = Some (r, c', m')" "wfn l (pre l key) m'" "mem_ok c' (tsize l m' + (y + x))"
        "ins_outcome mal (2 * l) c r c'" "look_ins (\<lambda>k. pre l k = pre l key) key v r (tlook l m) (tlook l m')" by blast
    let ?n = "set_slot ?i (TSub m') n"
    have cm: "clook l n k = tlook l m k" if "sl k (Suc l) = ?i" for k using that TSub by (simp add: clook_def)
    have "tcr_insert_child mal c n (Suc l) key v = Some (r, c', ?n)"
      using TSub r(1) by (subst tcr_insert_child.simps) simp
    moreover have "wfc l p ?n" using wfc_set_sub [OF wc sl_less TSub] r(2) pk by simp
    moreover have "mem_ok c' (tsize (Suc l) ?n + x)" unfolding y(2) using r(3) by (simp add: add.assoc)
    moreover have "ins_outcome mal (Suc (2 * l)) c r c'" using ins_outcome_trans [of c c 0 mal "2 * l" r c' "Suc (2 * l)"] r(4) by simp
    moreover have "look_ins (\<lambda>k. pre (Suc l) k = p) key v r (clook l n) (clook l ?n)"
      using r(5) same cm unfolding look_ins_def clook_set_slot [OF len] by auto
    ultimately show ?thesis by (metis node_fields(2,3))
  next
    case TNull
    have cn: "clook l n k = NULL" if "sl k (Suc l) = ?i" for k using that TNull by (simp add: clook_def)
    from mem show ?thesis
    proof (cases rule: alloc_cases [where mal = mal])
      case failed
      then have "tcr_insert_child mal c n (Suc l) key v = Some (ENOMEM, c, n)"
        using TNull by (subst tcr_insert_child.simps) simp
      moreover have "ins_outcome mal (Suc (2 * l)) c ENOMEM c" using failed by (auto simp: ins_outcome_def intro: failsI)
      moreover have "look_ins (\<lambda>k. pre (Suc l) k = p) key v ENOMEM (clook l n) (clook l n)" by (simp add: look_ins_def)
      ultimately show ?thesis using wc mem by blast
    next
      case (served c1)
      have link: ?thesis
        if e: "tcr_insert_child mal c n (Suc l) key v = Some (0, c', set_nchildren (nchildren n + 1) (set_slot ?i (TSub m) n))"
          and m: "wfn l (pre l key) m" "mem_ok c' (tsize l m + (tsize (Suc l) n + x))" "ins_outcome mal (Suc (2 * l)) c 0 c'"
            "\<And>x. pre l x = pre l key \<Longrightarrow> tlook l m x = (if x = key then v else NULL)" for c' m
      proof -
        let ?n = "set_nchildren (nchildren n + 1) (set_slot ?i (TSub m) n)"
        have "wfc l p ?n" using wfc_add_sub [OF wc sl_less TNull] m(1) pk by simp
        moreover have "mem_ok c' (tsize (Suc l) ?n + x)" unfolding tsize_add_sub [OF wc sl_less TNull] using m(2) by (simp add: ac_simps)
        moreover have "look_ins (\<lambda>k. pre (Suc l) k = p) key v 0 (clook l n) (clook l ?n)"
          unfolding look_ins_def clook_fields clook_set_slot [OF len] using m(4) same cn by auto
        ultimately show ?thesis using e m(3) by (metis node_fields)
      qed
      have out1: "ins_outcome mal (Suc (2 * l)) c 0 c1" using served(3) by (simp add: ins_outcome_def)
      show ?thesis
      proof (cases "l = 0 \<or> key \<noteq> 0")
        case True
        note nl = new_leaf [OF v refl True]
        have "tcr_insert_child mal c n (Suc l) key v =
            Some (0, c1, set_nchildren (nchildren n + 1) (set_slot ?i (TSub (new_leaf l key v)) n))"
          using insert_child_new [OF TNull True, of mal c v] served(1) by (simp add: new_leaf_def Let_def)
        then show ?thesis by (rule link) (use nl served(2) out1 tlook_only [OF nl(1) True] in auto)
      next
        case False
        then obtain l' where l: "l = Suc l'" "key = 0" by (cases l) auto
        have "wfn l (pre l key) (new_empty v)" "mem_ok c1 (tsize l (new_empty v) + (tsize (Suc l) n + x))"
          using new_empty [of l'] served(2) l(1) by simp_all
        from IH [OF this(1) refl this(2)] obtain r c2 m where
          r: "tcr_insert mal c1 (new_empty v) l key v = Some (r, c2, m)" "wfn l (pre l key) m" "mem_ok c2 (tsize l m + (tsize (Suc l) n + x))"
            "ins_outcome mal (2 * l) c1 r c2" "look_ins (\<lambda>k. pre l k = pre l key) key v r (tlook l (new_empty v)) (tlook l m)" by blast
        have out: "ins_outcome mal (Suc (2 * l)) c r c2" using ins_outcome_trans [of c1 c 1] r(4) served(3) by simp
        have step: "tcr_insert_child mal c n (Suc l) key v = (if r \<noteq> 0 then do { c \<leftarrow> teardown m l c2; Some (r, c, n) }
            else Some (0, c2, set_nchildren (nchildren n + 1) (set_slot ?i (TSub m) n)))"
          using TNull served(1) r(1) l by (subst tcr_insert_child.simps) (simp add: new_empty_def [symmetric])
        show ?thesis
        proof (cases "r = 0")
          case True
          show ?thesis
          proof (rule link)
            show "tcr_insert_child mal c n (Suc l) key v = Some (0, c2, set_nchildren (nchildren n + 1) (set_slot ?i (TSub m) n))"
              using step True by simp
            show "tlook l m x = (if x = key then v else NULL)" if "pre l x = pre l key" for x
              using r(5) that True new_empty(3) [of l' v, folded l(1)] unfolding look_ins_def by metis
          qed (use r out True in auto)
        next
          case False
          obtain c3 where c3: "teardown m l c2 = Some c3" "mem_ok c3 (tsize (Suc l) n + x)" "live c3 \<le> live c2"
            using mem_ok_teardown [OF r(2,3)] by blast
          have "ins_outcome mal (Suc (2 * l)) c r c3" using out c3(3) by (auto simp: ins_outcome_def)
          moreover have "look_ins (\<lambda>k. pre (Suc l) k = p) key v r (clook l n) (clook l n)" using False by (simp add: look_ins_def)
          ultimately show ?thesis using step False c3 wc by auto
        qed
      qed
    qed
  qed
qed

lemma tcr_insert_ok:
  assumes v: "v \<noteq> NULL"
  shows "wfn l p n \<Longrightarrow> pre l key = p \<Longrightarrow> mem_ok c (tsize l n + x) \<Longrightarrow>
    \<exists>r c' n'. tcr_insert mal c n l key v = Some (r, c', n') \<and> wfn l p n' \<and> mem_ok c' (tsize l n' + x)
      \<and> ins_outcome mal (2 * l) c r c' \<and> look_ins (\<lambda>k. pre l k = p) key v r (tlook l n) (tlook l n')"
proof (induction l arbitrary: n p c x)
  case 0
  let ?n = "set_slot (sl key 0) (TVal v) (if tnodes n ! sl key 0 = TNull then set_nchildren (nchildren n + 1) n else n)"
  have w0: "wf0 n" "length (tnodes n) = 16" using 0(1) by (simp_all add: wf0_def)
  have "wf0 ?n" using wf0_set_slot(1,2) [OF w0(1) sl_less, of key 0 "TVal v"] by (auto simp: wf0_def used_def)
  then have "wfn 0 p ?n" using 0(1) w0(2) v by (auto simp: nth_list_update)
  moreover have "tcr_insert mal c n 0 key v = Some (0, c, ?n)" using v by (simp add: tcr_insert.simps slot_val_def)
  moreover have "look_ins (\<lambda>k. pre 0 k = p) key v 0 (tlook 0 n) (tlook 0 ?n)"
    using pre_0_eq 0(2) w0(2) by (auto simp: look_ins_def nth_list_update)
  moreover have "mem_ok c (tsize 0 ?n + x)" using 0(3) by simp
  moreover have "ins_outcome mal (2 * 0) c 0 c" by (simp add: ins_outcome_def)
  ultimately show ?case by blast
next
  case (Suc l)
  let ?k = "only_key n" and ?v = "only_val n"
  have wc: "wfc l p n" using Suc.prems(1) unfolding wfn_Suc by blast
  show ?case
  proof (cases "?k = 0")
    case True
    from insert_child_ok [OF Suc.IH wc Suc.prems(2) v Suc.prems(3)] obtain r c' n' where
      r: "tcr_insert_child mal c n (Suc l) key v = Some (r, c', n')" "wfc l p n'" "only_key n' = ?k"
        "mem_ok c' (tsize (Suc l) n' + x)" "ins_outcome mal (Suc (2 * l)) c r c'"
        "look_ins (\<lambda>k. pre (Suc l) k = p) key v r (clook l n) (clook l n')" by blast
    have "tcr_insert mal c n (Suc l) key v = Some (r, c', n')" using r(1) True by (subst tcr_insert.simps) simp
    moreover have "wfn (Suc l) p n'" using r(2,3) True unfolding wfn_Suc by simp
    moreover have "ins_outcome mal (2 * Suc l) c r c'" using ins_outcome_trans [of c c 0] r(5) by simp
    moreover have "tlook (Suc l) n = clook l n" "tlook (Suc l) n' = clook l n'" using tlook_clook True r(3) by simp_all
    ultimately show ?thesis using r(4,6) by metis
  next
    case False
    have o: "pre (Suc l) ?k = p" "?v \<noteq> NULL" "only (Suc l) ?k ?v n" using Suc.prems(1) False unfolding wfn_Suc by blast+
    show ?thesis
    proof (cases "?k = key")
      case True
      from chain_insert [OF _ v o(3) Suc.prems(1) o(1) Suc.prems(3)] False obtain r c' n' where
        r: "tcr_insert mal c n (Suc l) ?k v = Some (r, c', n')" "only (Suc l) ?k v n'" "wfn (Suc l) p n'"
          "mem_ok c' (tsize (Suc l) n' + x)" "chain_outcome mal c r c'" by blast
      have "ins_outcome mal (2 * Suc l) c r c'" by (rule chain_ins_outcome [OF r(5)]) simp
      moreover have "look_ins (\<lambda>k. pre (Suc l) k = p) key v r (tlook (Suc l) n) (tlook (Suc l) n')"
        using tlook_only [OF r(2)] tlook_only [OF o(3)] o(1,2) False True by (auto simp: look_ins_def)
      ultimately show ?thesis using r(1,3,4) unfolding True by blast
    next
      case ne: False
      have os: "only_slot l ?k ?v n" using o(3) unfolding only_Suc by blast
      from chain_child [OF wc os o(1) False o(2) Suc.prems(3)] obtain r1 c1 n1 where
        r1: "tcr_insert_child mal c n (Suc l) ?k ?v = Some (r1, c1, n1)" "only_slot l ?k ?v n1" "wfc l p n1"
          "only_key n1 = ?k" "only_val n1 = ?v" "r1 = 0 \<Longrightarrow> tnodes n1 ! sl ?k (Suc l) \<noteq> TNull"
          "mem_ok c1 (tsize (Suc l) n1 + x)" "chain_outcome mal c r1 c1" by blast
      show ?thesis
      proof (cases "r1 = 0")
        case False
        have "tcr_insert mal c n (Suc l) key v = Some (r1, c1, n1)"
          using r1(1) \<open>?k \<noteq> 0\<close> ne False by (subst tcr_insert.simps) simp
        moreover have "wfn (Suc l) p n1" using r1 o \<open>?k \<noteq> 0\<close> unfolding wfn_Suc only_Suc by simp
        moreover have "tlook (Suc l) n1 = tlook (Suc l) n" using r1(4,5) \<open>?k \<noteq> 0\<close> by (simp add: fun_eq_iff)
        moreover have "ins_outcome mal (2 * Suc l) c r1 c1" by (rule chain_ins_outcome [OF r1(8)]) simp
        moreover have "look_ins (\<lambda>k. pre (Suc l) k = p) key v r1 (tlook (Suc l) n) (tlook (Suc l) n)"
          using False by (simp add: look_ins_def)
        ultimately show ?thesis using r1(7) by metis
      next
        case True
        let ?n = "set_only_key 0 n1"
        have "wfc l p ?n" "mem_ok c1 (tsize (Suc l) ?n + x)" using r1 by simp_all
        from insert_child_ok [OF Suc.IH this(1) Suc.prems(2) v this(2)] obtain r c' n' where
          r: "tcr_insert_child mal c1 ?n (Suc l) key v = Some (r, c', n')" "wfc l p n'" "only_key n' = only_key ?n"
            "mem_ok c' (tsize (Suc l) n' + x)" "ins_outcome mal (Suc (2 * l)) c1 r c'"
            "look_ins (\<lambda>k. pre (Suc l) k = p) key v r (clook l ?n) (clook l n')" by blast
        then have k0: "only_key n' = 0" by simp
        have "tcr_insert mal c n (Suc l) key v = Some (r, c', n')"
          using r1(1) r(1) \<open>?k \<noteq> 0\<close> ne True by (subst tcr_insert.simps) simp
        moreover have "wfn (Suc l) p n'" using r(2) k0 unfolding wfn_Suc by simp
        moreover have "ins_outcome mal (2 * Suc l) c r c'"
          using ins_outcome_trans [of c1 c 1] r(5) r1(8) by (simp add: chain_outcome_def)
        moreover have "clook l n1 k = tlook (Suc l) n k" if "pre (Suc l) k = p" for k
          using only_slot_look [OF r1(2) r1(6) [OF True] \<open>?k \<noteq> 0\<close>, of k] that o(1) \<open>?k \<noteq> 0\<close> by simp
        then have "look_ins (\<lambda>k. pre (Suc l) k = p) key v r (tlook (Suc l) n) (tlook (Suc l) n')"
          using r(6) tlook_clook [OF k0] Suc.prems(2) by (auto simp: look_ins_def)
        ultimately show ?thesis using r(4) by blast
      qed
    qed
  qed
qed

lemma slot_keep: "length xs = 16 \<Longrightarrow> y \<noteq> TNull \<Longrightarrow> xs ! j \<noteq> TNull \<Longrightarrow> xs[i := y] ! j \<noteq> TNull"
  by (metis nth_list_update_eq nth_list_update_neq list_update_beyond not_le)

lemma insert_child_slots:
  assumes "tcr_insert_child mal c n lev key v = Some (r, c', n')" "length (tnodes n) = 16"
  shows "tnodes n ! j \<noteq> TNull \<Longrightarrow> tnodes n' ! j \<noteq> TNull" "r = 0 \<Longrightarrow> tnodes n' ! sl key lev \<noteq> TNull"
    "length (tnodes n') = 16"
  using assms by (auto simp: tcr_insert_child.simps [of mal c n] Let_def nth_list_update slot_keep
      split: if_splits tslot.splits option.splits Option.bind_splits)

lemma insert_slots:
  assumes "tcr_insert mal c n (Suc l) key v = Some (r, c', n')" "length (tnodes n) = 16"
  shows "tnodes n ! j \<noteq> TNull \<Longrightarrow> tnodes n' ! j \<noteq> TNull" "r = 0 \<Longrightarrow> tnodes n' ! sl key (Suc l) \<noteq> TNull"
  using assms insert_child_slots
  by (auto simp: tcr_insert.simps [of mal c n] split: if_splits Option.bind_splits)

end
