(* ===== verification/Tcradix_Remove.thy ===== *)
theory Tcradix_Remove
  imports Tcradix_Insert
begin

text \<open>
  Removal from a node of \<open>src/tcradix.c\<close>: the emptied nodes go to the chain of deleted nodes
  and are clean there.
\<close>

subsection \<open>Removal\<close>

abbreviation cleared :: "tcrnode \<Rightarrow> bool" where
  "cleared n \<equiv> tnodes n = replicate 16 TNull \<and> only_key n = 0 \<and> nchildren n = 0"

lemma wfn_cleared: "cleared n \<Longrightarrow> wfn l p n" "cleared n \<Longrightarrow> tlook l n k = NULL" "cleared n \<Longrightarrow> tsize l n = 1"
  by (cases l; simp add: wf0_def used_def tsize_Suc)+

lemma push_deleted:
  assumes "mem_ok c (Suc x)" "cleared m"
  shows "mem_ok (c\<lparr>tdeleted_node := TSub (set_slot 0 (tdeleted_node c) (set_only_val NULL m))\<rparr>) x"
proof -
  obtain j where j: "pooled j (tdeleted_node c)" "live c = Suc x + j" using assms(1) by (auto simp: mem_ok_def)
  have "set_slot 0 TNull (set_slot 0 (tdeleted_node c) (set_only_val NULL m)) = zero_node"
    using assms(2) by (cases m) (simp add: set_slot_def set_only_val_def zero_node_def TCR_SLNODES_def numeral_eq_Suc)
  then have "pooled (Suc j) (TSub (set_slot 0 (tdeleted_node c) (set_only_val NULL m)))"
    using j(1) assms(2) by simp
  then show ?thesis using j(2) unfolding mem_ok_def by (intro exI [of _ "Suc j"]) simp
qed

lemma set_slot_same: "tnodes n ! i = x \<Longrightarrow> set_slot i x n = n"
  by (cases n) (auto simp: set_slot_def)

lemma nremove_chain_absent:
  "only l k v n \<Longrightarrow> wfn l p n \<Longrightarrow> k \<noteq> 0 \<Longrightarrow> pre l k = p \<Longrightarrow> pre l key = p \<Longrightarrow> key \<noteq> k \<Longrightarrow>
   nremove c n l key val = Some (False, val, c, n)"
proof (induction l arbitrary: n p)
  case 0
  have ne: "sl key 0 \<noteq> sl k 0" using pre_0_eq [of key k] 0 by auto
  have "only_key n = key \<Longrightarrow> key \<noteq> 0 \<Longrightarrow> False" using 0 ne by auto
  moreover have "tnodes n ! sl key 0 = TNull" using 0(1) ne by simp
  ultimately show ?case by (auto simp: nremove.simps)
next
  case (Suc l)
  have ok: "only_key n = k" "only_slot l k v n" "wfc l p n" using Suc.prems(1,2) unfolding only_Suc wfn_Suc by blast+
  show ?case
  proof (cases "tnodes n ! sl key (Suc l)")
    case TNull
    then show ?thesis using ok Suc.prems by (subst nremove.simps) auto
  next
    case (TSub m)
    then have same: "sl key (Suc l) = sl k (Suc l)" using ok(2) sl_less unfolding only_slot_def by (metis tslot.distinct(1))
    then have "only l k v m" using ok(2) TSub by (simp add: only_slot_def)
    moreover have "wfn l (pre l k) m"
      using wfcD(1) [OF ok(3) sl_less TSub] same Suc.prems(4) pre_child [of l k] by simp
    moreover have "pre l key = pre l k" using pre_eq [of l key k] same Suc.prems(4,5) by simp
    ultimately have "nremove c m l key val = Some (False, val, c, m)" using Suc.IH Suc.prems(3,6) by blast
    then show ?thesis using ok(1) Suc.prems(3,6) TSub set_slot_same [OF TSub] by (subst nremove.simps) auto
  next
    case (TVal x)
    then show ?thesis using wfcD(2) [OF ok(3) sl_less] by blast
  qed
qed

lemma nremove_chain_present:
  "only l k v n \<Longrightarrow> wfn l p n \<Longrightarrow> k \<noteq> 0 \<Longrightarrow> pre l k = p \<Longrightarrow> mem_ok c (tsize l n + x) \<Longrightarrow>
   \<exists>c' n'. nremove c n l k val = Some (True, v, c', n') \<and> cleared n' \<and> mem_ok c' (Suc x) \<and> live c' = live c"
proof (induction l arbitrary: n p val c x)
  case 0
  let ?m = "if only_key n = k then set_only_key 0 n else n"
  let ?n = "set_nchildren (nchildren ?m - 1) (set_slot (sl k 0) TNull ?m)"
  have slot: "tnodes n ! sl k 0 = TVal v" using 0(1) by simp
  have len: "length (tnodes n) = 16" using 0(2) by (simp add: wf0_def)
  have "wf0 ?n" using wf0_set_slot(3) [of ?m "sl k 0"] slot 0(2) by simp
  moreover have null: "tnodes ?n = replicate 16 TNull"
    by (rule nth_equalityI) (use 0(1) len in \<open>auto simp: nth_list_update split: if_splits\<close>)
  ultimately have "nchildren ?n = 0" using nchildren_0 by blast
  moreover have "only_key ?m = 0"
  proof (cases "only_key n = 0")
    case False
    then have "pre 0 (only_key n) = p" "tnodes n ! sl (only_key n) 0 \<noteq> TNull" using 0(2) by simp_all
    then have "only_key n = k" using 0(1,4) pre_0_eq [of "only_key n" k] by (auto split: if_splits)
    then show ?thesis by simp
  qed simp
  moreover have "nremove c n 0 k val = Some (nchildren ?n = 0 \<and> only_key ?n = 0, v, c, ?n)"
    using slot 0(3) by (subst nremove.simps) (simp add: Let_def)
  ultimately show ?case using 0(5) null by auto
next
  case (Suc l)
  have ok: "only_key n = k" "only_val n = v" "only_slot l k v n" "wfc l p n"
    using Suc.prems(1,2) unfolding only_Suc wfn_Suc by blast+
  have len: "length (tnodes n) = 16" using wfcD(3) [OF ok(4)] .
  have "wf0 n" using ok(4) by (simp add: wfc_def)
  let ?i = "sl k (Suc l)" and ?r = "set_only_key 0 n"
  show ?case
  proof (cases "tnodes n ! ?i")
    case TNull
    have null: "tnodes n = replicate 16 TNull"
      by (rule nth_equalityI) (use ok(3) len TNull in \<open>auto simp: only_slot_def\<close>)
    then have "nchildren n = 0" using nchildren_0 [OF \<open>wf0 n\<close>] by simp
    moreover have "nremove c n (Suc l) k val = Some (nchildren ?r = 0 \<and> only_key ?r = 0, v, c, ?r)"
      using ok(1,2) Suc.prems(3) TNull by (subst nremove.simps) (simp add: Let_def)
    ultimately show ?thesis using null Suc.prems(5) by (simp add: tsize_Suc sum_list_replicate)
  next
    case (TSub m)
    let ?n = "set_nchildren (nchildren n - 1) (set_slot ?i TNull ?r)"
    have m: "only l k v m" "wfn l (pre l k) m"
      using ok(3) TSub wfcD(1) [OF ok(4) sl_less TSub] Suc.prems(4) pre_child [of l k] by (simp_all add: only_slot_def)
    have sz: "tsize (Suc l) n = Suc (tsize l m)" using tsize_only [OF len Suc.prems(1)] TSub by simp
    have "mem_ok c (tsize l m + Suc x)" using Suc.prems(5) sz by simp
    from Suc.IH [OF m Suc.prems(3) refl this, of v] obtain c1 m' where
      r: "nremove c m l k v = Some (True, v, c1, m')" "cleared m'" "mem_ok c1 (Suc (Suc x))" "live c1 = live c" by blast
    have null: "tnodes ?n = replicate 16 TNull"
      by (rule nth_equalityI) (use ok(3) len in \<open>auto simp: only_slot_def nth_list_update\<close>)
    have "wf0 ?n" using wf0_set_slot(3) [of ?r ?i] TSub \<open>wf0 n\<close> by simp
    then have nc: "nchildren ?n = 0" using nchildren_0 null by blast
    have "nremove c n (Suc l) k val = Some (nchildren ?n = 0 \<and> only_key ?n = 0, v,
        c1\<lparr>tdeleted_node := TSub (set_slot 0 (tdeleted_node c1) (set_only_val NULL m'))\<rparr>, ?n)"
      using ok(1,2) Suc.prems(3) TSub r(1) by (subst nremove.simps) (simp add: Let_def)
    then show ?thesis using push_deleted [OF r(3,2)] nc null r(4) by auto
  next
    case (TVal x)
    then show ?thesis using wfcD(2) [OF ok(4) sl_less] by blast
  qed
qed

definition look_rem :: "(u64 \<Rightarrow> bool) \<Rightarrow> u64 \<Rightarrow> (u64 \<Rightarrow> ptr) \<Rightarrow> (u64 \<Rightarrow> ptr) \<Rightarrow> bool" where
  "look_rem P key L L' \<longleftrightarrow> (\<forall>k. P k \<longrightarrow> L' k = (if k = key then NULL else L k))"

lemma nremove_ok:
  "wfn l p n \<Longrightarrow> pre l key = p \<Longrightarrow> mem_ok c (tsize l n + x) \<Longrightarrow>
   \<exists>f c' n'. nremove c n l key val = Some (f, if tlook l n key = NULL then val else tlook l n key, c', n')
     \<and> wfn l p n' \<and> mem_ok c' (tsize l n' + x) \<and> live c' = live c \<and> (f \<longrightarrow> cleared n')
     \<and> look_rem (\<lambda>k. pre l k = p) key (tlook l n) (tlook l n') \<and> (0 < l \<longrightarrow> only_key n' = 0 \<or> n' = n)"
proof (induction l arbitrary: n p c x)
  case 0
  let ?i = "sl key 0" and ?m = "if only_key n = key \<and> key \<noteq> 0 then set_only_key 0 n else n"
  let ?n = "set_nchildren (nchildren ?m - 1) (set_slot ?i TNull ?m)"
  have len: "length (tnodes n) = 16" "wf0 n" using 0(1) by (simp_all add: wf0_def)
  show ?case
  proof (cases "tnodes n ! ?i")
    case TNull
    then have "\<not> (only_key n = key \<and> key \<noteq> 0)" using 0(1) by auto
    then have "nremove c n 0 key val = Some (False, val, c, n)" using TNull by (subst nremove.simps) (auto simp: Let_def)
    moreover have nil: "tlook 0 n key = NULL" using TNull by simp
    moreover from this have "look_rem (\<lambda>k. pre 0 k = p) key (tlook 0 n) (tlook 0 n)"
      by (simp add: look_rem_def del: tlook.simps)
    ultimately show ?thesis using 0 by (intro exI [of _ False] exI [of _ c] exI [of _ n]) (simp del: wfn.simps tlook.simps)
  next
    case (TVal v)
    then have "v \<noteq> NULL" using 0(1) by (auto dest: spec [of _ ?i])
    have r: "nremove c n 0 key val = Some (nchildren ?n = 0 \<and> only_key ?n = 0, v, c, ?n)"
      using TVal by (subst nremove.simps) (simp add: Let_def)
    have w: "wf0 ?n" using wf0_set_slot(3) [of ?m ?i] TVal len by simp
    have "only_key n \<noteq> 0 \<and> only_key n \<noteq> key \<longrightarrow> sl (only_key n) 0 \<noteq> ?i"
      using 0(1,2) pre_0_eq [of "only_key n" key] by auto
    then have "wfn 0 p ?n" using w 0(1) len(1) by (auto simp: nth_list_update)
    moreover have "look_rem (\<lambda>k. pre 0 k = p) key (tlook 0 n) (tlook 0 ?n)"
      using pre_0_eq 0(2) len(1) by (auto simp: look_rem_def nth_list_update)
    moreover have "nchildren ?n = 0 \<and> only_key ?n = 0 \<longrightarrow> cleared ?n" using nchildren_0 [OF w] by blast
    moreover have "tlook 0 n key = v" using TVal by simp
    moreover have "mem_ok c (tsize 0 ?n + x)" using 0(3) by simp
    moreover have "nremove c n 0 key val =
        Some (nchildren ?n = 0 \<and> only_key ?n = 0, if tlook 0 n key = NULL then val else tlook 0 n key, c, ?n)"
      using r TVal \<open>v \<noteq> NULL\<close> by simp
    ultimately show ?thesis by blast
  next
    case (TSub m)
    then show ?thesis using 0(1) by (auto dest: spec [of _ ?i])
  qed
next
  case (Suc l)
  let ?i = "sl key (Suc l)"
  have wc: "wfc l p n" using Suc.prems(1) unfolding wfn_Suc by blast
  have len: "length (tnodes n) = 16" "wf0 n" using wfcD(3) [OF wc] wc by (simp_all add: wfc_def)
  show ?case
  proof (cases "only_key n = 0")
    case False
    have o: "pre (Suc l) (only_key n) = p" "only_val n \<noteq> NULL" "only (Suc l) (only_key n) (only_val n) n"
      using Suc.prems(1) False unfolding wfn_Suc by blast+
    show ?thesis
    proof (cases "only_key n = key")
      case True
      from nremove_chain_present [OF o(3) Suc.prems(1) False o(1) Suc.prems(3), of val] obtain c' n' where
        r: "nremove c n (Suc l) (only_key n) val = Some (True, only_val n, c', n')" "cleared n'" "mem_ok c' (Suc x)" "live c' = live c"
        by blast
      have "look_rem (\<lambda>k. pre (Suc l) k = p) key (tlook (Suc l) n) (tlook (Suc l) n')"
        using wfn_cleared(2) [OF r(2), of "Suc l"] True False by (simp add: look_rem_def)
      moreover have "tlook (Suc l) n key = only_val n" using True False by simp
      ultimately show ?thesis using r wfn_cleared(1) [OF r(2), of "Suc l" p] wfn_cleared(3) [OF r(2), of "Suc l"] o(2) True
        by (intro exI [of _ True] exI [of _ c'] exI [of _ n']) (simp del: wfn.simps tlook.simps)
    next
      case ne: False
      have "nremove c n (Suc l) key val = Some (False, val, c, n)"
        using nremove_chain_absent [OF o(3) Suc.prems(1) False o(1) Suc.prems(2)] ne by blast
      moreover have "tlook (Suc l) n key = NULL" using False ne by simp
      moreover from this have "look_rem (\<lambda>k. pre (Suc l) k = p) key (tlook (Suc l) n) (tlook (Suc l) n)"
        by (simp add: look_rem_def del: tlook.simps)
      ultimately show ?thesis using Suc.prems by (intro exI [of _ False] exI [of _ c] exI [of _ n]) (simp del: wfn.simps tlook.simps)
    qed
  next
    case True
    note tl = tlook_clook [OF True, of l]
    show ?thesis
    proof (cases "tnodes n ! ?i")
      case TNull
      have "nremove c n (Suc l) key val = Some (nchildren n = 0, val, c, n)"
        using TNull True by (subst nremove.simps) (simp add: Let_def)
      moreover have "clook l n key = NULL" using TNull by (simp add: clook_def)
      moreover from this have "look_rem (\<lambda>k. pre (Suc l) k = p) key (clook l n) (clook l n)" by (simp add: look_rem_def)
      moreover have "nchildren n = 0 \<longrightarrow> cleared n" using nchildren_0 [OF len(2)] True by blast
      ultimately show ?thesis unfolding tl using Suc.prems True tl
        by (intro exI [of _ "nchildren n = 0"] exI [of _ c] exI [of _ n]) (simp del: wfn.simps tlook.simps)
    next
      case (TSub m)
      have pk: "pre l key = 16 * p + ?i" using pre_child [of l key] Suc.prems(2) by simp
      have same: "sl k (Suc l) = ?i \<longleftrightarrow> pre l k = pre l key" if "pre (Suc l) k = p" for k
        using pre_eq [of l k key] that Suc.prems(2) by simp
      obtain y where y: "tsize (Suc l) n = tsize l m + y" "\<And>m'. tsize (Suc l) (set_slot ?i (TSub m') n) = tsize l m' + y"
        "tsize (Suc l) (set_slot ?i TNull n) = y" using child_frame [OF wc sl_less TSub] by blast
      have cm: "clook l n k = tlook l m k" if "sl k (Suc l) = ?i" for k using that TSub by (simp add: clook_def)
      have "wfn l (pre l key) m" "mem_ok c (tsize l m + (y + x))"
        using wfcD(1) [OF wc sl_less TSub] pk Suc.prems(3) y(1) by (simp_all add: add.assoc)
      from Suc.IH [OF this(1) refl this(2)] obtain f c1 m' where
        r: "nremove c m l key val = Some (f, if tlook l m key = NULL then val else tlook l m key, c1, m')"
          "wfn l (pre l key) m'" "mem_ok c1 (tsize l m' + (y + x))" "live c1 = live c" "f \<Longrightarrow> cleared m'"
          "look_rem (\<lambda>k. pre l k = pre l key) key (tlook l m) (tlook l m')" by blast
      have vk: "tlook l m key = clook l n key" using cm by simp
      show ?thesis
      proof (cases f)
        case False
        let ?n = "set_slot ?i (TSub m') n"
        have "nremove c n (Suc l) key val = Some (False, if clook l n key = NULL then val else clook l n key, c1, ?n)"
          using TSub r(1) True False vk by (subst nremove.simps) (simp add: Let_def)
        moreover have "wfc l p ?n" using wfc_set_sub [OF wc sl_less TSub] r(2) pk by simp
        then have "wfn (Suc l) p ?n" using True unfolding wfn_Suc by simp
        moreover have "mem_ok c1 (tsize (Suc l) ?n + x)" unfolding y(2) using r(3) by (simp add: add.assoc)
        moreover have "look_rem (\<lambda>k. pre (Suc l) k = p) key (clook l n) (clook l ?n)"
          using r(6) same cm unfolding look_rem_def clook_set_slot [OF len(1)] by auto
        ultimately show ?thesis using r(4) tl tlook_clook [of ?n l] True
          by (intro exI [of _ False] exI [of _ c1] exI [of _ ?n]) (simp del: wfn.simps tlook.simps)
      next
        case f: True
        let ?n = "set_nchildren (nchildren n - 1) (set_slot ?i TNull n)"
        let ?c = "c1\<lparr>tdeleted_node := TSub (set_slot 0 (tdeleted_node c1) (set_only_val NULL m'))\<rparr>"
        have "nremove c n (Suc l) key val = Some (nchildren ?n = 0, if clook l n key = NULL then val else clook l n key, ?c, ?n)"
          using TSub r(1) True f vk by (subst nremove.simps) (simp add: Let_def)
        moreover have wc': "wfc l p ?n" by (rule wfc_del_sub [OF wc sl_less TSub])
        then have "wfn (Suc l) p ?n" using True unfolding wfn_Suc by simp
        moreover have "mem_ok ?c (tsize (Suc l) ?n + x)"
          using push_deleted [OF _ r(5) [OF f], of c1 "y + x"] r(3) wfn_cleared(3) [OF r(5) [OF f], of l] y(3) by simp
        moreover have "look_rem (\<lambda>k. pre (Suc l) k = p) key (clook l n) (clook l ?n)"
          using r(6) same cm wfn_cleared(2) [OF r(5) [OF f], of l] unfolding look_rem_def clook_fields clook_set_slot [OF len(1)] by auto
        moreover have "nchildren ?n = 0 \<longrightarrow> cleared ?n" using nchildren_0 [of ?n] wc' True by (auto simp: wfc_def)
        ultimately show ?thesis using r(4) tl tlook_clook [of ?n l] True
          by (intro exI [of _ "nchildren ?n = 0"] exI [of _ ?c] exI [of _ ?n]) (simp del: wfn.simps tlook.simps)
      qed
    next
      case (TVal v)
      then show ?thesis using wfcD(2) [OF wc sl_less] by blast
    qed
  qed
qed

end
