(* ===== verification/Tcradix.thy ===== *)
theory Tcradix
  imports Tcradix_Remove Corr_Tests
begin

text \<open>
  \<open>src/tcradix.c\<close> as a whole: the relation \<open>tcradix_rel\<close> between a structure and a map, the
  operations of the interface, the interpretation of the contract (new keys only; absent keys may
  be removed; a NULL value is the same as no entry), the invariant \<open>tcradix_sane\<close> that holds after any
  sequence of calls, and the properties.
\<close>

subsection \<open>The structure\<close>

lemma LEVELS_15 [simp]: "LEVELS - Suc 0 = 15"
  by (simp add: LEVELS_def SLICE_def)

text \<open>The root of an empty structure, before the first insertion.\<close>

definition fresh_root :: tcrnode where
  "fresh_root = set_only_key TOP_EMPTY zero_node"

definition root_ok :: "tcrnode \<Rightarrow> bool" where
  "root_ok n \<longleftrightarrow> n = fresh_root \<or> wfn 15 0 n \<and> \<not> (only_key n = TOP_EMPTY \<and> nchildren n = 0)"

definition tcradix_rel :: "tcrhead \<Rightarrow> (u64 \<rightharpoonup> ptr) \<Rightarrow> bool" where
  "tcradix_rel h m \<longleftrightarrow> \<not> tmutex h \<and> even (write_status h) \<and> root_ok (troot h)
     \<and> mem_ok (tmem h) (tsize 15 (troot h)) \<and> (\<forall>k. tlook 15 (troot h) k = val_of (m k))"

text \<open>
  What holds of a structure whatever was called, failed insertions included: nothing is said of the
  keys, but the tree and the memory are in order.
\<close>

definition tcradix_sane :: "tcrhead \<Rightarrow> bool" where
  "tcradix_sane h \<longleftrightarrow> \<not> tmutex h \<and> even (write_status h) \<and> (troot h = fresh_root \<or> wfn 15 0 (troot h))
     \<and> mem_ok (tmem h) (tsize 15 (troot h))"

lemma tcradix_rel_sane: "tcradix_rel h m \<Longrightarrow> tcradix_sane h"
  by (auto simp: tcradix_rel_def tcradix_sane_def root_ok_def)

lemma TOP_EMPTY_nz [simp]: "TOP_EMPTY \<noteq> 0"
  by (simp add: TOP_EMPTY_def)

lemma fresh_root_simps [simp]:
  "tnodes fresh_root = replicate 16 TNull" "only_key fresh_root = TOP_EMPTY" "only_val fresh_root = NULL"
  "nchildren fresh_root = 0"
  by (simp_all add: fresh_root_def)

lemma level_15: "(15::nat) = Suc 14"
  by simp

lemma fresh_root_look [simp]: "0 < l \<Longrightarrow> tlook l fresh_root k = NULL"
  by (cases l) simp_all

lemma fresh_root_size [simp]: "tsize l fresh_root = 1"
  by (cases l) (simp_all add: tsize_Suc sum_list_replicate)

lemma first_root:
  assumes "v \<noteq> NULL" "pre l k = p" "0 < l"
  shows "wfn l p (set_only_key k (set_only_val v fresh_root))"
    "x \<noteq> k \<Longrightarrow> tlook l (set_only_key k (set_only_val v fresh_root)) x = NULL"
  using assms by (cases l; simp add: wf0_def used_def)+

lemma tcradix_new_ok:
  "mal \<lparr>tdeleted_node = TNull, live = 0\<rparr> \<Longrightarrow> \<exists>h. tcradix_new mal = Some h \<and> tcradix_rel h Map.empty \<and> live (tmem h) = 1"
  by (auto simp: tcradix_new_def tcradix_rel_def root_ok_def mem_ok_def fresh_root_def [symmetric] intro!: exI [of _ 0])

subsection \<open>Lookup\<close>

lemma GETL_ok: "wfn l p n \<Longrightarrow> pre l k = p \<Longrightarrow> GETL l n k = Some (Return (tlook l n k)) \<or> GETL l n k = Some (Fall (tlook l n k))"
proof (induction l arbitrary: n p)
  case 0
  then have "case tnodes n ! sl k 0 of TNull \<Rightarrow> True | TSub _ \<Rightarrow> False | TVal v \<Rightarrow> v \<noteq> NULL" by simp
  then show ?case by (subst (1 2) GETL.simps) (auto split: tslot.splits)
next
  case (Suc l)
  have wc: "wfc l p n" using Suc.prems(1) unfolding wfn_Suc by blast
  show ?case
  proof (cases "tnodes n ! sl k (Suc l)")
    case (TSub m)
    have "wfn l (pre l k) m" using wfcD(1) [OF wc sl_less TSub] pre_child [of l k] Suc.prems(2) by simp
    from Suc.IH [OF this refl] show ?thesis using TSub by (subst (1 2) GETL.simps) auto
  next
    case (TVal v)
    then show ?thesis using wfcD(2) [OF wc sl_less] by blast
  qed (subst (1 2) GETL.simps, auto)
qed

lemma get_sane:
  assumes "tcradix_sane h"
  shows "tcradix_get k h = Some (tlook 15 (troot h) k)"
proof -
  have "GETL 15 (troot h) k = Some (Return (tlook 15 (troot h) k)) \<or> GETL 15 (troot h) k = Some (Fall (tlook 15 (troot h) k))"
  proof (cases "troot h = fresh_root")
    case True
    then show ?thesis unfolding True by (subst (1 2) GETL.simps) simp
  next
    case False
    then have "wfn 15 0 (troot h)" using assms by (simp add: tcradix_sane_def)
    then show ?thesis by (rule GETL_ok) (rule pre_top)
  qed
  moreover have "write_status h AND 1 = 0" using assms by (simp add: tcradix_sane_def and_one_eq even_iff_mod_2_eq_zero)
  ultimately show ?thesis by (auto simp: tcradix_get_def)
qed

lemma tcradix_get_ok: "tcradix_rel h m \<Longrightarrow> tcradix_get k h = Some (val_of (m k))"
  using get_sane [OF tcradix_rel_sane] by (simp add: tcradix_rel_def)

subsection \<open>Insertion\<close>

lemma no_TOP_EMPTY:
  assumes i: "tcr_insert mal c n 15 k v = Some (r, c', n')" and w: "wf0 n" "wf0 n'" and n: "r = 0 \<or> nchildren n \<noteq> 0"
  shows "nchildren n' \<noteq> 0"
proof -
  have len: "length (tnodes n) = 16" using w(1) by (simp add: wf0_def)
  note s = insert_slots [OF i [unfolded level_15] len]
  have "\<exists>j<16. tnodes n' ! j \<noteq> TNull"
  proof (cases "r = 0")
    case True
    then show ?thesis using s(2) sl_less by blast
  next
    case False
    then have "tnodes n \<noteq> replicate 16 TNull" using n nchildren_0 [OF w(1)] by blast
    then obtain j where "j < 16" "tnodes n ! j \<noteq> TNull" using len by (metis length_replicate nth_equalityI nth_replicate)
    then show ?thesis using s(1) by blast
  qed
  then show ?thesis using nchildren_0 [OF w(2)] by auto
qed

lemma insert_child_key: "tcr_insert_child mal c n l k v = Some (r, c', n') \<Longrightarrow> only_key n' = only_key n"
  by (auto simp: tcr_insert_child.simps [of mal c n] Let_def split: if_splits tslot.splits option.splits Option.bind_splits)

lemma only_key_kept: "tcr_insert mal c n 15 k v = Some (r, c', n') \<Longrightarrow> only_key n' = only_key n \<or> only_key n' = 0"
  by (auto simp: tcr_insert.simps [of mal c n] dest!: insert_child_key split: if_splits Option.bind_splits)

text \<open>The root that \<open>insert\<close> starts from, and what it represents.\<close>

definition start_root :: "u64 \<Rightarrow> ptr \<Rightarrow> tcrnode \<Rightarrow> tcrnode" where
  "start_root k v n = (if only_key n = TOP_EMPTY \<and> nchildren n = 0 then set_only_key k (set_only_val v n) else n)"

lemma start_root_ok:
  assumes "root_ok n" "v \<noteq> NULL"
  shows "wfn 15 0 (start_root k v n)" "tsize 15 (start_root k v n) = tsize 15 n"
    "x \<noteq> k \<Longrightarrow> tlook 15 (start_root k v n) x = tlook 15 n x" "n \<noteq> fresh_root \<Longrightarrow> start_root k v n = n"
proof -
  show ne: "start_root k v n = n" if "n \<noteq> fresh_root" using that assms(1) by (auto simp: start_root_def root_ok_def)
  have f: "start_root k v fresh_root = set_only_key k (set_only_val v fresh_root)" by (simp add: start_root_def)
  show "wfn 15 0 (start_root k v n)"
  proof (cases "n = fresh_root")
    case True
    show ?thesis unfolding True f by (rule first_root(1) [OF assms(2) pre_top]) simp
  qed (use ne assms(1) in \<open>simp add: root_ok_def\<close>)
  show "tsize 15 (start_root k v n) = tsize 15 n" by (simp add: start_root_def)
  show "tlook 15 (start_root k v n) x = tlook 15 n x" if "x \<noteq> k"
  proof (cases "n = fresh_root")
    case True
    show ?thesis unfolding True f using first_root(2) [OF assms(2) pre_top _ that] by simp
  qed (use ne in simp)
qed

text \<open>The effect of an insertion, in terms of the insertion into the root.\<close>

lemma tcradix_insert_run:
  assumes "\<not> tmutex h" "v \<noteq> NULL" "tcr_insert mal (tmem h) (start_root k v (troot h)) 15 k v = Some (r, c', n')"
  shows "tcradix_insert mal k v h =
    Some (r, h\<lparr>troot := n', write_status := write_status h + 1 + 1, tmutex := False, tmem := c'\<rparr>)"
  using assms by (auto simp: tcradix_insert_def write_poke_def tcr_unlock_def start_root_def Let_def split: if_splits)

lemma tcradix_insert_ok:
  assumes rel: "tcradix_rel h m" and v: "v \<noteq> NULL"
  shows "\<exists>r h'. tcradix_insert mal k v h = Some (r, h') \<and> live (tmem h') \<le> live (tmem h) + 30
    \<and> (r = 0 \<and> tcradix_rel h' (m(k \<mapsto> v))
      \<or> r = ENOMEM \<and> fails mal (live (tmem h) + 30)
        \<and> (troot h \<noteq> fresh_root \<longrightarrow> tcradix_rel h' m \<or> val_of (m k) \<noteq> NULL \<and> tcradix_rel h' (m(k \<mapsto> v))))"
proof -
  let ?n = "start_root k v (troot h)"
  have R: "\<not> tmutex h" "even (write_status h)" "root_ok (troot h)" "mem_ok (tmem h) (tsize 15 (troot h))"
    "\<And>k. tlook 15 (troot h) k = val_of (m k)" using rel by (simp_all add: tcradix_rel_def)
  note S = start_root_ok [OF R(3) v]
  have "mem_ok (tmem h) (tsize 15 ?n + 0)" using R(4) S(2) by simp
  from tcr_insert_ok [OF v S(1) pre_top this, of mal k] obtain r c' n' where
    r: "tcr_insert mal (tmem h) ?n 15 k v = Some (r, c', n')" "wfn 15 0 n'" "mem_ok c' (tsize 15 n')"
      "ins_outcome mal (2 * 15) (tmem h) r c'" "look_ins (\<lambda>k. pre 15 k = 0) k v r (tlook 15 ?n) (tlook 15 n')"
    by auto
  let ?h = "h\<lparr>troot := n', write_status := write_status h + 1 + 1, tmutex := False, tmem := c'\<rparr>"
  have run: "tcradix_insert mal k v h = Some (r, ?h)"
    by (rule tcradix_insert_run [OF R(1) v r(1)])
  have relI: "tcradix_rel ?h m'" if "r = 0 \<or> troot h \<noteq> fresh_root" "\<And>x. tlook 15 n' x = val_of (m' x)" for m'
  proof -
    have "\<not> (only_key n' = TOP_EMPTY \<and> nchildren n' = 0)"
    proof (cases "r = 0 \<or> nchildren ?n \<noteq> 0")
      case True
      then show ?thesis using no_TOP_EMPTY [OF r(1) wfn_wf0 [OF S(1)] wfn_wf0 [OF r(2)]] by blast
    next
      case False
      then have n: "troot h \<noteq> fresh_root" "?n = troot h" "nchildren (troot h) = 0" using that(1) S(4) by auto
      then have "only_key (troot h) \<noteq> TOP_EMPTY" using R(3) by (auto simp: root_ok_def)
      then show ?thesis using only_key_kept [OF r(1)] n(2) by auto
    qed
    then show ?thesis using R r(2,3) that(2) by (simp add: tcradix_rel_def root_ok_def)
  qed
  have L: "tlook 15 n' x = val_of (m x)" if "x \<noteq> k" for x using r(5) that S(3) [OF that] R(5) pre_top by (simp add: look_ins_def)
  have lv: "live (tmem ?h) \<le> live (tmem h) + 30" using r(4) by (simp add: ins_outcome_def)
  show ?thesis
  proof (cases "r = 0")
    case True
    then have "tlook 15 n' k = v" using r(5) by (simp add: look_ins_def)
    then have "tcradix_rel ?h (m(k \<mapsto> v))" using L True by (intro relI) auto
    then show ?thesis using run lv True by blast
  next
    case False
    then have f: "r = ENOMEM" "fails mal (live (tmem h) + 30)" using r(4) by (auto simp: ins_outcome_def)
    have "tcradix_rel ?h m \<or> val_of (m k) \<noteq> NULL \<and> tcradix_rel ?h (m(k \<mapsto> v))" if nf: "troot h \<noteq> fresh_root"
    proof -
      consider "tlook 15 n' k = v" "val_of (m k) \<noteq> NULL" | "tlook 15 n' k = val_of (m k)"
        using r(5) False S(4) [OF nf] R(5) by (auto simp: look_ins_def)
      then show ?thesis
      proof cases
        case 1
        then have "tcradix_rel ?h (m(k \<mapsto> v))" using L nf by (intro relI) auto
        then show ?thesis using 1 by blast
      next
        case 2
        then have "tcradix_rel ?h m" using L nf by (intro relI) metis+
        then show ?thesis by blast
      qed
    qed
    then show ?thesis using run lv f by blast
  qed
qed

lemma tcradix_insert_null: "tcradix_insert mal k NULL h = Some (0, h)"
  by (simp add: tcradix_insert_def)

subsection \<open>Removal and deletion\<close>

lemma nremove_fresh:
  "0 < l \<Longrightarrow> nremove c fresh_root l k NULL =
     Some (k = TOP_EMPTY, NULL, c, if k = TOP_EMPTY then set_only_key 0 fresh_root else fresh_root)"
  by (subst nremove.simps) (auto simp: Let_def)

lemma tcradix_remove_ok:
  assumes rel: "tcradix_rel h m"
  shows "\<exists>h'. tcradix_remove k h = Some (val_of (m k), h') \<and> tcradix_rel h' (m(k := None)) \<and> live (tmem h') = live (tmem h)"
proof -
  have R: "\<not> tmutex h" "even (write_status h)" "root_ok (troot h)" "mem_ok (tmem h) (tsize 15 (troot h))"
    "\<And>k. tlook 15 (troot h) k = val_of (m k)" using rel by (simp_all add: tcradix_rel_def)
  have "\<exists>f c' n'. nremove (tmem h) (troot h) 15 k NULL = Some (f, val_of (m k), c', n') \<and> root_ok n'
     \<and> mem_ok c' (tsize 15 n') \<and> live c' = live (tmem h) \<and> (\<forall>x. tlook 15 n' x = val_of ((m(k := None)) x))"
  proof (cases "troot h = fresh_root")
    case True
    let ?n = "if k = TOP_EMPTY then set_only_key 0 fresh_root else fresh_root"
    have nil: "val_of (m x) = NULL" for x using R(5) True by simp
    have cl: "cleared (set_only_key 0 fresh_root)" by simp
    have "root_ok ?n" using wfn_cleared(1) [OF cl, of 15 0] by (simp add: root_ok_def)
    moreover have "tlook 15 ?n x = NULL" for x using wfn_cleared(2) [OF cl, of 15 x] by simp
    moreover have "mem_ok (tmem h) (tsize 15 ?n)" using R(4) True by simp
    ultimately show ?thesis using nremove_fresh [of 15 "tmem h" k] True nil by auto
  next
    case False
    then have w: "wfn 15 0 (troot h)" "\<not> (only_key (troot h) = TOP_EMPTY \<and> nchildren (troot h) = 0)"
      using R(3) by (auto simp: root_ok_def)
    from nremove_ok [OF w(1) pre_top, of "tmem h" 0 k NULL] R(4,5) obtain f c' n' where
      r: "nremove (tmem h) (troot h) 15 k NULL = Some (f, val_of (m k), c', n')" "wfn 15 0 n'" "mem_ok c' (tsize 15 n')"
        "live c' = live (tmem h)" "look_rem (\<lambda>k. pre 15 k = 0) k (tlook 15 (troot h)) (tlook 15 n')"
        "only_key n' = 0 \<or> n' = troot h" by (auto split: if_splits)
    then have "root_ok n'" using w(2) by (auto simp: root_ok_def)
    then show ?thesis using r R(5) pre_top by (auto simp: look_rem_def)
  qed
  then obtain f c' n' where r: "nremove (tmem h) (troot h) 15 k NULL = Some (f, val_of (m k), c', n')"
    "root_ok n'" "mem_ok c' (tsize 15 n')" "live c' = live (tmem h)" "\<And>x. tlook 15 n' x = val_of ((m(k := None)) x)" by blast
  let ?h = "h\<lparr>troot := n', write_status := write_status h + 1 + 1, tmutex := False, tmem := c'\<rparr>"
  have "tcradix_remove k h = Some (val_of (m k), ?h)"
    using R(1) r(1) by (simp add: tcradix_remove_def write_poke_def tcr_unlock_def)
  moreover have "tcradix_rel ?h (m(k := None))" using R(2) r unfolding tcradix_rel_def by simp
  ultimately show ?thesis using r(4) by auto
qed

lemma tcradix_delete_ok:
  assumes "tcradix_rel h m"
  shows "tcradix_delete h = Some 0"
proof -
  have R: "\<not> tmutex h" "root_ok (troot h)" "mem_ok (tmem h) (tsize 15 (troot h))" using assms by (simp_all add: tcradix_rel_def)
  obtain j where j: "pooled j (tdeleted_node (tmem h))" "live (tmem h) = tsize 15 (troot h) + j" using R(3) by (auto simp: mem_ok_def)
  let ?c = "(tmem h)\<lparr>live := tsize 15 (troot h)\<rparr>"
  have f: "free_deleted (tdeleted_node (tmem h)) (tmem h) = Some ?c" using tcr_free_deleted_ok [OF j(1), of "tmem h"] j(2) by simp
  have "teardown (troot h) 15 ?c = Some (?c\<lparr>live := 0\<rparr>)"
  proof (cases "troot h = fresh_root")
    case True
    then show ?thesis by (simp add: teardown.simps tfree_def)
  next
    case False
    then have "wfn 15 0 (troot h)" using R(2) by (simp add: root_ok_def)
    from teardown_ok [OF this, of ?c] show ?thesis by simp
  qed
  then show ?thesis using R(1) f by (simp add: tcradix_delete_def)
qed

subsection \<open>The table of operations\<close>

definition hm_tcradix :: "(tmem \<Rightarrow> bool) \<Rightarrow> (tcrhead, nat) hm" where
  "hm_tcradix mal =
     \<lparr>hm_new = tcradix_new mal,
      hm_delete = tcradix_delete,
      hm_insert = tcradix_insert mal,
      hm_remove = tcradix_remove,
      hm_get = tcradix_get,
      hm_find_le = tcradix_find_le,
      hm_immutable = 2\<rparr>"

text \<open>An insertion allocates at most 30 nodes.\<close>

definition tcradix_repr :: "nat \<Rightarrow> nat \<Rightarrow> tcrhead \<Rightarrow> (u64 \<rightharpoonup> ptr) \<Rightarrow> bool" where
  "tcradix_repr cap n h m \<longleftrightarrow> tcradix_rel h m \<and> live (tmem h) + 30 * n \<le> cap"

locale serving_zalloc =
  fixes mal :: "tmem \<Rightarrow> bool" and cap :: nat
  assumes serves: "live c < cap \<Longrightarrow> mal c" and cap: "0 < cap"
begin

lemma not_fails: "b \<le> cap \<Longrightarrow> \<not> fails mal b"
  unfolding fails_def using serves by (meson order_less_le_trans)

lemma new_repr: "\<exists>h. tcradix_new mal = Some h \<and> tcradix_repr cap ((cap - 1) div 30) h Map.empty"
proof -
  have "mal \<lparr>tdeleted_node = TNull, live = 0\<rparr>" using cap by (intro serves) simp
  moreover have "1 + 30 * ((cap - 1) div 30) \<le> cap"
    using cap times_div_less_eq_dividend [of 30 "cap - 1"] by linarith
  ultimately show ?thesis using tcradix_new_ok [of mal] by (auto simp: tcradix_repr_def)
qed

lemma insert_repr:
  assumes "tcradix_repr cap (Suc n) h m" "k \<notin> dom m"
  shows "\<exists>h'. tcradix_insert mal k v h = Some (0, h') \<and> tcradix_repr cap n h' (m(k \<mapsto> v))"
proof (cases "v = NULL")
  case True
  have "val_of ((m(k \<mapsto> NULL)) x) = val_of (m x)" for x using assms(2) by (auto simp: domIff val_of_def)
  then show ?thesis using assms(1) True by (simp add: tcradix_insert_null tcradix_repr_def tcradix_rel_def del: fun_upd_apply)
next
  case False
  have rel: "tcradix_rel h m" and b: "live (tmem h) + 30 * Suc n \<le> cap" using assms(1) by (simp_all add: tcradix_repr_def)
  have "\<not> fails mal (live (tmem h) + 30)" using b by (intro not_fails) simp
  then show ?thesis using tcradix_insert_ok [OF rel False, of mal k] b by (auto simp: tcradix_repr_def)
qed

lemma remove_repr:
  assumes "tcradix_repr cap (Suc n) h m"
  shows "\<exists>h'. tcradix_remove k h = Some (val_of (m k), h') \<and> tcradix_repr cap n h' (m(k := None))"
  using assms tcradix_remove_ok [of h m k] by (auto simp: tcradix_repr_def)

end

lemma hm_tcradix_hashmap:
  assumes "serving_zalloc mal cap"
  shows "hashmap (hm_tcradix mal) ((cap - 1) div 30) (tcradix_repr cap) 0 False True"
  by unfold_locales
     (use serving_zalloc.new_repr [OF assms] serving_zalloc.insert_repr [OF assms] serving_zalloc.remove_repr [OF assms]
        tcradix_get_ok tcradix_delete_ok in \<open>auto simp: hm_tcradix_def tcradix_repr_def\<close>)

text \<open>Memory for a fixed number of nodes.\<close>

definition limited :: "nat \<Rightarrow> tmem \<Rightarrow> bool" where
  "limited cap c \<longleftrightarrow> live c < cap"

interpretation lim: serving_zalloc "limited 134217728" 134217728
  by unfold_locales (simp_all add: limited_def)

interpretation tcradix_hm: hashmap "hm_tcradix (limited 134217728)" 4473924 "tcradix_repr 134217728" 0 False True
  using hm_tcradix_hashmap [OF lim.serving_zalloc_axioms] by simp

subsection \<open>Any sequence of calls\<close>

lemma empty_root:
  assumes "wfn 15 0 n" "nchildren n = 0" "v \<noteq> NULL"
  shows "wfn 15 0 (set_only_key k (set_only_val v n))"
proof -
  note w = assms(1) [unfolded level_15 wfn_Suc]
  have "tnodes n = replicate 16 TNull" using nchildren_0 [OF wfn_wf0 [OF assms(1)]] assms(2) by simp
  then have "only (Suc 14) k v (set_only_key k (set_only_val v n))" unfolding only_Suc only_slot_def by simp
  then show ?thesis unfolding level_15 wfn_Suc using w pre_top [of k] assms(3) by simp
qed

lemma start_root_sane:
  assumes "tcradix_sane h" "v \<noteq> NULL"
  shows "wfn 15 0 (start_root k v (troot h))" "tsize 15 (start_root k v (troot h)) = tsize 15 (troot h)"
proof -
  show "tsize 15 (start_root k v (troot h)) = tsize 15 (troot h)" by (simp add: start_root_def)
  show "wfn 15 0 (start_root k v (troot h))"
  proof (cases "troot h = fresh_root")
    case True
    then show ?thesis using first_root(1) [OF assms(2) pre_top] by (simp add: start_root_def)
  next
    case False
    then have "wfn 15 0 (troot h)" using assms(1) by (simp add: tcradix_sane_def)
    then show ?thesis using empty_root [OF _ _ assms(2)] by (simp add: start_root_def)
  qed
qed

lemma insert_sane:
  assumes sane: "tcradix_sane h" and v: "v \<noteq> NULL"
  shows "\<exists>r h'. tcradix_insert mal k v h = Some (r, h') \<and> tcradix_sane h' \<and> wfn 15 0 (troot h')
    \<and> look_ins (\<lambda>_. True) k v r (tlook 15 (start_root k v (troot h))) (tlook 15 (troot h'))"
proof -
  have R: "\<not> tmutex h" "even (write_status h)" "mem_ok (tmem h) (tsize 15 (troot h))"
    using sane by (simp_all add: tcradix_sane_def)
  note S = start_root_sane [OF sane v, of k]
  have "mem_ok (tmem h) (tsize 15 (start_root k v (troot h)) + 0)" using R(3) S(2) by simp
  from tcr_insert_ok [OF v S(1) pre_top this, of mal k] obtain r c' n' where
    r: "tcr_insert mal (tmem h) (start_root k v (troot h)) 15 k v = Some (r, c', n')" "wfn 15 0 n'" "mem_ok c' (tsize 15 n')"
      "look_ins (\<lambda>k. pre 15 k = 0) k v r (tlook 15 (start_root k v (troot h))) (tlook 15 n')" by auto
  then show ?thesis using tcradix_insert_run [OF R(1) v r(1)] R(2) pre_top by (simp add: tcradix_sane_def)
qed

lemma remove_sane:
  assumes "tcradix_sane h"
  shows "\<exists>h'. tcradix_remove k h = Some (tlook 15 (troot h) k, h') \<and> tcradix_sane h'"
proof -
  have R: "\<not> tmutex h" "even (write_status h)" "troot h = fresh_root \<or> wfn 15 0 (troot h)" "mem_ok (tmem h) (tsize 15 (troot h))"
    using assms by (simp_all add: tcradix_sane_def)
  let ?x = "tlook 15 (troot h) k"
  have "\<exists>f c' n'. nremove (tmem h) (troot h) 15 k NULL = Some (f, ?x, c', n') \<and> (n' = fresh_root \<or> wfn 15 0 n')
     \<and> mem_ok c' (tsize 15 n')"
  proof (cases "troot h = fresh_root")
    case True
    have "wfn 15 0 (set_only_key 0 fresh_root)" by (rule wfn_cleared(1)) simp
    then show ?thesis using nremove_fresh [of 15 "tmem h" k] R(4) True by (auto simp del: fresh_root_simps)
  next
    case False
    then have "wfn 15 0 (troot h)" using R(3) by simp
    from nremove_ok [OF this pre_top, of "tmem h" 0 k NULL] R(4) show ?thesis by (auto split: if_splits)
  qed
  then obtain f c' n' where "nremove (tmem h) (troot h) 15 k NULL = Some (f, ?x, c', n')"
    "n' = fresh_root \<or> wfn 15 0 n'" "mem_ok c' (tsize 15 n')" by blast
  then show ?thesis using R(1,2) by (simp add: tcradix_remove_def write_poke_def tcr_unlock_def tcradix_sane_def)
qed

lemma new_sane: "tcradix_new mal = Some h \<Longrightarrow> tcradix_sane h \<and> troot h = fresh_root \<and> tdeleted_node (tmem h) = TNull"
  by (auto simp: tcradix_new_def tcradix_sane_def mem_ok_def fresh_root_def [symmetric] Let_def intro!: exI [of _ 0] split: if_splits)

lemma performs_sane:
  "tcradix_sane h \<Longrightarrow> \<exists>as h'. performs (hm_tcradix mal) cs h = Some (as, h') \<and> tcradix_sane h'"
proof (induction cs arbitrary: h)
  case (Cons c cs)
  have "\<exists>a h1. perform (hm_tcradix mal) c h = Some (a, h1) \<and> tcradix_sane h1"
  proof (cases c)
    case (Insert k v)
    then show ?thesis using insert_sane [OF Cons.prems, of v mal k] Cons.prems
      by (cases "v = NULL") (auto simp: hm_tcradix_def tcradix_insert_null)
  next
    case (Remove k)
    then show ?thesis using remove_sane [OF Cons.prems, of k] by (auto simp: hm_tcradix_def)
  next
    case (Get k)
    then show ?thesis using get_sane [OF Cons.prems, of k] Cons.prems by (simp add: hm_tcradix_def)
  qed
  then obtain a h1 where 1: "perform (hm_tcradix mal) c h = Some (a, h1)" "tcradix_sane h1" by blast
  from Cons.IH [OF 1(2)] obtain as h' where "performs (hm_tcradix mal) cs h1 = Some (as, h')" "tcradix_sane h'" by blast
  with 1(1) show ?case by simp
qed simp

subsection \<open>A concrete structure\<close>

text \<open>The key 5 alone: the root and the first node of the path to it remember it.\<close>

definition tdemo :: tcrhead where
  "tdemo = \<lparr>troot = Tcrnode ((replicate 16 TNull)[0 := TSub (Tcrnode (replicate 16 TNull) 5 50 0)]) 5 50 1,
            write_status = 2, tmutex = False, tmem = \<lparr>tdeleted_node = TNull, live = 2\<rparr>\<rparr>"

lemma tdemo_insert: "(tcradix_new (limited 2) \<bind> (\<lambda>h. tcradix_insert (limited 2) 5 50 h)) = Some (0, tdemo)"
proof -
  have "sl 5 15 = 0" by (simp add: sl_up up_def)
  then have "tcr_insert_child (limited 2) \<lparr>tdeleted_node = TNull, live = 1\<rparr> (Tcrnode (replicate 16 TNull) 5 50 0) 15 5 50
     = Some (0, \<lparr>tdeleted_node = TNull, live = 2\<rparr>, troot tdemo)"
    by (simp add: tcr_insert_child.simps tcr_alloc_node.simps limited_def tdemo_def set_slot_def set_nchildren_def
        set_only_key_def set_only_val_def zero_node_def TCR_SLNODES_def)
  then show ?thesis
    by (simp add: tcradix_new_def tcradix_insert_def limited_def tcr_insert.simps write_poke_def tcr_unlock_def zero_node_def
        set_only_key_def set_only_val_def TCR_SLNODES_def tdemo_def Let_def)
qed

lemma tdemo_remove:
  "\<exists>h. tcradix_remove 5 tdemo = Some (50, h) \<and> tdeleted_node (tmem h) \<noteq> TNull \<and> \<not> limited 2 (tmem h)"
proof -
  have s: "sl 5 15 = 0" "sl 5 14 = 0" by (simp_all add: sl_up up_def)
  show ?thesis
    by (simp add: tcradix_remove_def tdemo_def write_poke_def tcr_unlock_def nremove.simps [of _ _ 15] nremove.simps [of _ _ 14]
        s set_slot_def set_nchildren_def set_only_key_def set_only_val_def Let_def limited_def)
qed

lemma tdemo_rel: "tcradix_rel tdemo [5 \<mapsto> 50]"
proof -
  obtain h where h: "tcradix_new (limited 2) = Some h" "tcradix_rel h Map.empty"
    using tcradix_new_ok [of "limited 2"] by (auto simp: limited_def)
  then have "tcradix_insert (limited 2) 5 50 h = Some (0, tdemo)" using tdemo_insert by simp
  then show ?thesis using tcradix_insert_ok [OF h(2), of 50 "limited 2" 5] by auto
qed

subsection \<open>Properties\<close>

text \<open>
  C22.  Insertion of a value that is not NULL, on every branch: \<open>tcradix_insert\<close> always
  returns.  Either it returns 0 and the key has the value, whether or not it had one before, or it
  returns \<open>ENOMEM\<close>, after \<open>Zalloc\<close> failed at a time when fewer than 30 blocks had been added.
  In that case, unless the structure was still empty, a key that was absent is absent and all other
  keys have their values; only a key that was present may have been given the new value.
\<close>

theorem tcradix_insert_correct:
  assumes "tcradix_rel h m" "v \<noteq> NULL"
  shows "\<exists>r h'. tcradix_insert mal k v h = Some (r, h') \<and> live (tmem h') \<le> live (tmem h) + 30
    \<and> (r = 0 \<and> tcradix_rel h' (m(k \<mapsto> v))
      \<or> r = ENOMEM \<and> fails mal (live (tmem h) + 30)
        \<and> (troot h \<noteq> fresh_root \<longrightarrow> tcradix_rel h' m \<or> val_of (m k) \<noteq> NULL \<and> tcradix_rel h' (m(k \<mapsto> v))))"
  by (rule tcradix_insert_ok [OF assms])

theorem tcradix_insert_correct_witness:
  "\<exists>h'. tcradix_insert (limited 1000) 7 70 tdemo = Some (0, h') \<and> tcradix_rel h' [5 \<mapsto> 50, 7 \<mapsto> 70]"
proof -
  have "\<not> fails (limited 1000) (live (tmem tdemo) + 30)" by (auto simp: fails_def limited_def tdemo_def)
  then show ?thesis using tcradix_insert_correct [OF tdemo_rel, of 70 "limited 1000" 7] by auto
qed

text \<open>
  C23.  Removal: \<open>tcradix_remove\<close> always returns the value of the key, or NULL, and exactly that
  key is gone afterwards; no block is freed, the emptied nodes are kept for reuse.
\<close>

theorem tcradix_remove_correct:
  assumes "tcradix_rel h m"
  shows "\<exists>h'. tcradix_remove k h = Some (val_of (m k), h') \<and> tcradix_rel h' (m(k := None))
    \<and> live (tmem h') = live (tmem h)"
  by (rule tcradix_remove_ok [OF assms])

theorem tcradix_remove_correct_witness:
  "\<exists>h'. tcradix_remove 5 tdemo = Some (50, h') \<and> tcradix_rel h' Map.empty"
  using tcradix_remove_correct [OF tdemo_rel, of 5] by auto

text \<open>
  C24.  Lookup: with no writer at work \<open>tcradix_get\<close> returns the value of the key, or NULL,
  without ever entering the spinning \<open>get_slow\<close>.
\<close>

theorem tcradix_get_correct:
  assumes "tcradix_rel h m"
  shows "tcradix_get k h = Some (val_of (m k)) \<and> write_status h AND 1 = 0"
  using tcradix_get_ok [OF assms] assms by (simp add: tcradix_rel_def and_one_eq even_iff_mod_2_eq_zero)

theorem tcradix_get_correct_witness: "tcradix_get 5 tdemo = Some 50 \<and> tcradix_get 6 tdemo = Some NULL"
  using tcradix_get_correct [OF tdemo_rel, of 5] tcradix_get_correct [OF tdemo_rel, of 6] by simp

text \<open>
  C25.  Deletion frees exactly as many blocks as are allocated, although \<open>teardown\<close> follows only
  the remembered key where there is one: none is left, none is freed twice.
\<close>

theorem tcradix_delete_frees_all:
  assumes "tcradix_rel h m"
  shows "tcradix_delete h = Some 0"
  by (rule tcradix_delete_ok [OF assms])

theorem tcradix_delete_frees_all_witness: "tcradix_delete tdemo = Some 0"
  by (rule tcradix_delete_frees_all [OF tdemo_rel])

text \<open>
  C26.  The check of \<open>DEBUG_SPAM\<close> never fires: after any sequence of calls on a new structure
  (duplicate insertions, insertions that fail for want of memory and removals of absent keys
  included) every call has returned, and a node taken from the chain of deleted nodes is as
  clean as one from \<open>Zalloc\<close>; so are all those behind it.  \<open>NULL\<close> is returned only if the chain is empty
  and \<open>Zalloc\<close> fails.
\<close>

theorem tcradix_reclaimed_clean:
  assumes "tcradix_new mal = Some h0"
  shows "\<exists>as h j. performs (hm_tcradix mal) cs h0 = Some (as, h) \<and> pooled j (tdeleted_node (tmem h))
    \<and> (if 0 < j \<or> mal' (tmem h) then \<exists>c. tcr_alloc_node mal' (tmem h) = Some (Some zero_node, c) \<and> pooled (j - 1) (tdeleted_node c)
       else tcr_alloc_node mal' (tmem h) = Some (None, tmem h))"
proof -
  obtain as h where h: "performs (hm_tcradix mal) cs h0 = Some (as, h)" "tcradix_sane h"
    using performs_sane new_sane [OF assms] by blast
  then obtain j where "pooled j (tdeleted_node (tmem h))" by (auto simp: tcradix_sane_def mem_ok_def)
  then show ?thesis using h(1) by (intro exI [of _ as] exI [of _ h] exI [of _ j], cases j) (auto simp: tcr_alloc_node.simps)
qed

theorem tcradix_reclaimed_clean_witness:
  "\<exists>as h c. (tcradix_new (limited 2) \<bind> performs (hm_tcradix (limited 2)) [Insert 5 50, Remove 5]) = Some (as, h)
     \<and> \<not> limited 2 (tmem h) \<and> tcr_alloc_node (limited 2) (tmem h) = Some (Some zero_node, c)"
proof -
  obtain h0 where h0: "tcradix_new (limited 2) = Some h0" "tcradix_insert (limited 2) 5 50 h0 = Some (0, tdemo)"
    using tdemo_insert by (auto simp: bind_eq_Some_conv)
  obtain h where h: "tcradix_remove 5 tdemo = Some (50, h)" "tdeleted_node (tmem h) \<noteq> TNull" "\<not> limited 2 (tmem h)"
    using tdemo_remove by blast
  then have run: "performs (hm_tcradix (limited 2)) [Insert 5 50, Remove 5] h0 = Some ([Status 0, Value 50], h)"
    using h0(2) by (simp add: hm_tcradix_def)
  from tcradix_reclaimed_clean [OF h0(1), of "[Insert 5 50, Remove 5]" "limited 2"] obtain j where
    j: "pooled j (tdeleted_node (tmem h))" "0 < j \<longrightarrow> (\<exists>c. tcr_alloc_node (limited 2) (tmem h) = Some (Some zero_node, c))"
    unfolding run by (auto split: if_splits)
  have "0 < j" using j(1) h(2) by (cases j) simp_all
  then show ?thesis using j(2) run h0(1) h(3) by auto
qed

text \<open>
  C27.  Sequences of calls that never insert a key that is present: tcradix answers as a finite map
  and leaves no memory behind.
\<close>

theorem tcradix_session_refines:
  assumes "serving_zalloc mal cap" "length cs \<le> (cap - 1) div 30" "permitted False True Map.empty cs"
  shows "session (hm_tcradix mal) cs = Some (expect Map.empty cs, 0)"
  by (rule hashmap.session_ok [OF hm_tcradix_hashmap [OF assms(1)] assms(2,3)])

theorem tcradix_session_refines_witness:
  "session (hm_tcradix (limited 134217728)) [Insert 0 50, Insert 1 7, Remove 6, Get 0, Remove 0, Get 0, Insert 0 51, Get 0, Get 1]
   = Some ([Status 0, Status 0, Value 0, Value 50, Value 50, Value 0, Status 0, Value 51, Value 7], 0)"
  using tcradix_session_refines [OF lim.serving_zalloc_axioms,
      of "[Insert 0 50, Insert 1 7, Remove 6, Get 0, Remove 0, Get 0, Insert 0 51, Get 0, Get 1]"]
  by simp

text \<open>
  C29.  A failed insertion is visible.  If the first insertion into a new structure, of any key but 0
  and any value but NULL, returns \<open>ENOMEM\<close>, as it does when there is no memory for a node, then a
  lookup finds the key with the value all the same, and a removal returns the value.  The key 0
  is not found after such a failure, nor is any key that was not inserted.
\<close>

theorem tcradix_failed_insert_visible:
  assumes "tcradix_new mal = Some h" "v \<noteq> NULL"
  shows "(\<not> mal (tmem h) \<longrightarrow> (\<exists>h'. tcradix_insert mal k v h = Some (ENOMEM, h')))
    \<and> (\<forall>h'. tcradix_insert mal k v h = Some (ENOMEM, h') \<longrightarrow>
        (\<forall>x. tcradix_get x h' = Some (if x = k \<and> k \<noteq> 0 then v else NULL))
        \<and> (\<exists>h''. tcradix_remove k h' = Some (if k \<noteq> 0 then v else NULL, h'')))"
proof (intro conjI impI allI)
  note n = new_sane [OF assms(1)]
  let ?n = "start_root k v (troot h)"
  have st: "?n = set_only_key k (set_only_val v fresh_root)" using n by (simp add: start_root_def)
  have look: "tlook 15 ?n x = (if x = k \<and> k \<noteq> 0 then v else NULL)" for x
    unfolding st level_15 tlook.simps by simp
  show "\<exists>h'. tcradix_insert mal k v h = Some (ENOMEM, h')" if "\<not> mal (tmem h)"
  proof -
    have "tcr_insert mal (tmem h) ?n 15 k v = Some (ENOMEM, tmem h, ?n)"
      using that n unfolding st
      by (subst tcr_insert.simps) (simp add: tcr_insert_child.simps tcr_alloc_node.simps set_only_val_def set_only_key_def)
    then show ?thesis using tcradix_insert_run [OF _ assms(2)] n by (auto simp: tcradix_sane_def)
  qed
  fix h'
  assume e: "tcradix_insert mal k v h = Some (ENOMEM, h')"
  then have h': "tcradix_sane h'" "look_ins (\<lambda>_. True) k v ENOMEM (tlook 15 ?n) (tlook 15 (troot h'))"
    using insert_sane [of h v mal k] n assms(2) by auto
  have L: "tlook 15 (troot h') x = (if x = k \<and> k \<noteq> 0 then v else NULL)" for x
    using h'(2) look unfolding look_ins_def by (cases "x = k") (auto split: if_splits)
  show "tcradix_get x h' = Some (if x = k \<and> k \<noteq> 0 then v else NULL)" for x
    using get_sane [OF h'(1)] L by simp
  show "\<exists>h''. tcradix_remove k h' = Some (if k \<noteq> 0 then v else NULL, h'')"
    using remove_sane [OF h'(1), of k] L [of k] by auto
qed

theorem tcradix_failed_insert_visible_witness:
  "\<exists>h h'. tcradix_new (limited 1) = Some h \<and> tcradix_insert (limited 1) 5 50 h = Some (ENOMEM, h') \<and>
     tcradix_get 5 h' = Some 50"
proof -
  obtain h where h: "tcradix_new (limited 1) = Some h" "\<not> limited 1 (tmem h)"
    by (auto simp: tcradix_new_def limited_def)
  have "(50::ptr) \<noteq> NULL" by simp
  from tcradix_failed_insert_visible [OF h(1) this, of 5] h show ?thesis by auto
qed

end
