(* ===== verification/Corr_Brute.thy ===== *)
theory Corr_Brute
  imports Corr_Tests Util_Bits
begin

text \<open>
  The randomised test of predecessor queries, \<open>test_le_brute\<close> of \<open>src/1corr.c\<close>: 16-bit
  numbers are spread out by \<open>expand_bits\<close> and used as keys, and every answer of
  \<open>hm_find_le\<close> is compared with a scan of an array of flags.  The random numbers are an argument:
  the number each round draws for the update, and those it draws for its queries.
\<close>

definition expand_bits :: "u64 \<Rightarrow> u64" where
  "expand_bits x =
        push_bit 14 (x AND 0xc000)
     OR push_bit 12 (x AND 0x3000)
     OR push_bit 10 (x AND 0x0c00)
     OR push_bit 8 (x AND 0x0300)
     OR push_bit 6 (x AND 0x00c0)
     OR push_bit 4 (x AND 0x0030)
     OR push_bit 2 (x AND 0x000c)
     OR (x AND 0x0003)"

fun brute_scan :: "(nat \<Rightarrow> bool) \<Rightarrow> nat \<Rightarrow> nat option" where
  "brute_scan ws v = (if ws v then Some v else case v of 0 \<Rightarrow> None | Suc v' \<Rightarrow> brute_scan ws v')"

definition low16 :: "u64 \<Rightarrow> nat" where
  "low16 r = unat (r AND 0xffff)"

definition brute_query :: "('s, 'h) hm \<Rightarrow> (nat \<Rightarrow> bool) \<Rightarrow> u64 \<Rightarrow> 's \<Rightarrow> 's option" where
  "brute_query hm ws r c = (let w = low16 r; v = brute_scan ws w in do {
     res \<leftarrow> hm_find_le hm (expand_bits (of_nat w)) c;
     CHECK (res = (case v of Some v \<Rightarrow> expand_bits (of_nat v) | None \<Rightarrow> 0));
     Some c
   })"

definition brute_round :: "('s, 'h) hm \<Rightarrow> u64 \<times> u64 list \<Rightarrow> 's \<times> (nat \<Rightarrow> bool) \<Rightarrow> ('s \<times> (nat \<Rightarrow> bool)) option" where
  "brute_round hm draws s = (case (draws, s) of ((r, rs), (c, ws)) \<Rightarrow> let w = low16 r; x = expand_bits (of_nat w) in do {
     (c, ws) \<leftarrow>
       (if ws w then do { (v, c) \<leftarrow> hm_remove hm x c; Some (c, ws(w := False)) }
        else do { c \<leftarrow> INS hm x x c; Some (c, ws(w := True)) });
     c \<leftarrow> for_each (brute_query hm ws) rs c;
     Some (c, ws)
   })"

definition test_le_brute :: "('s, 'h) hm \<Rightarrow> (u64 \<times> u64 list) list \<Rightarrow> 'h option" where
  "test_le_brute hm draws = do {
     c \<leftarrow> hm_new hm;
     (c, ws) \<leftarrow> for_each (brute_round hm) draws (c, \<lambda>w. False);
     hm_delete hm c
   }"

declare brute_scan.simps [simp del]

subsection \<open>Spreading the bits keeps the order\<close>

lemma less_by_bit: "\<not> bit x j \<Longrightarrow> bit y j \<Longrightarrow> (\<And>i. j < i \<Longrightarrow> bit x i = bit y i) \<Longrightarrow> (x::u64) < y"
proof -
  assume b: "\<not> bit x j" "bit y j" and eq: "\<And>i. j < i \<Longrightarrow> bit x i = bit y i"
  have "up (Suc j) x = up (Suc j) y" using eq by (simp add: up_bit)
  moreover have "up j z = 2 * up (Suc j) z + (if bit z j then 1 else 0)" for z :: u64
  proof -
    have "up (Suc j) z = up j z div 2" using up_add [of j 1 z] by simp
    moreover have "bit z j \<longleftrightarrow> odd (up j z)" 
    proof -
      have "bit z j \<longleftrightarrow> bit (unat z) j" using bit_u64_high [of j z] by (auto simp: bit_unsigned_iff not_le)
      then show ?thesis by (simp add: bit_iff_odd up_def)
    qed
    ultimately show ?thesis using div_mult_mod_eq [of "up j z" 2] by (auto simp: odd_iff_mod_2_eq_one elim!: evenE oddE)
  qed
  ultimately have "up j x < up j y" using b by simp
  then show ?thesis by (rule up_less)
qed

lemma top_difference:
  assumes "(x::u64) < y"
  obtains j where "\<not> bit x j" "bit y j" "\<And>i. j < i \<Longrightarrow> bit x i = bit y i"
proof -
  have ne: "x XOR y \<noteq> 0" using assms by (simp add: xor_zero_iff)
  let ?j = "unat (util_mssb_index64 (x XOR y))"
  have j: "bit x ?j \<noteq> bit y ?j" "\<And>i. ?j < i \<Longrightarrow> bit x i = bit y i" using mssb_spec [OF ne] by (auto simp: bit_xor_iff)
  moreover have "\<not> (bit x ?j \<and> \<not> bit y ?j)" using less_by_bit [of y ?j x] j(2) assms by fastforce
  ultimately show thesis using that [of ?j] by blast
qed

lemma bit_expand:
  assumes "j < 64"
  shows "bit (expand_bits x) j \<longleftrightarrow> j < 32 \<and> j mod 4 < 2 \<and> bit x (j div 4 * 2 + j mod 4)"
proof -
  have "list_all (\<lambda>j. bit (expand_bits x) j \<longleftrightarrow> j < 32 \<and> j mod 4 < 2 \<and> bit x (j div 4 * 2 + j mod 4)) [0..<64]"
    by (simp add: expand_bits_def bit_simps upt_conv_Cons) (simp add: numeral_eq_Suc)
  then show ?thesis using assms by (simp add: list_all_iff)
qed


lemma expand_mono:
  assumes "x < y" "y < 65536"
  shows "expand_bits x < expand_bits y"
proof -
  obtain j where j: "\<not> bit x j" "bit y j" "\<And>i. j < i \<Longrightarrow> bit x i = bit y i" using top_difference [OF assms(1)] by blast
  have "up 16 y = 0" using assms(2) by (simp add: up_def word_less_nat_alt)
  then have "j < 16" using j(2) up_bit [of 16 y 0] by (auto simp: up_def not_le [symmetric])
  let ?e = "j div 2 * 4 + j mod 2"
  have e: "?e < 32" "?e mod 4 = j mod 2" "?e div 4 = j div 2" using \<open>j < 16\<close> by auto
  have "bit (expand_bits z) ?e \<longleftrightarrow> bit z j" for z using bit_expand [of ?e z] e by simp
  moreover have "bit (expand_bits x) i \<longleftrightarrow> bit (expand_bits y) i" if i: "?e < i" for i
  proof (cases "i < 64")
    case True
    have "j < i div 4 * 2 + i mod 4" if "i mod 4 < 2" 
    proof -
      have "j div 2 * 4 + j mod 2 < i div 4 * 4 + i mod 4" using i div_mult_mod_eq [of i 4] by linarith
      then have "j div 2 < i div 4 \<or> j div 2 = i div 4 \<and> j mod 2 < i mod 4" using that by linarith
      moreover have "j = j div 2 * 2 + j mod 2" "j mod 2 < 2" by simp_all
      ultimately show ?thesis by linarith
    qed
    then show ?thesis using True j(3) by (auto simp: bit_expand)
  qed (simp add: bit_u64_high not_less)
  ultimately show ?thesis using less_by_bit [of "expand_bits x" ?e "expand_bits y"] j(1,2) by blast
qed

abbreviation xkey :: "nat \<Rightarrow> u64" where
  "xkey w \<equiv> expand_bits (of_nat w)"

lemma xkey_less: "u < 65536 \<Longrightarrow> w < 65536 \<Longrightarrow> xkey u < xkey w \<longleftrightarrow> u < w"
proof -
  assume l: "u < 65536" "w < 65536"
  have n: "unat (of_nat z :: u64) = z" if "z < 65536" for z using that by (simp add: unat_of_nat take_bit_nat_eq_self)
  have m: "xkey a < xkey b" if "a < b" "b < 65536" for a b
    by (rule expand_mono) (use that n [of a] n [of b] in \<open>simp_all add: word_less_nat_alt\<close>)
  show ?thesis using m [of u w] m [of w u] l by (metis linorder_neqE_nat order.asym)
qed

lemma xkey_le: "u < 65536 \<Longrightarrow> w < 65536 \<Longrightarrow> xkey u \<le> xkey w \<longleftrightarrow> u \<le> w"
  using xkey_less [of w u] by (simp add: not_less [symmetric])

lemma xkey_eq: "u < 65536 \<Longrightarrow> w < 65536 \<Longrightarrow> xkey u = xkey w \<longleftrightarrow> u = w"
  using xkey_le [of u w] xkey_le [of w u] by auto

lemma xkey_0: "xkey 0 = 0"
  by (simp add: expand_bits_def)

lemma low16_less: "low16 r < 65536"
proof -
  have "r AND 0xffff \<le> 0xffff" by (rule word_and_le1)
  then show ?thesis by (simp add: low16_def word_le_nat_alt)
qed

subsection \<open>The test passes\<close>

text \<open>The map that the array of flags describes.\<close>

definition brute_map :: "(nat \<Rightarrow> bool) \<Rightarrow> u64 \<rightharpoonup> ptr" where
  "brute_map ws k = (if \<exists>w<65536. ws w \<and> k = xkey w then Some k else None)"

lemma brute_map_E: "w < 65536 \<Longrightarrow> brute_map ws (xkey w) = (if ws w then Some (xkey w) else None)"
  by (auto simp: brute_map_def xkey_eq)

lemma brute_map_update:
  "w < 65536 \<Longrightarrow> (brute_map ws)(xkey w := (if b then Some (xkey w) else None)) = brute_map (ws(w := b))"
  by (auto simp: brute_map_def fun_eq_iff xkey_eq)

lemma brute_map_SomeD: "brute_map ws k = Some v \<Longrightarrow> \<exists>w<65536. ws w \<and> k = xkey w \<and> v = xkey w"
  by (auto simp: brute_map_def split: if_splits)

lemma brute_scan_None: "brute_scan ws w = None \<Longrightarrow> u \<le> w \<Longrightarrow> \<not> ws u"
  by (induction w) (auto simp: brute_scan.simps [of ws] le_Suc_eq split: if_splits)

lemma brute_scan_Some: "brute_scan ws w = Some v \<Longrightarrow> v \<le> w \<and> ws v \<and> (\<forall>u. v < u \<and> u \<le> w \<longrightarrow> \<not> ws u)"
proof (induction w)
  case (Suc w)
  then show ?case by (subst (asm) brute_scan.simps) (auto simp: le_Suc_eq split: if_splits)
qed (auto simp: brute_scan.simps [of ws] split: if_splits)

lemma le_value_below:
  assumes "w < 65536" "le_value (brute_map ws) (xkey w) v" "v \<noteq> 0"
  obtains u where "u \<le> w" "ws u" "v = xkey u"
proof -
  obtain x where x: "x \<le> xkey w" "brute_map ws x = Some v" using assms(2,3) by (auto simp: le_value_def)
  then obtain u where u: "u < 65536" "ws u" "x = xkey u" "v = xkey u" using brute_map_SomeD by blast
  then have "u \<le> w" using x(1) assms(1) xkey_le by simp
  with u that show thesis by blast
qed

lemma brute_floor:
  assumes w: "w < 65536" and v: "le_value (brute_map ws) (xkey w) v"
  shows "v = (case brute_scan ws w of Some v \<Rightarrow> xkey v | None \<Rightarrow> 0)"
proof (cases "brute_scan ws w")
  case None
  then have "\<not> ws u" if "u \<le> w" for u using brute_scan_None that by blast
  then have "v = 0" using le_value_below [OF w v] by blast
  then show ?thesis using None by simp
next
  case (Some u)
  then have u: "u \<le> w" "ws u" "\<And>y. u < y \<Longrightarrow> y \<le> w \<Longrightarrow> \<not> ws y" using brute_scan_Some by blast+
  show ?thesis
  proof (cases "u = 0")
    case True
    have "v = 0"
    proof (rule ccontr)
      assume "v \<noteq> 0"
      then obtain y where y: "y \<le> w" "ws y" "v = xkey y" using le_value_below [OF w v] by blast
      then have "y = 0" using u(3) [of y] True by auto
      with y(3) \<open>v \<noteq> 0\<close> xkey_0 show False by simp
    qed
    then show ?thesis using Some True xkey_0 by simp
  next
    case False
    have f: "is_floor (brute_map ws) (xkey w) (xkey u) (xkey u)" unfolding is_floor_def
    proof (intro conjI ballI impI)
      show "xkey u \<le> xkey w" "brute_map ws (xkey u) = Some (xkey u)" using u w xkey_le [of u w] brute_map_E [of u ws] by simp_all
      fix y assume y: "y \<in> dom (brute_map ws)" "y \<le> xkey w"
      then obtain z where z: "z < 65536" "ws z" "y = xkey z" using brute_map_SomeD by blast
      then have "z \<le> w" using y(2) w xkey_le by simp
      then have "z \<le> u" using u(3) [of z] z(2) by (metis not_le)
      then show "y \<le> xkey u" using z u(1) w xkey_le [of z u] by simp
    qed
    have "xkey 0 < xkey u" using False u(1) w xkey_less [of 0 u] by simp
    then have "xkey u \<noteq> 0" using xkey_0 by auto
    then have "\<forall>x. \<not> is_floor (brute_map ws) (xkey w) x NULL" using is_floor_unique [OF f] by blast
    then show ?thesis using v floor_value_is_floor [OF f] Some by (simp add: le_value_def)
  qed
qed

context hashmap_le
begin

lemma brute_queries_ok: "rel n c (brute_map ws) \<Longrightarrow> for_each (brute_query hm ws) rs c = Some c"
proof (induction rs)
  case (Cons r rs)
  obtain v where v: "hm_find_le hm (xkey (low16 r)) c = Some v" "le_value (brute_map ws) (xkey (low16 r)) v"
    using find_le_ok [OF Cons.prems] by blast
  then have "brute_query hm ws r c = Some c"
    using brute_floor [OF low16_less v(2)] by (simp add: brute_query_def CHECK_def Let_def)
  with Cons show ?case by simp
qed simp

lemma brute_round_ok:
  assumes "rel (Suc n) c (brute_map ws)"
  shows "\<exists>c' ws'. brute_round hm d (c, ws) = Some (c', ws') \<and> rel n c' (brute_map ws')"
proof -
  obtain r rs where d: "d = (r, rs)" by force
  let ?w = "low16 r"
  note at = brute_map_E [OF low16_less, of ws r] and upd = brute_map_update [OF low16_less, of ws r]
  show ?thesis
  proof (cases "ws ?w")
    case True
    then obtain c' where c': "hm_remove hm (xkey ?w) c = Some (xkey ?w, c')" "rel n c' ((brute_map ws)(xkey ?w := None))"
      using remove_ok [OF assms, of "xkey ?w"] at by (auto simp: domIff)
    then have "rel n c' (brute_map (ws(?w := False)))" using upd [of False] by simp
    with brute_queries_ok [OF this] c'(1) True show ?thesis by (simp add: brute_round_def d Let_def)
  next
    case False
    then obtain c' where c': "INS hm (xkey ?w) (xkey ?w) c = Some c'" "rel n c' ((brute_map ws)(xkey ?w \<mapsto> xkey ?w))"
      using INS_last [OF assms, of "xkey ?w" "xkey ?w"] at by (auto simp: domIff)
    then have "rel n c' (brute_map (ws(?w := True)))" using upd [of True] by simp
    with brute_queries_ok [OF this] c'(1) False show ?thesis by (simp add: brute_round_def d Let_def)
  qed
qed

lemma test_le_brute_ok:
  assumes "length draws \<le> budget"
  shows "test_le_brute hm draws = Some clean"
  unfolding test_le_brute_def
proof (rule new_bind)
  fix s assume s: "rel budget s Map.empty"
  let ?I = "\<lambda>i (c, ws). rel (budget - i) c (brute_map ws)"
  have "\<exists>s'. for_each (brute_round hm) draws (s, \<lambda>w. False) = Some s' \<and> ?I (length draws) s'"
  proof (rule for_each_inv [where I = ?I])
    have "brute_map (\<lambda>w. False) = Map.empty" by (simp add: brute_map_def fun_eq_iff)
    then show "?I 0 (s, \<lambda>w. False)" using s by simp
    fix i and st :: "'a \<times> (nat \<Rightarrow> bool)"
    assume i: "i < length draws" and st: "?I i st"
    have "budget - i = Suc (budget - Suc i)" using i assms by simp
    then show "\<exists>s'. brute_round hm (draws ! i) st = Some s' \<and> ?I (Suc i) s'"
      using st brute_round_ok [of "budget - Suc i" "fst st" "snd st" "draws ! i"] by (cases st) auto
  qed
  then show "(for_each (brute_round hm) draws (s, \<lambda>w. False) \<bind> (\<lambda>(c, ws). hm_delete hm c)) = Some clean"
    using delete_ok by auto
qed

end

end
