(* ===== verification/Util_Words.thy ===== *)
theory Util_Words
  imports Util_Bits
begin

text \<open>
  The inline helpers of \<open>src/util.h\<close> on words and bitmaps: \<open>util_setbit\<close>,
  \<open>util_clrbit\<close>, \<open>util_isset\<close>, \<open>util_is_pow2\<close>, \<open>util_div_ceil\<close> and the alignment
  macros.  A bitmap is the list of its bytes and an access beyond it is \<open>None\<close>.
\<close>

subsection \<open>Bitmaps\<close>

definition util_setbit :: "u8 list \<Rightarrow> u32 \<Rightarrow> u8 list option" where
  "util_setbit b i = (let k = unat (i div 8) in
     if k < length b then Some (b[k := b ! k OR push_bit (unat (i mod 8)) 1]) else None)"

definition util_clrbit :: "u8 list \<Rightarrow> u32 \<Rightarrow> u8 list option" where
  "util_clrbit b i = (let k = unat (i div 8) in
     if k < length b then Some (b[k := b ! k AND NOT (push_bit (unat (i mod 8)) 1)]) else None)"

definition util_isset :: "u8 list \<Rightarrow> u32 \<Rightarrow> bool option" where
  "util_isset b i = (let k = unat (i div 8) in
     if k < length b then Some (b ! k AND push_bit (unat (i mod 8)) 1 \<noteq> 0) else None)"

lemma byte_bit: "j < 8 \<Longrightarrow> (x::u8) AND push_bit j 1 \<noteq> 0 \<longleftrightarrow> bit x j"
proof -
  assume j: "j < 8"
  have "bit (x AND push_bit j 1) i \<longleftrightarrow> i = j \<and> bit x j" for i
    using j by (auto simp: bit_simps)
  then show ?thesis by (metis bit_0_eq bit_eq_iff bot_apply bot_bool_def)
qed

lemma u32_div_mod_8:
  "unat ((i::u32) mod 8) < 8"
  "i = j \<longleftrightarrow> unat (i div 8) = unat (j div 8) \<and> unat (i mod 8) = unat (j mod 8)"
proof -
  show "unat (i mod 8) < 8" by (simp add: unat_mod_distrib)
  have "i = i div 8 * 8 + i mod 8" "j = j div 8 * 8 + j mod 8" by (simp_all only: div_mult_mod_eq)
  then show "i = j \<longleftrightarrow> unat (i div 8) = unat (j div 8) \<and> unat (i mod 8) = unat (j mod 8)"
    by (metis word_unat_eq_iff)
qed

lemma isset_bit: "unat (i div 8) < length b \<Longrightarrow> util_isset b i = Some (bit (b ! unat (i div 8)) (unat (i mod 8)))"
  using byte_bit [OF u32_div_mod_8(1)] by (simp add: util_isset_def)

text \<open>
  C35.  Bitmaps: for a bit inside the map \<open>util_setbit\<close> and \<open>util_clrbit\<close> succeed, and
  afterwards \<open>util_isset\<close> sees that bit set or clear and every other bit as it was.
\<close>

theorem util_bitmap_correct:
  assumes "util_isset b i \<noteq> None"
  shows "\<exists>b1 b2. util_setbit b i = Some b1 \<and> util_clrbit b i = Some b2 \<and>
    length b1 = length b \<and> length b2 = length b \<and>
    (\<forall>j x. util_isset b j = Some x \<longrightarrow>
       util_isset b1 j = Some (j = i \<or> x) \<and> util_isset b2 j = Some (j \<noteq> i \<and> x))"
proof -
  have i: "unat (i div 8) < length b" using assms by (auto simp: util_isset_def Let_def split: if_splits)
  let ?k = "unat (i div 8)" let ?m = "push_bit (unat (i mod 8)) 1"
  let ?s = "b[?k := b ! ?k OR ?m]" and ?c = "b[?k := b ! ?k AND NOT ?m]"
  have "util_isset ?s j = Some (j = i \<or> x) \<and> util_isset ?c j = Some (j \<noteq> i \<and> x)"
    if x: "util_isset b j = Some x" for j x
  proof -
    have j: "unat (j div 8) < length b" using x by (auto simp: util_isset_def Let_def split: if_splits)
    then have "x \<longleftrightarrow> bit (b ! unat (j div 8)) (unat (j mod 8))" using x isset_bit by simp
    then show ?thesis using i j isset_bit [of j ?s] isset_bit [of j ?c] u32_div_mod_8(1) [of j] u32_div_mod_8(2) [of i j]
      by (cases "unat (j div 8) = ?k") (auto simp: bit_simps)
  qed
  then show ?thesis using i by (simp add: util_setbit_def util_clrbit_def Let_def)
qed

theorem util_bitmap_correct_witness:
  "\<exists>b1. util_setbit [0, 4] 9 = Some b1 \<and> util_isset b1 9 = Some True \<and> util_isset b1 10 = Some True \<and> util_isset b1 8 = Some False"
proof -
  have s: "util_isset [0, 4] 9 = Some False" "util_isset [0, 4] 10 = Some True" "util_isset [0, 4] 8 = Some False"
    by (simp_all add: util_isset_def Let_def)
  from util_bitmap_correct [of "[0, 4]" 9] s obtain b1 where "util_setbit [0, 4] 9 = Some b1"
    "\<forall>j x. util_isset [0, 4] j = Some x \<longrightarrow> util_isset b1 j = Some (j = 9 \<or> x)" by auto
  then show ?thesis using s by (intro exI [of _ b1]) fastforce
qed

subsection \<open>Powers of two and alignment\<close>

definition util_is_pow2 :: "u64 \<Rightarrow> bool" where
  "util_is_pow2 v \<longleftrightarrow> v \<noteq> 0 \<and> \<not> (v AND (v - 1) \<noteq> 0)"

definition ALIGN_UP :: "u64 \<Rightarrow> u64 \<Rightarrow> u64" where
  "ALIGN_UP sz align = (sz + align - 1) AND NOT (align - 1)"

definition ALIGN_DOWN :: "u64 \<Rightarrow> u64 \<Rightarrow> u64" where
  "ALIGN_DOWN sz align = sz AND NOT (align - 1)"

text \<open>The sum is made in \<open>unsigned long\<close>; dividing by 0 is undefined.\<close>

definition util_div_ceil :: "u32 \<Rightarrow> u32 \<Rightarrow> u32 option" where
  "util_div_ceil a b = (if b = 0 then None else Some (ucast ((ucast a + ucast b - 1 :: u64) div ucast b)))"

lemma is_pow2_iff: "util_is_pow2 v \<longleftrightarrow> (\<exists>e<64. v = 2 ^ e)"
proof
  assume p: "util_is_pow2 v"
  then have v: "v \<noteq> 0" "v AND (v - 1) = 0" by (simp_all add: util_is_pow2_def)
  let ?e = "unat (util_mssb_index64 v)"
  have e: "?e < 64" "bit v ?e" "\<And>i. ?e < i \<Longrightarrow> \<not> bit v i" using mssb_spec [OF v(1)] by blast+
  show "\<exists>e<64. v = 2 ^ e"
  proof (rule ccontr)
    assume n: "\<not> (\<exists>e<64. v = 2 ^ e)"
    define w where "w = v AND NOT (2 ^ ?e)"
    have bw: "bit w i \<longleftrightarrow> bit v i \<and> i \<noteq> ?e" for i using bit_u64_high [of i v] e(1) unfolding w_def
      by (cases "i < 64") (auto simp: bit_simps not_less)
    have "w \<noteq> 0"
    proof
      assume "w = 0"
      then have "bit v i \<longleftrightarrow> i = ?e" for i using bw [of i] e(2) by auto
      then have "v = 2 ^ ?e" using e(1) by (auto simp: u64_eq_iff_bits bit_simps)
      then show False using n e(1) by blast
    qed
    have dv: "v = 2 ^ ?e + w"
    proof -
      have "2 ^ ?e AND w = 0" using bw by (auto simp: u64_eq_iff_bits bit_simps)
      then have "2 ^ ?e + w = 2 ^ ?e OR w" by (rule disjunctive_add_eq_or)
      also have "\<dots> = v" using bw e(1,2) by (auto simp: u64_eq_iff_bits bit_simps)
      finally show ?thesis by simp
    qed
    have small: "unat w < 2 ^ ?e"
    proof -
      have "take_bit ?e w = w" using bw e(3) by (auto simp: u64_eq_iff_bits bit_simps linorder_neq_iff)
      then have "unat w = take_bit ?e (unat w)" by (metis unsigned_take_bit_eq)
      then show ?thesis by (metis take_bit_nat_less_exp)
    qed
    have "unat (w - 1) < 2 ^ ?e" using small \<open>w \<noteq> 0\<close> by (metis less_imp_diff_less unat_1 unat_sub word_le_nat_alt unat_gt_0 Suc_leI One_nat_def)
    then have sm: "take_bit ?e (w - 1) = w - 1" by (metis take_bit_nat_eq_self unsigned_take_bit_eq word_unat_eq_iff)
    have "2 ^ ?e AND (w - 1) = 0"
    proof -
      have "\<not> bit (w - 1) ?e" by (metis sm bit_take_bit_iff less_irrefl)
      then show ?thesis by (auto simp: u64_eq_iff_bits bit_simps)
    qed
    then have "2 ^ ?e + (w - 1) = 2 ^ ?e OR (w - 1)" by (rule disjunctive_add_eq_or)
    moreover have "v - 1 = 2 ^ ?e + (w - 1)" using dv by simp
    ultimately have "bit (v - 1) ?e" using e(1) by (simp add: bit_simps)
    then have "bit (v AND (v - 1)) ?e" using e(2) by (simp add: bit_simps)
    then show False using v(2) by simp
  qed
next
  assume "\<exists>e<64. v = 2 ^ e"
  then obtain e where e: "e < 64" "v = 2 ^ e" by blast
  have "2 ^ e AND (2 ^ e - 1 :: u64) = 0" by (auto simp: u64_eq_iff_bits bit_simps simp flip: mask_eq_exp_minus_1)
  moreover have "(2 ^ e :: u64) \<noteq> 0" using e(1) by (auto simp: u64_eq_iff_bits bit_simps)
  ultimately show "util_is_pow2 v" using e(2) by (simp add: util_is_pow2_def)
qed

lemma unat_2_power: "e < 64 \<Longrightarrow> unat (2 ^ e :: u64) = 2 ^ e"
proof -
  assume "e < 64"
  then have "(2::nat) ^ e < 2 ^ 64" by (rule power_strict_increasing) simp
  then have "unat (of_nat (2 ^ e) :: u64) = 2 ^ e" by (simp add: unat_of_nat del: of_nat_power)
  then show ?thesis by simp
qed

lemma align_down_div: "e < 64 \<Longrightarrow> unat (ALIGN_DOWN s (2 ^ e)) = unat s div 2 ^ e * 2 ^ e"
proof -
  have "s = (s AND NOT (mask e)) + take_bit e s"
  proof -
    have "(s AND NOT (mask e)) AND take_bit e s = 0" by (auto simp: u64_eq_iff_bits bit_simps)
    then have "(s AND NOT (mask e)) + take_bit e s = (s AND NOT (mask e)) OR take_bit e s" by (rule disjunctive_add_eq_or)
    also have "\<dots> = s"
    proof -
      have "bit (s AND NOT (mask e) OR take_bit e s) n \<longleftrightarrow> bit s n" for n
        using bit_u64_high [of n s] by (cases "n < 64") (auto simp: bit_simps not_less)
      then show ?thesis by (simp add: bit_eq_iff)
    qed
    finally show ?thesis by simp
  qed
  then have "s AND NOT (mask e) = s - take_bit e s" by (simp add: eq_diff_eq)
  moreover have t: "unat (take_bit e s) = unat s mod 2 ^ e" by (simp add: unsigned_take_bit_eq flip: take_bit_eq_mod)
  moreover have "take_bit e s \<le> s" by (simp add: word_le_nat_alt t)
  ultimately have "unat (s AND NOT (mask e)) = unat s - unat s mod 2 ^ e" by (simp add: unat_sub)
  then show ?thesis by (simp add: ALIGN_DOWN_def mask_eq_exp_minus_1 minus_mod_eq_div_mult)
qed

lemma div_ceil_correct:
  assumes "b \<noteq> 0"
  shows "\<exists>r. util_div_ceil a b = Some r \<and> unat r = (unat a + unat b - 1) div unat b"
proof -
  have b: "0 < unat b" using assms by (simp add: unat_gt_0)
  have l: "unat a < 2 ^ 32" "unat b < 2 ^ 32" using unsigned_less [of a] unsigned_less [of b] by simp_all
  let ?n = "unat a + unat b - 1"
  have n: "?n < 2 ^ 64" using l by simp
  have "(ucast a + ucast b - 1 :: u64) = of_nat ?n" using b by (simp add: of_nat_diff)
  moreover have u: "unat (ucast b :: u64) = unat b" using l by (simp add: unsigned_ucast_eq take_bit_nat_eq_self)
  ultimately have "unat ((ucast a + ucast b - 1 :: u64) div ucast b) = ?n div unat b"
    using n by (simp add: unat_div unat_of_nat)
  moreover have "?n div unat b < 2 ^ 32"
  proof -
    have "?n div unat b \<le> unat a"
    proof (cases "unat a = 0")
      case True
      then show ?thesis using b by simp
    next
      case False
      then have "?n < Suc (unat a) * unat b" using b by (cases "unat a"; cases "unat b") auto
      then have "?n div unat b < Suc (unat a)" by (rule less_mult_imp_div_less)
      then show ?thesis by simp
    qed
    then show ?thesis using l by linarith
  qed
  ultimately show ?thesis using assms by (simp add: util_div_ceil_def unsigned_ucast_eq take_bit_nat_eq_self)
qed

text \<open>
  C36.  Alignment: for an alignment that \<open>util_is_pow2\<close> accepts, \<open>ALIGN_DOWN\<close> yields the
  greatest multiple not above the size; \<open>ALIGN_UP\<close> the least multiple not below it, provided the
  sum does not wrap around.
\<close>

theorem align_correct:
  assumes "util_is_pow2 align"
  shows "unat (ALIGN_DOWN sz align) = unat sz div unat align * unat align
    \<and> (unat sz + unat align \<le> 2 ^ 64 \<longrightarrow>
        unat (ALIGN_UP sz align) = (unat sz + unat align - 1) div unat align * unat align)"
proof -
  obtain e where e: "e < 64" "align = 2 ^ e" using assms is_pow2_iff by blast
  have ua: "unat align = 2 ^ e" using e(2) unat_2_power [OF e(1)] by simp
  have "unat (sz + align - 1) = unat sz + unat align - 1" if "unat sz + unat align \<le> 2 ^ 64"
  proof -
    have "0 < unat align" using ua by simp
    then have "unat sz + unat align - 1 < 2 ^ 64" using that by linarith
    then have "unat (of_nat (unat sz + unat align - 1) :: u64) = unat sz + unat align - 1"
      unfolding unat_of_nat by simp
    moreover have "(of_nat (unat sz + unat align - 1) :: u64) = sz + align - 1"
      using \<open>0 < unat align\<close> by (simp add: of_nat_diff)
    ultimately show ?thesis by simp
  qed
  then show ?thesis using align_down_div [OF e(1)] e(2) ua by (auto simp: ALIGN_UP_def ALIGN_DOWN_def)
qed

theorem align_correct_witness:
  "unat (ALIGN_DOWN 4097 4096) = 4096 \<and> unat (ALIGN_UP 4097 4096) = 8192"
proof -
  have "util_is_pow2 4096" by (simp add: util_is_pow2_def)
  from align_correct [OF this, of 4097] show ?thesis by simp
qed

end
