(* ===== verification/Thread_Tests.thy ===== *)
theory Thread_Tests
  imports Corr_Tests Util_Words
begin

text \<open>
  The thread tests of \<open>src/th.c\<close>.  A thread function is a loop that runs until the flag
  \<open>done\<close> is set; it is modelled by the sequence of calls it makes in a given number of rounds, each
  with its \<open>CHECK\<close>, and a run of several threads by an interleaving of their sequences.  Calls
  are the unit of interleaving.  A failed \<open>CHECK\<close> sets the flag \<open>bad\<close> and the run goes on.

  The keys that the threads draw at random are arguments.  The lemmas, proved inside the locales of
  the interface, say that no check fails in any interleaving of readers of preloaded keys and of
  writers whose keys are neither preloaded nor shared, and that no check of the predecessor queries
  fails.
\<close>

subsection \<open>Calls of a thread and interleavings\<close>

datatype action = GetIs u64 ptr | Put u64 ptr | RemIs u64 ptr | Le u64 "ptr option"

fun do_action :: "('s, 'h) hm \<Rightarrow> action \<Rightarrow> 's \<times> bool \<Rightarrow> ('s \<times> bool) option" where
  "do_action hm (GetIs k v) (c, bad) = do { x \<leftarrow> hm_get hm k c; Some (c, bad \<or> x \<noteq> v) }"
| "do_action hm (Put k v) (c, bad) = do { (r, c) \<leftarrow> hm_insert hm k v c; Some (c, bad) }"
| "do_action hm (RemIs k v) (c, bad) = do { (x, c) \<leftarrow> hm_remove hm k c; Some (c, bad \<or> x \<noteq> v) }"
| "do_action hm (Le k chk) (c, bad) = do {
     x \<leftarrow> hm_find_le hm k c;
     Some (c, bad \<or> (case chk of None \<Rightarrow> False | Some v \<Rightarrow> x \<noteq> v))
   }"

inductive interleaving :: "'a list list \<Rightarrow> 'a list \<Rightarrow> bool" where
  stopped: "(\<forall>p\<in>set ps. p = []) \<Longrightarrow> interleaving ps []"
| step: "i < length ps \<Longrightarrow> ps ! i = a # p \<Longrightarrow> interleaving (ps[i := p]) zs \<Longrightarrow> interleaving ps (a # zs)"

subsection \<open>The thread functions\<close>

definition K :: u64 where
  "K = 0xdeadbeefcafebabe"

definition thread_read1 :: "nat \<Rightarrow> action list" where
  "thread_read1 n = replicate n (GetIs K K)"

definition thread_read1p :: "ptr list \<Rightarrow> nat \<Rightarrow> action list" where
  "thread_read1p the1000p n = (let k = the1000p ! 0 in replicate n (GetIs k k))"

text \<open>The index into the thousand keys is advanced before its use.\<close>

definition next1000 :: "nat \<Rightarrow> nat" where
  "next1000 i = (if Suc i = 1000 then 0 else Suc i)"

fun thread_read1000 :: "u64 list \<Rightarrow> nat \<Rightarrow> nat \<Rightarrow> action list" where
  "thread_read1000 the1000 i 0 = []"
| "thread_read1000 the1000 i (Suc n) =
     (let i = next1000 i; v = the1000 ! i in GetIs v v # thread_read1000 the1000 i n)"

fun thread_write1000 :: "u64 list \<Rightarrow> nat \<Rightarrow> nat \<Rightarrow> action list" where
  "thread_write1000 w1000 i 0 = []"
| "thread_write1000 w1000 i (Suc n) =
     (let i = next1000 i; v = w1000 ! i in Put v v # RemIs v v # thread_write1000 w1000 i n)"

fun thread_read_write_remove :: "u64 list \<Rightarrow> action list" where
  "thread_read_write_remove [] = []"
| "thread_read_write_remove (v # vs) = Put v v # GetIs v v # RemIs v v # thread_read_write_remove vs"

subsection \<open>Reversing the bits of a word\<close>

function revbits_loop :: "u64 \<Rightarrow> u64 \<Rightarrow> u64 \<Rightarrow> u64 \<Rightarrow> u64" where
  "revbits_loop x y a b = (if b = 0 then y
     else revbits_loop x (if x AND a \<noteq> 0 then y OR b else y) (push_bit 1 a) (drop_bit 1 b))"
  by pat_completeness auto
termination
proof (relation "measure (\<lambda>(x, y, a, b). unat b)")
  fix b :: u64 assume "b \<noteq> 0"
  then have "0 < unat b" by (simp add: unat_gt_0)
  then show "((x, if x AND a \<noteq> 0 then y OR b else y, push_bit 1 a, drop_bit 1 b), x, y, a, b) \<in> measure (\<lambda>(x, y, a, b). unat b)"
    for x y a by (simp add: drop_bit_eq_div unat_div)
qed simp

declare revbits_loop.simps [simp del]

definition revbits :: "u64 \<Rightarrow> u64" where
  "revbits x = revbits_loop x 0 1 0x8000000000000000"

lemma and_power: "k < 64 \<Longrightarrow> (x::u64) AND 2 ^ k \<noteq> 0 \<longleftrightarrow> bit x k"
proof -
  assume k: "k < 64"
  have "bit (x AND 2 ^ k) i \<longleftrightarrow> i = k \<and> bit x k" for i using k by (auto simp: bit_simps)
  then show ?thesis by (metis bit_0_eq bit_eq_iff bot_apply bot_bool_def)
qed

lemma revbits_loop_bits:
  assumes "k < 64" "i < 64" 
  shows "bit (revbits_loop x y (2 ^ k) (2 ^ (63 - k))) i \<longleftrightarrow> bit y i \<or> i \<le> 63 - k \<and> bit x (63 - i)"
  using assms
proof (induction "63 - k" arbitrary: k y)
  case 0
  then have k: "k = 63" by simp
  have one: "drop_bit 1 (1::u64) = 0" by (simp add: drop_bit_eq_div)
  show ?case using and_power [of k x] 0 unfolding k
    by (subst revbits_loop.simps, subst revbits_loop.simps) (auto simp: one bit_simps)
next
  case (Suc m)
  have b: "(2 ^ (63 - k) :: u64) \<noteq> 0" using unat_2_power [of "63 - k"] by (auto simp del: unat_eq_0)
  have n: "drop_bit 1 (2 ^ (63 - k)) = (2 ^ (63 - Suc k) :: u64)"
    using Suc.hyps(2) Suc.prems(1) by (auto simp: u64_eq_iff_bits bit_simps)
  have a: "push_bit 1 (2 ^ k) = (2 ^ Suc k :: u64)" by (simp add: push_bit_eq_mult)
  let ?y = "if x AND 2 ^ k \<noteq> 0 then y OR 2 ^ (63 - k) else y"
  have "Suc k < 64" "m = 63 - Suc k" using Suc.hyps(2) by linarith+
  then have "bit (revbits_loop x ?y (2 ^ Suc k) (2 ^ (63 - Suc k))) i \<longleftrightarrow> bit ?y i \<or> i \<le> 63 - Suc k \<and> bit x (63 - i)"
    using Suc.hyps(1) Suc.prems(2) by blast
  moreover have "bit ?y i \<longleftrightarrow> bit y i \<or> i = 63 - k \<and> bit x k"
    using and_power [OF Suc.prems(1), of x] Suc.prems by (auto simp: bit_simps)
  moreover have "i \<le> 63 - k \<longleftrightarrow> i = 63 - k \<or> i \<le> 63 - Suc k" using Suc.hyps(2) by linarith
  moreover have "63 - (63 - k) = k" using Suc.prems(1) by simp
  moreover have "revbits_loop x y (2 ^ k) (2 ^ (63 - k)) = revbits_loop x ?y (2 ^ Suc k) (2 ^ (63 - Suc k))"
    using b unfolding n a by (subst revbits_loop.simps) (simp only: n a if_False)
  ultimately show ?case by metis
qed

lemma revbits_correct:
  "(i < 64 \<longrightarrow> (bit (revbits x) i \<longleftrightarrow> bit x (63 - i))) \<and> revbits (revbits x) = x"
proof -
  have r: "bit (revbits z) j \<longleftrightarrow> bit z (63 - j)" if "j < 64" for z j
    using revbits_loop_bits [of 0 j z 0] that by (simp add: revbits_def)
  have "bit (revbits (revbits x)) n \<longleftrightarrow> bit x n" for n
  proof (cases "n < 64")
    case True
    then show ?thesis using r [of n "revbits x"] r [of "63 - n" x] by simp
  next
    case False
    then show ?thesis using bit_u64_high [of n] by auto
  qed
  then have "revbits (revbits x) = x" by (simp add: bit_eq_iff)
  then show ?thesis using r by blast
qed

lemma revbits_zero: "revbits 0 = 0"
  using revbits_correct [of _ 0] by (auto simp: u64_eq_iff_bits not_less dest: bit_u64_high [OF leI])

subsection \<open>Predecessor threads\<close>

fun thread_le1 :: "u64 \<Rightarrow> nat \<Rightarrow> action list" where
  "thread_le1 count 0 = []"
| "thread_le1 count (Suc n) =
     (let y = revbits count
      in (if y < K then Le y (Some NULL) else Le y (Some K)) # thread_le1 (count + 1) n)"

fun thread_le1000 :: "u64 \<Rightarrow> nat \<Rightarrow> action list" where
  "thread_le1000 count 0 = []"
| "thread_le1000 count (Suc n) = Le (revbits count) None # thread_le1000 (count + 1) n"

subsection \<open>A run\<close>

text \<open>The keys that \<open>run_test\<close> preloads, in order; a negative \<open>rpreload\<close> asks for pointers.\<close>

definition preload_keys :: "int \<Rightarrow> int \<Rightarrow> u64 list \<Rightarrow> ptr list \<Rightarrow> u64 list" where
  "preload_keys spreload rpreload the1000 the1000p =
     (if 1 \<le> spreload then [K] else []) @ (if 2 \<le> spreload then [1] else []) @
     (if rpreload < 0 then map (\<lambda>i. the1000p ! nat i) [spreload..- rpreload - 1]
      else map (\<lambda>i. the1000 ! nat i) [spreload..rpreload - 1])"

definition th_run_test ::
  "('s, 'h) hm \<Rightarrow> int \<Rightarrow> int \<Rightarrow> u64 list \<Rightarrow> ptr list \<Rightarrow> action list \<Rightarrow> ('h \<times> bool) option" where
  "th_run_test hm spreload rpreload the1000 the1000p schedule = do {
     c \<leftarrow> hm_new hm;
     c \<leftarrow> for_each (\<lambda>k. INS hm k k) (preload_keys spreload rpreload the1000 the1000p) c;
     (c, bad) \<leftarrow> for_each (do_action hm) schedule (c, False);
     h \<leftarrow> hm_delete hm c;
     Some (h, bad)
   }"

text \<open>Which structures \<open>test\<close> runs, and when it passes one over.\<close>

definition th_selected :: "int \<Rightarrow> int list" where
  "th_selected only_hm =
     (let hmin = (if only_hm < 0 then 0 else only_hm);
          hmax = (if 0 \<le> only_hm \<and> only_hm < 4 then only_hm else 4 - 1)
      in [hmin..hmax])"

definition th_skips :: "int \<Rightarrow> bool \<Rightarrow> int \<Rightarrow> bool" where
  "th_skips imm wthread req \<longleftrightarrow>
     wthread \<and> imm AND 1 \<noteq> 0 \<or> imm AND req \<noteq> 0"

text \<open>The number of threads, of readers and of writers from the number of processors.\<close>

definition th_counts :: "u64 \<Rightarrow> u64 \<times> u64 \<times> u64" where
  "th_counts nproc =
     (let nthreads = (if nproc = 0 then 8 else nproc);
          nwthreads = nthreads div 2;
          nwthreads = (if nwthreads = 0 then 1 else nwthreads);
          nrthreads = nthreads - nwthreads;
          nrthreads = (if nrthreads = 0 then 1 else nrthreads)
      in (nthreads, nrthreads, nwthreads))"

lemma th_selected_in_table: "i \<in> set (th_selected only_hm) \<Longrightarrow> 0 \<le> i \<and> i < 4"
  by (auto simp: th_selected_def Let_def split: if_splits)

lemma half_bounds: "(n::u64) \<noteq> 0 \<Longrightarrow> n div 2 \<le> n" "(n::u64) \<noteq> 0 \<Longrightarrow> 1 \<le> n"
proof -
  assume n: "n \<noteq> 0"
  have "unat (n div 2) \<le> unat n" by (simp add: unat_div)
  then show "n div 2 \<le> n" by (simp only: word_le_nat_alt)
  show "1 \<le> n" using n by (simp only: word_le_nat_alt unat_1) (metis Suc_leI One_nat_def unat_gt_0)
qed

lemma th_counts_fit:
  assumes "th_counts nproc = (nthreads, nrthreads, nwthreads)"
  shows "0 < nrthreads" "nrthreads \<le> nthreads" "0 < nwthreads" "nwthreads \<le> nthreads"
proof -
  have eq: "nthreads = (if nproc = 0 then 8 else nproc)" "nwthreads = (if nthreads div 2 = 0 then 1 else nthreads div 2)"
    "nrthreads = (if nthreads - nwthreads = 0 then 1 else nthreads - nwthreads)"
    using assms unfolding th_counts_def Let_def prod.inject by safe
  have n: "nthreads \<noteq> 0" unfolding eq(1) by simp
  note h = half_bounds [OF n]
  show w: "0 < nwthreads" "nwthreads \<le> nthreads" using eq(2) h by (auto simp: word_gt_0 split: if_splits)
  show "0 < nrthreads" using eq(3) by (auto simp: word_gt_0 split: if_splits)
  have "nthreads - nwthreads \<le> nthreads" using w(2) by (simp add: word_le_nat_alt unat_sub)
  then show "nrthreads \<le> nthreads" using eq(3) h(2) by (auto split: if_splits)
qed

lemma preload_all:
  assumes "length the1000 = 1000"
  shows "preload_keys 0 1000 the1000 the1000p = the1000"
proof (rule nth_equalityI)
  show "length (preload_keys 0 1000 the1000 the1000p) = length the1000" using assms by (simp add: preload_keys_def)
  fix i assume "i < length (preload_keys 0 1000 the1000 the1000p)"
  then have "i < 1000" by (simp add: preload_keys_def)
  then show "preload_keys 0 1000 the1000 the1000p ! i = the1000 ! i" by (simp add: preload_keys_def)
qed

subsection \<open>Readers and writers\<close>

fun cost :: "action \<Rightarrow> nat" where
  "cost (Put k v) = 1"
| "cost (RemIs k v) = 1"
| "cost (GetIs k v) = 0"
| "cost (Le k chk) = 0"

text \<open>
  A sequence of calls that passes its checks whatever the other threads do, as long as only this
  thread changes the keys \<open>own\<close> and nobody the keys \<open>shared\<close>.
\<close>

fun thread_ok :: "u64 set \<Rightarrow> u64 set \<Rightarrow> (u64 \<rightharpoonup> ptr) \<Rightarrow> action list \<Rightarrow> bool" where
  "thread_ok own shared m [] = True"
| "thread_ok own shared m (GetIs k v # p) \<longleftrightarrow> k \<in> own \<union> shared \<and> val_of (m k) = v \<and> thread_ok own shared m p"
| "thread_ok own shared m (Put k v # p) \<longleftrightarrow> k \<in> own \<and> m k = None \<and> thread_ok own shared (m(k \<mapsto> v)) p"
| "thread_ok own shared m (RemIs k v # p) \<longleftrightarrow> k \<in> own \<and> m k = Some v \<and> thread_ok own shared (m(k := None)) p"
| "thread_ok own shared m (Le k chk # p) \<longleftrightarrow> False"

lemma thread_ok_cong:
  "thread_ok own shared m p \<Longrightarrow> (\<And>k. k \<in> own \<union> shared \<Longrightarrow> m' k = m k) \<Longrightarrow> thread_ok own shared m' p"
proof (induction own shared m p arbitrary: m' rule: thread_ok.induct)
  case (2 own shared m k v p)
  then show ?case by auto
next
  case (3 own shared m k v p)
  have "thread_ok own shared (m'(k \<mapsto> v)) p" 
  proof (rule 3(1))
    show "thread_ok own shared (m(k \<mapsto> v)) p" using 3(2) by simp
    show "(m'(k \<mapsto> v)) x = (m(k \<mapsto> v)) x" if "x \<in> own \<union> shared" for x using 3(3) [OF that] by simp
  qed
  moreover have "m' k = m k" "k \<in> own" "m k = None" using 3(2,3) by simp_all
  ultimately show ?case by (simp only: thread_ok.simps)
next
  case (4 own shared m k v p)
  have "thread_ok own shared (m'(k := None)) p" 
  proof (rule 4(1))
    show "thread_ok own shared (m(k := None)) p" using 4(2) by simp
    show "(m'(k := None)) x = (m(k := None)) x" if "x \<in> own \<union> shared" for x using 4(3) [OF that] by simp
  qed
  moreover have "m' k = m k" "k \<in> own" "m k = Some v" using 4(2,3) by simp_all
  ultimately show ?case by (simp only: thread_ok.simps)
qed auto

context hashmap
begin

lemma do_action_ok:
  assumes "rel n s m" "thread_ok own shared m (a # p)" "cost a \<le> n"
  shows "\<exists>s' m'. do_action hm a (s, bad) = Some (s', bad) \<and> rel (n - cost a) s' m' \<and> thread_ok own shared m' p
    \<and> (\<forall>k. k \<notin> own \<longrightarrow> m' k = m k)"
proof (cases a)
  case (GetIs k v)
  then have "hm_get hm k s = Some v" using get_ok [OF assms(1), of k] assms(2) by simp
  with GetIs assms show ?thesis by (intro exI [of _ s] exI [of _ m]) simp
next
  case (Put k v)
  then obtain n' where n: "n = Suc n'" using assms(3) by (cases n) auto
  obtain s' where "hm_insert hm k v s = Some (0, s')" "rel n' s' (m(k \<mapsto> v))"
    using insert_ok [of n' s m k v] assms(1,2) n Put by (auto simp: domIff)
  with Put assms(2) n show ?thesis by (intro exI [of _ s'] exI [of _ "m(k \<mapsto> v)"]) auto
next
  case (RemIs k v)
  then obtain n' where n: "n = Suc n'" using assms(3) by (cases n) auto
  obtain s' where "hm_remove hm k s = Some (v, s')" "rel n' s' (m(k := None))"
    using remove_ok [of n' s m k] assms(1,2) n RemIs by (auto simp: domIff)
  with RemIs assms(2) n show ?thesis by (intro exI [of _ s'] exI [of _ "m(k := None)"]) auto
qed (use assms(2) in simp)

lemma interleaving_ok:
  "interleaving ps zs \<Longrightarrow> rel n s m \<Longrightarrow> (\<And>i. i < length ps \<Longrightarrow> thread_ok (own i) shared m (ps ! i)) \<Longrightarrow>
   (\<And>i j. i < length ps \<Longrightarrow> j < length ps \<Longrightarrow> i \<noteq> j \<Longrightarrow> own i \<inter> own j = {}) \<Longrightarrow>
   (\<And>i. i < length ps \<Longrightarrow> own i \<inter> shared = {}) \<Longrightarrow> sum_list (map cost zs) \<le> n \<Longrightarrow>
   \<exists>n' s' m'. for_each (do_action hm) zs (s, bad) = Some (s', bad) \<and> rel n' s' m'"
proof (induction arbitrary: n s m rule: interleaving.induct)
  case (stopped ps)
  then show ?case by (intro exI [of _ n] exI [of _ s] exI [of _ m]) simp
next
  case (step i ps a p zs)
  have ok: "thread_ok (own i) shared m (a # p)" using step.prems(2) [OF step.hyps(1)] step.hyps(2) by simp
  obtain s' m' where a: "do_action hm a (s, bad) = Some (s', bad)" "rel (n - cost a) s' m'" "thread_ok (own i) shared m' p"
    and frame: "\<And>k. k \<notin> own i \<Longrightarrow> m' k = m k"
    using do_action_ok [OF step.prems(1) ok] step.prems(5) by force
  have "thread_ok (own j) shared m' (ps[i := p] ! j)" if j: "j < length (ps[i := p])" for j
  proof (cases "j = i")
    case False
    have "thread_ok (own j) shared m' (ps ! j)"
    proof (rule thread_ok_cong)
      show "thread_ok (own j) shared m (ps ! j)" using step.prems(2) j by simp
      show "m' k = m k" if "k \<in> own j \<union> shared" for k
        using that frame [of k] step.prems(3) [of i j] step.prems(4) [of i] step.hyps(1) j False by auto
    qed
    then show ?thesis using False by simp
  qed (use a(3) step.hyps(1) in simp)
  then have "\<exists>n' s2 m'. for_each (do_action hm) zs (s', bad) = Some (s2, bad) \<and> rel n' s2 m'"
    by (rule step.IH [OF a(2)]) (use step.prems(3,4,5) in simp_all)
  then obtain n2 s2 m2 where "for_each (do_action hm) zs (s', bad) = Some (s2, bad)" "rel n2 s2 m2" by blast
  then show ?case using a(1) by (intro exI [of _ n2] exI [of _ s2] exI [of _ m2]) simp
qed

end

text \<open>The functions that \<open>main\<close> starts threads with, and the number of rounds of each.\<close>

datatype thread = Read1 nat | Read1p nat | Read1000 nat | Write1000 "u64 list" nat | ReadWriteRemove "u64 list"

fun thread_body :: "u64 list \<Rightarrow> ptr list \<Rightarrow> thread \<Rightarrow> action list" where
  "thread_body the1000 the1000p (Read1 n) = thread_read1 n"
| "thread_body the1000 the1000p (Read1p n) = thread_read1p the1000p n"
| "thread_body the1000 the1000p (Read1000 n) = thread_read1000 the1000 0 n"
| "thread_body the1000 the1000p (Write1000 w1000 n) = thread_write1000 w1000 0 n"
| "thread_body the1000 the1000p (ReadWriteRemove vs) = thread_read_write_remove vs"

fun owns :: "thread \<Rightarrow> u64 set" where
  "owns (Write1000 w1000 n) = set w1000"
| "owns (ReadWriteRemove vs) = set vs"
| "owns t = {}"

text \<open>A thread fits a run when what it reads is preloaded, and what it writes is not.\<close>

fun fits :: "u64 list \<Rightarrow> ptr list \<Rightarrow> u64 set \<Rightarrow> thread \<Rightarrow> bool" where
  "fits the1000 the1000p loaded (Read1 n) \<longleftrightarrow> K \<in> loaded"
| "fits the1000 the1000p loaded (Read1p n) \<longleftrightarrow> the1000p ! 0 \<in> loaded"
| "fits the1000 the1000p loaded (Read1000 n) \<longleftrightarrow> length the1000 = 1000 \<and> set the1000 \<subseteq> loaded"
| "fits the1000 the1000p loaded (Write1000 w1000 n) \<longleftrightarrow> length w1000 = 1000 \<and> set w1000 \<inter> loaded = {}"
| "fits the1000 the1000p loaded (ReadWriteRemove vs) \<longleftrightarrow> set vs \<inter> loaded = {}"

definition disjoint_writers :: "thread list \<Rightarrow> bool" where
  "disjoint_writers ths \<longleftrightarrow> (\<forall>i<length ths. \<forall>j<length ths. i \<noteq> j \<longrightarrow> owns (ths ! i) \<inter> owns (ths ! j) = {})"

definition key_map :: "u64 list \<Rightarrow> u64 \<rightharpoonup> ptr" where
  "key_map ks k = (if k \<in> set ks then Some k else None)"

lemma next1000_less: "next1000 i < 1000 \<longleftrightarrow> i < 1000"
  by (auto simp: next1000_def)

lemma thread_ok_replicate: "k \<in> shared \<Longrightarrow> m k = Some k \<Longrightarrow> thread_ok own shared m (replicate n (GetIs k k))"
  by (induction n) auto

lemma thread_ok_read1000:
  assumes "length the1000 = 1000" "set the1000 \<subseteq> shared" "\<And>k. k \<in> shared \<Longrightarrow> m k = Some k"
  shows "i < 1000 \<Longrightarrow> thread_ok own shared m (thread_read1000 the1000 i n)"
proof (induction n arbitrary: i)
  case (Suc n)
  have i: "next1000 i < 1000" using Suc.prems by (simp add: next1000_less)
  then have "the1000 ! next1000 i \<in> shared" using assms(1,2) nth_mem by fastforce
  then show ?case using Suc.IH [OF i] assms(3) by (simp add: Let_def)
qed simp

lemma thread_ok_write1000:
  assumes "length w1000 = 1000" "set w1000 \<subseteq> own" "\<And>k. k \<in> own \<Longrightarrow> m k = None"
  shows "i < 1000 \<Longrightarrow> thread_ok own shared m (thread_write1000 w1000 i n)"
proof (induction n arbitrary: i)
  case (Suc n)
  have i: "next1000 i < 1000" using Suc.prems by (simp add: next1000_less)
  then have v: "w1000 ! next1000 i \<in> own" using assms(1,2) nth_mem by fastforce
  have "m(w1000 ! next1000 i := None) = m" using assms(3) [OF v] by auto
  then show ?case using Suc.IH [OF i] v assms(3) by (simp add: Let_def)
qed simp

lemma thread_ok_read_write_remove:
  assumes "\<And>k. k \<in> own \<Longrightarrow> m k = None"
  shows "set vs \<subseteq> own \<Longrightarrow> thread_ok own shared m (thread_read_write_remove vs)"
proof (induction vs)
  case (Cons v vs)
  then have "v \<in> own" by simp
  moreover have "m(v := None) = m" using assms [OF \<open>v \<in> own\<close>] by auto
  ultimately show ?case using Cons assms by simp
qed simp

lemma thread_body_ok:
  assumes "fits the1000 the1000p (set ks) t"
  shows "thread_ok (owns t) (set ks) (key_map ks) (thread_body the1000 the1000p t)" "owns t \<inter> set ks = {}"
proof -
  show d: "owns t \<inter> set ks = {}" using assms by (cases t) auto
  have m: "\<And>k. k \<in> set ks \<Longrightarrow> key_map ks k = Some k" "\<And>k. k \<in> owns t \<Longrightarrow> key_map ks k = None"
    using d by (auto simp: key_map_def)
  show "thread_ok (owns t) (set ks) (key_map ks) (thread_body the1000 the1000p t)"
    using assms m thread_ok_replicate [of _ "set ks" "key_map ks"] thread_ok_read1000 [of the1000 "set ks" "key_map ks" 0]
      thread_ok_write1000 [of _ "owns t" "key_map ks" 0] thread_ok_read_write_remove [of "owns t" "key_map ks"]
    by (cases t) (simp_all add: thread_read1_def thread_read1p_def Let_def)
qed

context hashmap
begin

lemma preload_ok:
  assumes "rel n s Map.empty" "distinct ks" "length ks \<le> n"
  shows "\<exists>s'. for_each (\<lambda>k. INS hm k k) ks s = Some s' \<and> rel (n - length ks) s' (key_map ks)"
proof -
  have "key_map ks = map_on ks (\<lambda>k. k)" by (simp add: map_on_def key_map_def fun_eq_iff)
  then show ?thesis using fill_ok [OF assms, of "\<lambda>k. k"] by simp
qed

lemma th_run_ok:
  assumes ks: "preload_keys spreload rpreload the1000 the1000p = ks" and "distinct ks"
    and "\<forall>t\<in>set ths. fits the1000 the1000p (set ks) t" "disjoint_writers ths"
    and "interleaving (map (thread_body the1000 the1000p) ths) schedule"
    and "length ks + sum_list (map cost schedule) \<le> budget"
  shows "th_run_test hm spreload rpreload the1000 the1000p schedule = Some (clean, False)"
proof -
  obtain s where s: "hm_new hm = Some s" "rel budget s Map.empty" using new_ok by blast
  obtain s1 where s1: "for_each (\<lambda>k. INS hm k k) ks s = Some s1" "rel (budget - length ks) s1 (key_map ks)"
    using preload_ok [OF s(2) assms(2)] assms(6) by auto
  have "\<exists>n' s' m'. for_each (do_action hm) schedule (s1, False) = Some (s', False) \<and> rel n' s' m'"
  proof (rule interleaving_ok [OF assms(5) s1(2), of "\<lambda>i. owns (ths ! i)" "set ks"])
    show "thread_ok (owns (ths ! i)) (set ks) (key_map ks) (map (thread_body the1000 the1000p) ths ! i)"
      if "i < length (map (thread_body the1000 the1000p) ths)" for i
      using thread_body_ok(1) [of the1000 the1000p ks "ths ! i"] assms(3) that by simp
    show "owns (ths ! i) \<inter> set ks = {}" if "i < length (map (thread_body the1000 the1000p) ths)" for i
      using thread_body_ok(2) [of the1000 the1000p ks "ths ! i"] assms(3) that by simp
  qed (use assms(4,6) in \<open>auto simp: disjoint_writers_def\<close>)
  then show ?thesis using s(1) s1(1) delete_ok by (auto simp: th_run_test_def ks)
qed

end

subsection \<open>Predecessor queries\<close>

fun query_ok :: "(u64 \<rightharpoonup> ptr) \<Rightarrow> action \<Rightarrow> bool" where
  "query_ok m (Le k chk) \<longleftrightarrow> (\<forall>v x. chk = Some v \<and> le_value m k x \<longrightarrow> x = v)"
| "query_ok m a \<longleftrightarrow> False"

lemma interleaving_set: "interleaving ps zs \<Longrightarrow> set zs \<subseteq> (\<Union>p\<in>set ps. set p)"
proof (induction rule: interleaving.induct)
  case (step i ps a p zs)
  have m: "ps ! i \<in> set ps" using step.hyps(1) by simp
  have "set (ps[i := p]) \<subseteq> insert p (set ps)" by (rule set_update_subset_insert)
  then have "set zs \<subseteq> set p \<union> (\<Union>p\<in>set ps. set p)" using step.IH by blast
  moreover have "insert a (set p) \<subseteq> (\<Union>p\<in>set ps. set p)" using m step.hyps(2) by fastforce
  ultimately show ?case by auto
qed simp

lemma key_map_K: "le_value (key_map [K]) y x \<Longrightarrow> x = (if y < K then NULL else K)"
proof (cases "y < K")
  case False
  assume v: "le_value (key_map [K]) y x"
  have f: "is_floor (key_map [K]) y K K" using False by (auto simp: is_floor_def key_map_def not_less split: if_splits)
  have "K \<noteq> NULL" by (simp add: K_def)
  then have "\<forall>z. \<not> is_floor (key_map [K]) y z NULL" using is_floor_unique [OF f] by blast
  then show ?thesis using v floor_value_is_floor [OF f] False by (simp add: le_value_def)
qed (auto simp: le_value_def key_map_def split: if_splits)

lemma thread_le1_ok: "a \<in> set (thread_le1 count n) \<Longrightarrow> query_ok (key_map [K]) a"
  by (induction count n rule: thread_le1.induct) (auto simp: Let_def split: if_splits dest!: key_map_K)

lemma thread_le1000_ok: "a \<in> set (thread_le1000 count n) \<Longrightarrow> query_ok m a"
  by (induction count n rule: thread_le1000.induct) auto

context hashmap_le
begin

lemma queries_ok:
  "rel n s m \<Longrightarrow> \<forall>a\<in>set zs. query_ok m a \<Longrightarrow> for_each (do_action hm) zs (s, bad) = Some (s, bad)"
proof (induction zs)
  case (Cons a zs)
  then obtain k chk where a: "a = Le k chk" by (cases a) auto
  obtain x where x: "hm_find_le hm k s = Some x" "le_value m k x" using find_le_ok [OF Cons.prems(1)] by blast
  have "\<And>v. chk = Some v \<Longrightarrow> x = v" using Cons.prems(2) a x(2) by simp
  then have "do_action hm a (s, bad) = Some (s, bad)" using a x(1) by (cases chk) auto
  then show ?case using Cons by simp
qed simp

lemma th_le_run_ok:
  assumes ks: "preload_keys spreload rpreload the1000 the1000p = ks" and "distinct ks"
    and "\<forall>p\<in>set ps. \<forall>a\<in>set p. query_ok (key_map ks) a" "interleaving ps schedule" "length ks \<le> budget"
  shows "th_run_test hm spreload rpreload the1000 the1000p schedule = Some (clean, False)"
proof -
  obtain s where s: "hm_new hm = Some s" "rel budget s Map.empty" using new_ok by blast
  obtain s1 where s1: "for_each (\<lambda>k. INS hm k k) ks s = Some s1" "rel (budget - length ks) s1 (key_map ks)"
    using preload_ok [OF s(2) assms(2,5)] by blast
  have "\<forall>a\<in>set schedule. query_ok (key_map ks) a" using interleaving_set [OF assms(4)] assms(3) by blast
  then show ?thesis using s(1) s1(1) delete_ok [OF s1(2)] queries_ok [OF s1(2)] by (simp add: th_run_test_def ks)
qed

end

end
