(* ===== verification/Programs.thy ===== *)
theory Programs
  imports Critnib_Memory Critnib_Le_Reader Critnib_Tag Critbit Tcradix Corr_Brute Thread_Tests
begin

text \<open>
  The program of \<open>src/1corr.c\<close> over all four structures: the table \<open>hms\<close> of
  \<open>src/hmload.c\<close>, \<open>run_test\<close>, which selects each structure in turn and passes over those whose
  flag \<open>hm_immutable\<close> excludes the test, and \<open>main\<close>.  A failed check ends the program (\<open>None\<close>).
  The structures have states of different types, so a test is given once for each of them.
\<close>

type_synonym ('s0, 'h0, 's1, 'h1, 's2, 'h2, 's3, 'h3) hm_table =
  "('s0, 'h0) hm \<times> ('s1, 'h1) hm \<times> ('s2, 'h2) hm \<times> ('s3, 'h3) hm"

definition run_one :: "('s, 'h) hm \<Rightarrow> (('s, 'h) hm \<Rightarrow> 'h option) \<Rightarrow> int \<Rightarrow> unit option" where
  "run_one hm func req =
     (if hm_immutable hm AND req \<noteq> 0 then Some () else do { h \<leftarrow> func hm; Some () })"

definition run_test ::
  "('s0, 'h0, 's1, 'h1, 's2, 'h2, 's3, 'h3) hm_table \<Rightarrow>
   (('s0, 'h0) hm \<Rightarrow> 'h0 option) \<Rightarrow> (('s1, 'h1) hm \<Rightarrow> 'h1 option) \<Rightarrow>
   (('s2, 'h2) hm \<Rightarrow> 'h2 option) \<Rightarrow> (('s3, 'h3) hm \<Rightarrow> 'h3 option) \<Rightarrow> int \<Rightarrow> unit option" where
  "run_test hms func0 func1 func2 func3 req = (case hms of (hm0, hm1, hm2, hm3) \<Rightarrow> do {
     run_one hm0 func0 req;
     run_one hm1 func1 req;
     run_one hm2 func2 req;
     run_one hm3 func3 req
   })"

text \<open>The random numbers each structure's tests draw are arguments.\<close>

definition corr_main ::
  "('s0, 'h0, 's1, 'h1, 's2, 'h2, 's3, 'h3) hm_table \<Rightarrow> (nat \<Rightarrow> u64 list) \<Rightarrow> (nat \<Rightarrow> (u64 \<times> u64 list) list) \<Rightarrow> unit option" where
  "corr_main hms rnd draws = do {
     run_test hms test_smoke test_smoke test_smoke test_smoke 0;
     run_test hms test_key0 test_key0 test_key0 test_key0 0;
     run_test hms test_1to1000 test_1to1000 test_1to1000 test_1to1000 0;
     run_test hms test_insert_delete1M test_insert_delete1M test_insert_delete1M test_insert_delete1M 0;
     run_test hms test_insert_bulk_delete1M test_insert_bulk_delete1M test_insert_bulk_delete1M test_insert_bulk_delete1M 0;
     run_test hms test_ffffffff_and_friends test_ffffffff_and_friends test_ffffffff_and_friends test_ffffffff_and_friends 0;
     run_test hms (\<lambda>hm. test_insert_delete_random hm (rnd 0)) (\<lambda>hm. test_insert_delete_random hm (rnd 1)) (\<lambda>hm. test_insert_delete_random hm (rnd 2)) (\<lambda>hm. test_insert_delete_random hm (rnd 3)) 0;
     run_test hms test_le_basic test_le_basic test_le_basic test_le_basic 2;
     run_test hms (\<lambda>hm. test_le_brute hm (draws 0)) (\<lambda>hm. test_le_brute hm (draws 1)) (\<lambda>hm. test_le_brute hm (draws 2)) (\<lambda>hm. test_le_brute hm (draws 3)) 2;
     run_test hms test_same_only test_same_only test_same_only test_same_only 2;
     run_test hms test_same_two test_same_two test_same_two test_same_two 2
   }"

text \<open>The table of \<open>src/hmload.c\<close>, with an allocator for each structure.\<close>

definition hms where
  "hms = (hm_critbit (first_fit_pairs 16777216), hm_tcradix (limited 134217728),
          hm_critnib (first_fit 8388608), hm_critnib_tag (first_fit 8388608))"

lemma hms_flags:
  "hm_immutable (hm_critbit a) = 2" "hm_immutable (hm_tcradix b) = 2"
  "hm_immutable (hm_critnib c) = 0" "hm_immutable (hm_critnib_tag d) = 0"
  by (simp_all add: hm_critbit_def hm_tcradix_def hm_critnib_def hm_critnib_tag_def)

lemma run_test_hms:
  "func2 (hm_critnib (first_fit 8388608)) \<noteq> None \<Longrightarrow> func3 (hm_critnib_tag (first_fit 8388608)) \<noteq> None \<Longrightarrow>
   run_test hms func0 func1 func2 func3 2 = Some ()"
  "func0 (hm_critbit (first_fit_pairs 16777216)) \<noteq> None \<Longrightarrow> func1 (hm_tcradix (limited 134217728)) \<noteq> None \<Longrightarrow>
   func2 (hm_critnib (first_fit 8388608)) \<noteq> None \<Longrightarrow> func3 (hm_critnib_tag (first_fit 8388608)) \<noteq> None \<Longrightarrow>
   run_test hms func0 func1 func2 func3 0 = Some ()"
  by (auto simp: run_test_def hms_def run_one_def hms_flags)

text \<open>The facts of the four interpretations on the tests, collected.\<close>

lemmas test_passes =
  critbit_hm.test_smoke_ok critbit_hm.test_key0_ok critbit_hm.test_1to1000_ok
    critbit_hm.test_insert_delete1M_ok critbit_hm.test_insert_bulk_delete1M_ok critbit_hm.test_ffffffff_and_friends_ok
    critbit_hm.test_insert_delete_random_ok
  tcradix_hm.test_smoke_ok tcradix_hm.test_key0_ok tcradix_hm.test_1to1000_ok
    tcradix_hm.test_insert_delete1M_ok tcradix_hm.test_insert_bulk_delete1M_ok tcradix_hm.test_ffffffff_and_friends_ok
    tcradix_hm.test_insert_delete_random_ok
  critnib_hm.test_smoke_ok critnib_hm.test_key0_ok critnib_hm.test_1to1000_ok
    critnib_hm.test_insert_delete1M_ok critnib_hm.test_insert_bulk_delete1M_ok critnib_hm.test_ffffffff_and_friends_ok
    critnib_hm.test_insert_delete_random_ok critnib_hm.test_le_basic_ok critnib_hm.test_same_only_ok
    critnib_hm.test_same_two_ok
  critnib_tag_hm.test_smoke_ok critnib_tag_hm.test_key0_ok critnib_tag_hm.test_1to1000_ok
    critnib_tag_hm.test_insert_delete1M_ok critnib_tag_hm.test_insert_bulk_delete1M_ok critnib_tag_hm.test_ffffffff_and_friends_ok
    critnib_tag_hm.test_insert_delete_random_ok critnib_tag_hm.test_le_basic_ok critnib_tag_hm.test_same_only_ok
    critnib_tag_hm.test_same_two_ok

lemmas le_brute_passes =
  hashmap_le.test_le_brute_ok [OF critnib_hm.hashmap_le_axioms]
  hashmap_le.test_le_brute_ok [OF critnib_tag_hm.hashmap_le_axioms]

lemmas th_le_passes =
  hashmap_le.th_le_run_ok [OF critnib_hm.hashmap_le_axioms]
  hashmap_le.th_le_run_ok [OF critnib_tag_hm.hashmap_le_axioms]

end
