(* ===== verification/Util_Memory.thy ===== *)
theory Util_Memory
  imports Prelude
begin

text \<open>
  The routines of \<open>src/util.c\<close> on memory ranges: the replaceable allocation functions,
  \<open>util_is_zeroed\<close>, and the two Fletcher-64 checksums.  A range is the list of its bytes, or of
  the 32-bit little-endian words that \<open>le32toh\<close> reads from it; \<open>None\<close> is a call of
  \<open>abort\<close> or an access outside the object.

  The lemmas: \<open>util_is_zeroed\<close> compares the range with itself shifted by one byte, which is
  the same as comparing every byte with 0; a range into which \<open>util_checksum\<close> inserted a checksum
  is accepted; \<open>util_checksum_seq\<close> may be fed the range in pieces and computes what
  \<open>util_checksum\<close> does.
\<close>

subsection \<open>Allocation functions\<close>

record ('m, 'f, 'r, 'd) alloc_funcs =
  Malloc :: 'm
  Free :: 'f
  Realloc :: 'r
  Strdup :: 'd

text \<open>A NULL argument restores the function of the C library, here the first argument.\<close>

definition util_set_alloc_funcs ::
  "('m, 'f, 'r, 'd) alloc_funcs \<Rightarrow> 'm option \<Rightarrow> 'f option \<Rightarrow> 'r option \<Rightarrow> 'd option \<Rightarrow> ('m, 'f, 'r, 'd) alloc_funcs" where
  "util_set_alloc_funcs libc malloc_func free_func realloc_func strdup_func =
     \<lparr>Malloc = (case malloc_func of None \<Rightarrow> Malloc libc | Some f \<Rightarrow> f),
      Free = (case free_func of None \<Rightarrow> Free libc | Some f \<Rightarrow> f),
      Realloc = (case realloc_func of None \<Rightarrow> Realloc libc | Some f \<Rightarrow> f),
      Strdup = (case strdup_func of None \<Rightarrow> Strdup libc | Some f \<Rightarrow> f)\<rparr>"

text \<open>\<open>Malloc\<close> answers a size by NULL (\<open>None\<close>) or the bytes of a new block.\<close>

definition Zalloc :: "(nat \<Rightarrow> u8 list option, 'f, 'r, 'd) alloc_funcs \<Rightarrow> nat \<Rightarrow> u8 list option" where
  "Zalloc af sz =
     (case Malloc af sz of
        None \<Rightarrow> None
      | Some ret \<Rightarrow> Some (replicate sz 0 @ drop sz ret))"

subsection \<open>Zeroed ranges\<close>

text \<open>\<open>memcmp\<close>; reading past the end of an object is undefined.\<close>

fun memcmp :: "u8 list \<Rightarrow> u8 list \<Rightarrow> nat \<Rightarrow> int option" where
  "memcmp xs ys 0 = Some 0"
| "memcmp (x # xs) (y # ys) (Suc n) = (if x = y then memcmp xs ys n else Some (if x < y then - 1 else 1))"
| "memcmp xs ys (Suc n) = None"

definition util_is_zeroed :: "u8 list \<Rightarrow> nat \<Rightarrow> int option" where
  "util_is_zeroed a len =
     (if len = 0 then Some 1
      else case a of
        [] \<Rightarrow> None
      | a0 # rest \<Rightarrow>
          if a0 = 0 then do { r \<leftarrow> memcmp a rest (len - 1); Some (if r = 0 then 1 else 0) }
          else Some 0)"

lemma memcmp_shift:
  "Suc n \<le> length a \<Longrightarrow> \<exists>r. memcmp a (tl a) n = Some r \<and> (r = 0 \<longleftrightarrow> (\<forall>i<n. a ! i = a ! Suc i))"
proof (induction n arbitrary: a)
  case (Suc n)
  then obtain x y zs where a: "a = x # y # zs" by (cases a; cases "tl a") auto
  have "Suc n \<le> length (y # zs)" using Suc.prems a by simp
  from Suc.IH [OF this] obtain r where r: "memcmp (y # zs) zs n = Some r" "r = 0 \<longleftrightarrow> (\<forall>i<n. (y # zs) ! i = (y # zs) ! Suc i)" by auto
  show ?case
  proof (cases "x = y")
    case True
    then show ?thesis using r a by (auto simp: less_Suc_eq_0_disj)
  next
    case False
    then have "memcmp a (tl a) (Suc n) = Some (if x < y then - 1 else 1)" using a by simp
    moreover have "\<not> (\<forall>i<Suc n. a ! i = a ! Suc i)" using a False by auto
    ultimately show ?thesis by auto
  qed
qed simp

lemma all_equal_chain: "(\<forall>i<n. f i = f (Suc i)) \<Longrightarrow> i \<le> n \<Longrightarrow> f i = f (0::nat)"
  by (induction i) auto

lemma is_zeroed_all:
  assumes "len \<le> length a"
  shows "util_is_zeroed a len = Some (if \<forall>i<len. a ! i = 0 then 1 else 0)"
proof (cases "len = 0 \<or> a ! 0 \<noteq> 0")
  case True
  then show ?thesis using assms by (cases a) (auto simp: util_is_zeroed_def)
next
  case False
  then obtain n where n: "len = Suc n" by (cases len) auto
  obtain as where a: "a = 0 # as" using assms n False by (cases a) auto
  obtain r where r: "memcmp a as n = Some r" "r = 0 \<longleftrightarrow> (\<forall>i<n. a ! i = a ! Suc i)"
    using memcmp_shift [of n a] assms n a by auto
  have "util_is_zeroed a len = Some (if r = 0 then 1 else 0)" using r(1) n by (simp add: util_is_zeroed_def a)
  moreover have "(\<forall>i<n. a ! i = a ! Suc i) \<longleftrightarrow> (\<forall>i<len. a ! i = 0)"
  proof
    assume e: "\<forall>i<n. a ! i = a ! Suc i"
    have "a ! i = a ! 0" if "i < len" for i using all_equal_chain [OF e, of i] that n by (simp add: less_Suc_eq_le)
    then show "\<forall>i<len. a ! i = 0" using a by simp
  next
    assume "\<forall>i<len. a ! i = 0"
    then show "\<forall>i<n. a ! i = a ! Suc i" using n by (metis Suc_less_eq less_SucI)
  qed
  ultimately show ?thesis using r(2) by simp
qed

text \<open>A block from \<open>Zalloc\<close> is zeroed over the size that was asked for.\<close>

lemma Zalloc_zeroed: "Zalloc af sz = Some b \<Longrightarrow> util_is_zeroed b sz = Some 1"
  using is_zeroed_all [of sz b] by (auto simp: Zalloc_def nth_append split: option.splits)

lemma set_alloc_funcs_default: "util_set_alloc_funcs libc None None None None = libc"
  by (simp add: util_set_alloc_funcs_def)

text \<open>
  C30.  \<open>util_is_zeroed\<close> answers 1 exactly when the first \<open>len\<close> bytes are all 0; it reads
  no byte beyond them, and the empty range counts as zeroed.
\<close>

theorem util_is_zeroed_correct:
  assumes "len \<le> length a"
  shows "util_is_zeroed a len = Some (if \<forall>i<len. a ! i = 0 then 1 else 0)"
  using assms by (rule is_zeroed_all)

theorem util_is_zeroed_correct_witness:
  "util_is_zeroed [0, 0, 0, 7] 3 = Some 1 \<and> util_is_zeroed [0, 0, 0, 7] 4 = Some 0"
proof -
  have "util_is_zeroed [0, 0, 0, 7] 3 = Some 1"
    using util_is_zeroed_correct [of 3 "[0, 0, 0, 7]"] by (simp add: less_Suc_eq numeral_3_eq_3)
  moreover have "\<not> (\<forall>i<4. [0, 0, 0, 7 :: u8] ! i = 0)" by (intro notI) (drule spec [of _ 3], simp)
  then have "util_is_zeroed [0, 0, 0, 7] 4 = Some 0"
    using util_is_zeroed_correct [of 4 "[0, 0, 0, 7]"] by auto
  ultimately show ?thesis by simp
qed

subsection \<open>Fletcher-64\<close>

function checksum_loop :: "u32 list \<Rightarrow> nat \<Rightarrow> nat \<Rightarrow> nat \<Rightarrow> nat \<Rightarrow> u32 \<Rightarrow> u32 \<Rightarrow> u32 \<times> u32" where
  "checksum_loop mem n csump skip p32 lo32 hi32 =
     (if p32 < n then
        if p32 = csump \<or> skip \<le> 4 * p32
        then checksum_loop mem n csump skip (p32 + 2) lo32 (hi32 + lo32 + lo32)
        else let lo32 = lo32 + mem ! p32 in checksum_loop mem n csump skip (p32 + 1) lo32 (hi32 + lo32)
      else (lo32, hi32))"
  by pat_completeness auto
termination by (relation "measure (\<lambda>(mem, n, cs, sk, p, lo, hi). n - p)") auto

definition csum64 :: "u32 \<Rightarrow> u32 \<Rightarrow> u64" where
  "csum64 lo32 hi32 = push_bit 32 (ucast hi32) OR ucast lo32"

definition load64 :: "u32 list \<Rightarrow> nat \<Rightarrow> u64" where
  "load64 mem i = push_bit 32 (ucast (mem ! Suc i)) OR ucast (mem ! i)"

definition store64 :: "nat \<Rightarrow> u64 \<Rightarrow> u32 list \<Rightarrow> u32 list" where
  "store64 i x mem = mem[i := ucast x, Suc i := ucast (drop_bit 32 x)]"

definition util_checksum :: "u32 list \<Rightarrow> nat \<Rightarrow> nat \<Rightarrow> bool \<Rightarrow> nat \<Rightarrow> (int \<times> u32 list) option" where
  "util_checksum mem len csump ins skip_off =
     (if len mod 4 \<noteq> 0 then None
      else if length mem < len div 4 \<or> length mem \<le> Suc csump then None
      else let skip = (if skip_off \<noteq> 0 then skip_off else len);
               (lo32, hi32) = checksum_loop mem (len div 4) csump skip 0 0 0;
               csum = csum64 lo32 hi32
           in if ins then Some (1, store64 csump csum mem)
              else Some (if load64 mem csump = csum then 1 else 0, mem))"

fun checksum_seq_loop :: "u32 list \<Rightarrow> u32 \<Rightarrow> u32 \<Rightarrow> u32 \<times> u32" where
  "checksum_seq_loop [] lo32 hi32 = (lo32, hi32)"
| "checksum_seq_loop (w # ws) lo32 hi32 = (let lo32 = lo32 + w in checksum_seq_loop ws lo32 (hi32 + lo32))"

definition util_checksum_seq :: "u32 list \<Rightarrow> nat \<Rightarrow> u64 \<Rightarrow> u64 option" where
  "util_checksum_seq mem len csum =
     (if len mod 4 \<noteq> 0 then None
      else if length mem < len div 4 then None
      else let (lo32, hi32) = checksum_seq_loop (take (len div 4) mem) (ucast csum) (ucast (drop_bit 32 csum))
           in Some (csum64 lo32 hi32))"

declare checksum_loop.simps [simp del]

lemma csum64_split [simp]: "ucast (csum64 lo hi) = lo" "ucast (drop_bit 32 (csum64 lo hi)) = hi"
proof -
  have "\<not> bit (lo :: u32) (32 + n)" for n using bit_imp_le_length [of lo "32 + n"] by auto
  then show "ucast (csum64 lo hi) = lo" "ucast (drop_bit 32 (csum64 lo hi)) = hi"
    by (auto intro!: bit_word_eqI simp: csum64_def bit_simps)
qed

lemma length_store64 [simp]: "length (store64 i x mem) = length mem"
  by (simp add: store64_def)

lemma load_store64: "Suc i < length mem \<Longrightarrow> load64 (store64 i x mem) i = x"
  unfolding load64_def store64_def
  by (rule bit_word_eqI) (auto simp: nth_list_update bit_simps)

lemma checksum_loop_skips:
  "(\<And>i. i \<noteq> cs \<Longrightarrow> i \<noteq> Suc cs \<Longrightarrow> mem' ! i = mem ! i) \<Longrightarrow> p \<noteq> Suc cs \<or> n \<le> p \<or> skip \<le> 4 * p \<Longrightarrow>
   checksum_loop mem' n cs skip p lo hi = checksum_loop mem n cs skip p lo hi"
proof (induction mem n cs skip p lo hi rule: checksum_loop.induct)
  case (1 mem n cs skip p lo hi)
  show ?case
  proof (cases "p < n \<and> \<not> (p = cs \<or> skip \<le> 4 * p)")
    case True
    then have "mem' ! p = mem ! p" using 1(3,4) by auto
    moreover have "checksum_loop mem' n cs skip (p + 1) (lo + mem ! p) (hi + (lo + mem ! p)) =
        checksum_loop mem n cs skip (p + 1) (lo + mem ! p) (hi + (lo + mem ! p))"
      by (rule 1(2) [OF _ _ refl]) (use True 1(3) in auto)
    ultimately show ?thesis using True by (subst (1 2) checksum_loop.simps) (simp add: Let_def)
  next
    case False
    have "checksum_loop mem' n cs skip (p + 2) lo (hi + lo + lo) = checksum_loop mem n cs skip (p + 2) lo (hi + lo + lo)" if "p < n"
      by (rule 1(1)) (use False that 1(3) in auto)
    then show ?thesis using False by (subst (1 2) checksum_loop.simps) simp
  qed
qed

text \<open>
  C31.  Inserting and checking a checksum: \<open>util_checksum\<close> with \<open>insert\<close> changes only the
  two words at \<open>csump\<close>, and checking the result accepts it, wherever the checksum lies and
  whatever is skipped (because the words at \<open>csump\<close> and those from \<open>skip_off\<close> on count as 0).
\<close>

theorem util_checksum_roundtrip:
  assumes "len mod 4 = 0" "len div 4 \<le> length mem" "Suc csump < length mem"
  shows "\<exists>mem'. util_checksum mem len csump True skip_off = Some (1, mem')
    \<and> util_checksum mem' len csump False skip_off = Some (1, mem')
    \<and> (\<forall>i. i \<noteq> csump \<and> i \<noteq> Suc csump \<longrightarrow> mem' ! i = mem ! i)"
proof -
  let ?skip = "if skip_off \<noteq> 0 then skip_off else len"
  obtain lo hi where l: "checksum_loop mem (len div 4) csump ?skip 0 0 0 = (lo, hi)" by fastforce
  let ?mem = "store64 csump (csum64 lo hi) mem"
  have other: "?mem ! i = mem ! i" if "i \<noteq> csump" "i \<noteq> Suc csump" for i using that by (simp add: store64_def)
  have "checksum_loop ?mem (len div 4) csump ?skip 0 0 0 = (lo, hi)"
    using checksum_loop_skips [of csump ?mem mem 0 "len div 4" ?skip 0 0] other l by simp
  then show ?thesis using l assms other load_store64 [OF assms(3)]
    by (intro exI [of _ ?mem]) (simp add: util_checksum_def)
qed

theorem util_checksum_roundtrip_witness:
  "\<exists>mem'. util_checksum [1, 2, 9, 9, 5] 20 2 True 0 = Some (1, mem') \<and> util_checksum mem' 20 2 False 0 = Some (1, mem')
     \<and> mem' ! 4 = 5"
proof -
  from util_checksum_roundtrip [of 20 "[1, 2, 9, 9, 5]" 2 0] obtain mem' where
    "util_checksum [1, 2, 9, 9, 5] 20 2 True 0 = Some (1, mem')" "util_checksum mem' 20 2 False 0 = Some (1, mem')"
    "\<forall>i. i \<noteq> 2 \<and> i \<noteq> Suc 2 \<longrightarrow> mem' ! i = [1, 2, 9, 9, 5] ! i" by auto
  then show ?thesis by (intro exI [of _ mem']) simp
qed

lemma checksum_seq_loop_append: "checksum_seq_loop (xs @ ys) lo hi = (case checksum_seq_loop xs lo hi of (lo, hi) \<Rightarrow> checksum_seq_loop ys lo hi)"
  by (induction xs arbitrary: lo hi) (simp_all add: Let_def)

lemma checksum_loop_plain:
  "n \<le> length mem \<Longrightarrow> n \<le> cs \<Longrightarrow> p \<le> n \<Longrightarrow> checksum_loop mem n cs (4 * n) p lo hi = checksum_seq_loop (drop p (take n mem)) lo hi"
proof (induction mem n cs "4 * n" p lo hi rule: checksum_loop.induct)
  case (1 mem n cs p lo hi)
  show ?case
  proof (cases "p < n")
    case True
    then have "drop p (take n mem) = mem ! p # drop (Suc p) (take n mem)" using 1(3) by (simp add: Cons_nth_drop_Suc [symmetric])
    moreover have "checksum_loop mem n cs (4 * n) (p + 1) (lo + mem ! p) (hi + (lo + mem ! p)) =
      checksum_seq_loop (drop (p + 1) (take n mem)) (lo + mem ! p) (hi + (lo + mem ! p))"
      by (rule 1(2) [OF True _ refl]) (use True 1(3,4) in auto)
    ultimately show ?thesis using True 1(4) by (subst checksum_loop.simps) (simp add: Let_def)
  next
    case False
    then show ?thesis using 1(5) by (subst checksum_loop.simps) simp
  qed
qed

text \<open>
  C32.  \<open>util_checksum_seq\<close> is sequential: continuing over a second buffer gives the checksum
  of the two buffers together; and started at 0 it computes what \<open>util_checksum\<close> stores when the
  checksum lies behind the range.
\<close>

theorem util_checksum_seq_correct:
  assumes "xlen = 4 * length xs" "ylen = 4 * length ys"
  shows "(util_checksum_seq xs xlen csum \<bind> util_checksum_seq ys ylen) = util_checksum_seq (xs @ ys) (xlen + ylen) csum
    \<and> util_checksum (xs @ [lo, hi]) xlen (length xs) True 0 =
        map_option (\<lambda>csum. (1, store64 (length xs) csum (xs @ [lo, hi]))) (util_checksum_seq xs xlen 0)"
proof
  have e: "xlen + ylen = 4 * length (xs @ ys)" using assms by simp
  have d: "(xlen + ylen) mod 4 = 0" "(xlen + ylen) div 4 = length (xs @ ys)" unfolding e by simp_all
  have d': "xlen mod 4 = 0" "xlen div 4 = length xs" "ylen mod 4 = 0" "ylen div 4 = length ys" using assms by simp_all
  show "(util_checksum_seq xs xlen csum \<bind> util_checksum_seq ys ylen) = util_checksum_seq (xs @ ys) (xlen + ylen) csum"
    unfolding util_checksum_seq_def d d'
    by (cases "checksum_seq_loop xs (ucast csum) (ucast (drop_bit 32 csum))") (simp add: checksum_seq_loop_append)
  show "util_checksum (xs @ [lo, hi]) xlen (length xs) True 0 =
      map_option (\<lambda>csum. (1, store64 (length xs) csum (xs @ [lo, hi]))) (util_checksum_seq xs xlen 0)"
    using checksum_loop_plain [of "length xs" "xs @ [lo, hi]" "length xs" 0 0 0] assms(1)
    by (simp add: util_checksum_def util_checksum_seq_def split: prod.splits)
qed

theorem util_checksum_seq_correct_witness:
  "(util_checksum_seq [1, 2] 8 0 \<bind> util_checksum_seq [3] 4) = util_checksum_seq [1, 2, 3] 12 0
   \<and> util_checksum [1, 2, 0, 0] 8 2 True 0 =
        map_option (\<lambda>csum. (1, store64 2 csum [1, 2, 0, 0])) (util_checksum_seq [1, 2] 8 0)"
  using util_checksum_seq_correct [of 8 "[1, 2]" 4 "[3]" 0 0 0] by (simp add: numeral_2_eq_2)

end
