(* ===== verification/Util_Strings.thy ===== *)
theory Util_Strings
  imports Prelude
begin

text \<open>
  The string routines of \<open>src/util.c\<close>: \<open>util_safe_strcpy\<close>, \<open>util_concat_str\<close>,
  \<open>util_fgets\<close> and \<open>util_parse_size\<close>.  A C string is the list of its characters before the
  terminating NUL; a buffer is the list of all its characters.  The routines of the C library they
  call (\<open>strncpy\<close>, \<open>strcpy\<close>, \<open>strcat\<close>, and \<open>sscanf\<close> for the one format that is used) are written out.

  The lemmas: the copy and its error code; and that every decimal number, with every suffix of the
  table, is parsed to its value times the suffix's magnitude, modulo 2 to the 64.
\<close>

subsection \<open>Strings\<close>

definition NUL :: char where "NUL = CHR 0x00"

definition strncpy :: "string \<Rightarrow> string \<Rightarrow> nat \<Rightarrow> string option" where
  "strncpy dst src n = (if length dst < n then None else Some (take n (src @ replicate n NUL) @ drop n dst))"

definition util_safe_strcpy :: "string \<Rightarrow> string \<Rightarrow> nat \<Rightarrow> (int \<times> string) option" where
  "util_safe_strcpy dst src max_length =
     (if max_length = 0 then Some (- 1, dst)
      else do {
        dst \<leftarrow> strncpy dst src max_length;
        Some (if dst ! (max_length - 1) = NUL then 0 else - 1, dst)
      })"

definition c_string :: "string \<Rightarrow> string" where
  "c_string buf = takeWhile (\<lambda>c. c \<noteq> NUL) buf"

text \<open>
  C34.  \<open>util_safe_strcpy\<close> never writes beyond \<open>max_length\<close> characters, and answers 0
  exactly when the source with its terminator fits; then the destination holds the source.
\<close>

theorem util_safe_strcpy_correct:
  assumes "max_length \<le> length dst" "NUL \<notin> set src"
  shows "\<exists>r dst'. util_safe_strcpy dst src max_length = Some (r, dst') \<and> length dst' = length dst
    \<and> drop max_length dst' = drop max_length dst
    \<and> (if length src < max_length then r = 0 \<and> c_string dst' = src else r = - 1)"
proof (cases "max_length = 0")
  case False
  let ?d = "take max_length (src @ replicate max_length NUL) @ drop max_length dst"
  have l: "length (take max_length (src @ replicate max_length NUL)) = max_length" by simp
  have r: "util_safe_strcpy dst src max_length = Some (if ?d ! (max_length - 1) = NUL then 0 else - 1, ?d)"
    using assms(1) False by (simp add: util_safe_strcpy_def strncpy_def)
  have last: "?d ! (max_length - 1) = (src @ replicate max_length NUL) ! (max_length - 1)"
  proof -
    have "?d ! (max_length - 1) = take max_length (src @ replicate max_length NUL) ! (max_length - 1)"
      using False l by (metis diff_less nth_append zero_less_one neq0_conv)
    then show ?thesis using False by (metis diff_less nth_take zero_less_one neq0_conv)
  qed
  show ?thesis
  proof (cases "length src < max_length")
    case True
    then have "\<not> max_length - 1 < length src" "max_length - 1 - length src < max_length" by auto
    then have "?d ! (max_length - 1) = NUL" unfolding last by (simp only: nth_append if_False nth_replicate)
    moreover obtain j where j: "max_length - length src = Suc j" using True by (metis Suc_diff_Suc)
    have "?d = src @ NUL # (replicate j NUL @ drop max_length dst)"
    proof -
      have "min (Suc j) max_length = Suc j" using j by linarith
      then show ?thesis using True j by simp
    qed
    then have "c_string ?d = src" using assms(2) by (auto simp: c_string_def takeWhile_append)
    ultimately show ?thesis using r True assms(1) by auto
  next
    case nlt: False
    then have "max_length - 1 < length src" using False by linarith
    then have "?d ! (max_length - 1) \<in> set src" unfolding last by (simp only: nth_append if_True nth_mem)
    then have "?d ! (max_length - 1) \<noteq> NUL" using assms(2) by metis
    then show ?thesis using r nlt assms(1) by auto
  qed
qed (simp add: util_safe_strcpy_def)

theorem util_safe_strcpy_correct_witness:
  "\<exists>dst'. util_safe_strcpy ''xxxx'' ''abc'' 4 = Some (0, dst') \<and> c_string dst' = ''abc''"
  using util_safe_strcpy_correct [of 4 "''xxxx''" "''abc''"] by (auto simp: NUL_def)

text \<open>
  \<open>strcpy\<close> and \<open>strcat\<close> on the buffer of the destination; writing past its end, or appending to a
  buffer without terminator, is undefined.
\<close>

definition strcpy :: "string \<Rightarrow> string \<Rightarrow> string option" where
  "strcpy dst src = (if length dst < length src + 1 then None else Some (src @ NUL # drop (length src + 1) dst))"

definition strcat :: "string \<Rightarrow> string \<Rightarrow> string option" where
  "strcat dst src =
     (let len = length (c_string dst)
      in if len = length dst then None
         else do { rest \<leftarrow> strcpy (drop len dst) src; Some (take len dst @ rest) })"

text \<open>
  \<open>malloc n\<close> is NULL (\<open>None\<close>) or a block of \<open>n\<close> indeterminate characters; the result is the block,
  or \<open>Some None\<close> for NULL.
\<close>

definition util_concat_str :: "(nat \<Rightarrow> string option) \<Rightarrow> string \<Rightarrow> string \<Rightarrow> string option option" where
  "util_concat_str malloc s1 s2 =
     (case malloc (length s1 + length s2 + 1) of
        None \<Rightarrow> Some None
      | Some result \<Rightarrow> do {
          result \<leftarrow> strcpy result s1;
          result \<leftarrow> strcat result s2;
          Some (Some result)
        })"

lemma util_concat_str_ok:
  assumes "malloc (length s1 + length s2 + 1) = Some b" "length b = length s1 + length s2 + 1" "NUL \<notin> set s1"
  shows "util_concat_str malloc s1 s2 = Some (Some (s1 @ s2 @ [NUL]))"
proof -
  have "c_string (s1 @ NUL # drop (length s1 + 1) b) = s1"
    using assms(3) by (auto simp: c_string_def takeWhile_append)
  then show ?thesis using assms(1,2) by (simp add: util_concat_str_def strcpy_def strcat_def Let_def)
qed

text \<open>\<open>str\<close> is what \<open>fgets\<close> stored in the buffer (NULL at the end of the file).\<close>

definition util_fgets :: "string option \<Rightarrow> string option" where
  "util_fgets str =
     (case str of
        None \<Rightarrow> None
      | Some s \<Rightarrow>
          let len = length s
          in if len < 2 then Some s
             else if s ! (len - 2) = CHR 0x0D \<and> s ! (len - 1) = CHR 0x0A
                  then Some (take (len - 2) s @ [CHR 0x0A]) else Some s)"

text \<open>A line that ends in CR LF ends in LF alone; every other line is unchanged.\<close>

lemma util_fgets_crlf: "util_fgets (Some (s @ [CHR 0x0D, CHR 0x0A])) = Some (s @ [CHR 0x0A])"
  by (simp add: util_fgets_def Let_def nth_append)

lemma util_fgets_other:
  assumes "\<nexists>t. s = t @ [CHR 0x0D, CHR 0x0A]"
  shows "util_fgets (Some s) = Some s"
proof (cases s rule: rev_cases)
  case (snoc t b)
  then show ?thesis using assms by (cases t rule: rev_cases) (auto simp: util_fgets_def Let_def nth_append)
qed (simp add: util_fgets_def)
subsection \<open>Sizes\<close>

definition suffixes :: "(string \<times> u64) list" where
  "suffixes =
     [(''B'', 1),
      (''K'', 2 ^ 10), (''M'', 2 ^ 20), (''G'', 2 ^ 30), (''T'', 2 ^ 40), (''P'', 2 ^ 50),
      (''KiB'', 2 ^ 10), (''MiB'', 2 ^ 20), (''GiB'', 2 ^ 30), (''TiB'', 2 ^ 40), (''PiB'', 2 ^ 50),
      (''kB'', 1000), (''MB'', 1000 * 1000), (''GB'', 1000 * 1000 * 1000),
      (''TB'', 1000 * 1000 * 1000 * 1000), (''PB'', 1000 * 1000 * 1000 * 1000 * 1000)]"

definition is_space :: "char \<Rightarrow> bool" where
  "is_space c \<longleftrightarrow> c = CHR '' '' \<or> (9 \<le> (of_char c :: nat) \<and> (of_char c :: nat) \<le> 13)"

definition is_digit :: "char \<Rightarrow> bool" where
  "is_digit c \<longleftrightarrow> 48 \<le> (of_char c :: nat) \<and> (of_char c :: nat) \<le> 57"

definition digits_value :: "string \<Rightarrow> nat" where
  "digits_value ds = foldl (\<lambda>v c. 10 * v + (of_char c - 48)) 0 ds"

text \<open>
  \<open>sscanf(str, "%zu%8s", &size, unit)\<close>: the number of conversions, and what they stored.  A
  number that does not fit into \<open>size_t\<close> makes the call undefined.
\<close>

definition sscanf_zu_8s :: "string \<Rightarrow> (int \<times> u64 \<times> string) option" where
  "sscanf_zu_8s str =
     (let s = dropWhile is_space str;
          (neg, s) = (case s of c # cs \<Rightarrow> if c = CHR ''-'' then (True, cs) else if c = CHR ''+'' then (False, cs) else (False, s)
                              | [] \<Rightarrow> (False, s));
          ds = takeWhile is_digit s;
          rest = dropWhile is_space (dropWhile is_digit s);
          unit = take 8 (takeWhile (\<lambda>c. \<not> is_space c) rest)
      in if ds = [] then Some (if s = [] then - 1 else 0, 0, [])
         else if 2 ^ 64 \<le> digits_value ds then None
         else let size = (if neg then - of_nat (digits_value ds) else of_nat (digits_value ds))
              in Some (if unit = [] then 1 else 2, size, unit))"

text \<open>\<open>sizep\<close> is NULL (\<open>None\<close>) or points to a number.\<close>

definition util_parse_size :: "string \<Rightarrow> u64 option \<Rightarrow> (int \<times> u64 option) option" where
  "util_parse_size str sizep = do {
     (ret, size, unit) \<leftarrow> sscanf_zu_8s str;
     let (res, size) =
       (if ret = 1 then (0, size)
        else if ret = 2 then
          (case map_of suffixes unit of Some mag \<Rightarrow> (0, size * mag) | None \<Rightarrow> (- 1, size))
        else (- 1, size));
     Some (res, if res = 0 then map_option (\<lambda>_. size) sizep else sizep)
   }"

text \<open>The decimal notation of a number.\<close>

fun decimal :: "nat \<Rightarrow> string" where
  "decimal n = (if n < 10 then [char_of (48 + n)] else decimal (n div 10) @ [char_of (48 + n mod 10)])"

declare decimal.simps [simp del]

lemma digit_char: "d < 10 \<Longrightarrow> is_digit (char_of (48 + d :: nat)) \<and> of_char (char_of (48 + d :: nat)) - 48 = d"
  by (simp add: is_digit_def)

lemma decimal_value: "digits_value (decimal n) = n"
proof (induction n rule: decimal.induct)
  case (1 n)
  show ?case
  proof (cases "n < 10")
    case True
    then show ?thesis using digit_char [of n] by (subst decimal.simps) (simp add: digits_value_def)
  next
    case False
    have "digits_value (decimal (n div 10) @ [char_of (48 + n mod 10)]) = 10 * (n div 10) + n mod 10"
      using 1 [OF False] digit_char [of "n mod 10"] by (simp add: digits_value_def)
    then show ?thesis using False by (subst decimal.simps) simp
  qed
qed

lemma decimal_digits: "c \<in> set (decimal n) \<Longrightarrow> is_digit c" "decimal n \<noteq> []"
proof -
  have "(\<forall>c\<in>set (decimal n). is_digit c) \<and> decimal n \<noteq> []"
  proof (induction n rule: decimal.induct)
    case (1 n)
    show ?case
    proof (cases "n < 10")
      case True
      then show ?thesis using digit_char [of n] by (subst (1 2) decimal.simps) simp
    next
      case False
      then show ?thesis using 1 [OF False] digit_char [of "n mod 10"] by (subst (1 2) decimal.simps) simp
    qed
  qed
  then show "c \<in> set (decimal n) \<Longrightarrow> is_digit c" "decimal n \<noteq> []" by auto
qed

lemma digit_plain: "is_digit c \<Longrightarrow> \<not> is_space c \<and> c \<noteq> CHR ''-'' \<and> c \<noteq> CHR ''+''"
  by (auto simp: is_digit_def is_space_def)

lemma sscanf_decimal:
  assumes "n < 2 ^ 64" "\<And>c. c \<in> set unit \<Longrightarrow> \<not> is_space c" "unit = [] \<or> \<not> is_digit (hd unit)" "length unit \<le> 8"
  shows "sscanf_zu_8s (decimal n @ unit) = Some (if unit = [] then 1 else 2, of_nat n, unit)"
proof -
  obtain d ds where d: "decimal n = d # ds" using decimal_digits(2) [of n] by (cases "decimal n") auto
  then have "is_digit d" using decimal_digits(1) [of d n] by simp
  then have dp: "\<not> is_space d" "d \<noteq> CHR ''-''" "d \<noteq> CHR ''+''" using digit_plain by blast+
  have tw: "takeWhile is_digit (decimal n @ unit) = decimal n" "dropWhile is_digit (decimal n @ unit) = unit"
    using decimal_digits(1) [of _ n] assms(3) by (cases unit; auto simp: takeWhile_append2 dropWhile_append2)+
  have un: "dropWhile is_space unit = unit" "takeWhile (\<lambda>c. \<not> is_space c) unit = unit"
    using assms(2) by (cases unit; auto simp: takeWhile_eq_all_conv)+
  have s: "dropWhile is_space (decimal n @ unit) = decimal n @ unit" using d dp(1) by simp
  have sg: "(case decimal n @ unit of c # cs \<Rightarrow> if c = CHR ''-'' then (True, cs) else if c = CHR ''+'' then (False, cs)
      else (False, decimal n @ unit) | [] \<Rightarrow> (False, decimal n @ unit)) = (False, decimal n @ unit)" using d dp by simp
  show ?thesis
    unfolding sscanf_zu_8s_def Let_def s sg prod.case tw un
    using assms(1,4) decimal_value [of n] decimal_digits(2) [of n] by simp
qed

lemma suffixes_ok:
  "(suff, mag) \<in> set suffixes \<Longrightarrow> (\<forall>c\<in>set suff. \<not> is_space c) \<and> \<not> is_digit (hd suff) \<and> suff \<noteq> [] \<and> length suff \<le> 8"
  by (auto simp: suffixes_def is_space_def is_digit_def)

text \<open>
  C33.  Parsing what was printed: the decimal notation of a number below 2 to the 64 is parsed to
  the number, and followed by a suffix of the table to the number times the suffix's magnitude. The
  product is that of \<open>size_t\<close>: it wraps around silently.
\<close>

theorem util_parse_size_correct:
  assumes "n < 2 ^ 64"
  shows "util_parse_size (decimal n) (Some x) = Some (0, Some (of_nat n)) \<and>
    (\<forall>(suff, mag)\<in>set suffixes. util_parse_size (decimal n @ suff) (Some x) = Some (0, Some (of_nat n * mag)))"
proof (intro conjI ballI, unfold split_paired_all prod.case)
  show "util_parse_size (decimal n) (Some x) = Some (0, Some (of_nat n))"
    using sscanf_decimal [OF assms, of "[]"] by (simp add: util_parse_size_def)
  fix suff mag
  assume s: "(suff, mag) \<in> set suffixes"
  have "map_of suffixes suff = Some mag"
    by (rule map_of_is_SomeI [OF _ s]) (simp add: suffixes_def)
  then show "util_parse_size (decimal n @ suff) (Some x) = Some (0, Some (of_nat n * mag))"
    using sscanf_decimal [OF assms, of suff] suffixes_ok [OF s] by (simp add: util_parse_size_def)
qed

theorem util_parse_size_correct_witness:
  "util_parse_size (decimal 12) (Some 0) = Some (0, Some 12) \<and>
   util_parse_size (decimal 12 @ ''KiB'') (Some 0) = Some (0, Some 12288)"
proof -
  have "(''KiB'', 2 ^ 10) \<in> set suffixes" by (simp add: suffixes_def)
  with util_parse_size_correct [of 12 0] show ?thesis by fastforce
qed

end
