(* ===== verification/Tlog.thy ===== *)
theory Tlog
  imports Prelude
begin

text \<open>
  The event log of \<open>src/tlog.c\<close>: an array of \<open>TLOG_SIZE\<close> entries and a counter of the calls
  of \<open>tlog\<close>.  Each call takes its slot by an atomic increment of the counter and is dropped when
  the array is full; \<open>tlog_save\<close> writes the filled part of the array to a file.  The time stamp
  counter is an argument of \<open>tlog\<close>, the result of \<open>creat\<close> one of \<open>tlog_save\<close>, whose result is
  what was written, or \<open>None\<close> when the file could not be created.
\<close>

record tlog_entry =
  timestamp :: u64
  tid :: u32
  act :: u32
  data1 :: u64
  data2 :: u64

definition TLOG_SIZE :: nat where
  "TLOG_SIZE = 32 * 1048576"

text \<open>The static array and the static counter; \<open>tlog_start\<close> is their content at program start.\<close>

record tlog_state =
  tlog_data :: "nat \<Rightarrow> tlog_entry"
  tlog_i :: u64

definition tlog_start :: tlog_state where
  "tlog_start = \<lparr>tlog_data = (\<lambda>_. \<lparr>timestamp = 0, tid = 0, act = 0, data1 = 0, data2 = 0\<rparr>), tlog_i = 0\<rparr>"

definition tlog_init :: "tlog_state \<Rightarrow> tlog_state" where
  "tlog_init s = s\<lparr>tlog_i := 0\<rparr>"

definition tlog :: "u64 \<Rightarrow> u32 \<Rightarrow> u32 \<Rightarrow> u64 \<Rightarrow> u64 \<Rightarrow> tlog_state \<Rightarrow> tlog_state" where
  "tlog getticks t a d1 d2 s =
     (let o' = unat (tlog_i s); s = s\<lparr>tlog_i := tlog_i s + 1\<rparr>
      in if o' < TLOG_SIZE
         then s\<lparr>tlog_data := (tlog_data s)(o' := \<lparr>timestamp = getticks, tid = t, act = a, data1 = d1, data2 = d2\<rparr>)\<rparr>
         else s)"

definition tlog_save :: "int \<Rightarrow> tlog_state \<Rightarrow> tlog_entry list option" where
  "tlog_save f s =
     (if f = - 1 then None
      else let l = unat (tlog_i s); l = (if TLOG_SIZE < l then TLOG_SIZE else l)
           in Some (map (tlog_data s) [0..<l]))"

text \<open>The calls of a program that logs the given events, in the order of their increments.\<close>

definition tlogs :: "tlog_entry list \<Rightarrow> tlog_state \<Rightarrow> tlog_state" where
  "tlogs es s = fold (\<lambda>e. tlog (timestamp e) (tid e) (act e) (data1 e) (data2 e)) es s"

lemma tlogs_invariant:
  "length es < 2 ^ 64 \<Longrightarrow> tlog_i s = 0 \<Longrightarrow>
   unat (tlog_i (tlogs es s)) = length es \<and>
   (\<forall>j. j < length es \<and> j < TLOG_SIZE \<longrightarrow> tlog_data (tlogs es s) j = es ! j)"
proof (induction es rule: rev_induct)
  case (snoc e es)
  let ?s = "tlogs es s"
  have ih: "unat (tlog_i ?s) = length es" "\<And>j. j < length es \<Longrightarrow> j < TLOG_SIZE \<Longrightarrow> tlog_data ?s j = es ! j"
    using snoc by simp_all
  have step: "tlogs (es @ [e]) s = tlog (timestamp e) (tid e) (act e) (data1 e) (data2 e) ?s" by (simp add: tlogs_def)
  have "unat (tlog_i ?s + 1) = Suc (length es)"
    using ih(1) snoc.prems(1) by (simp add: unat_word_ariths)
  moreover have "tlog_i (tlogs (es @ [e]) s) = tlog_i ?s + 1" by (simp add: step tlog_def Let_def)
  moreover have "tlog_data (tlogs (es @ [e]) s) j = (es @ [e]) ! j" if "j < Suc (length es)" "j < TLOG_SIZE" for j
    using that ih by (auto simp: step tlog_def Let_def nth_append less_Suc_eq)
  ultimately show ?case by simp
qed (simp add: tlogs_def)

text \<open>
  C38.  The log keeps the first \<open>TLOG_SIZE\<close> events, in order and unchanged: whatever the state
  before \<open>tlog_init\<close>, saving after fewer than 2 to the 64 calls writes exactly these, and nothing
  when the file cannot be created.
\<close>

theorem tlog_saves_prefix:
  assumes "length es < 2 ^ 64"
  shows "tlog_save f (tlogs es (tlog_init s)) = (if f = - 1 then None else Some (take TLOG_SIZE es))"
proof -
  let ?s = "tlogs es (tlog_init s)" and ?l = "min TLOG_SIZE (length es)"
  have i: "unat (tlog_i ?s) = length es" "\<And>j. j < length es \<Longrightarrow> j < TLOG_SIZE \<Longrightarrow> tlog_data ?s j = es ! j"
    using tlogs_invariant [OF assms, of "tlog_init s"] by (auto simp: tlog_init_def)
  have "map (tlog_data ?s) [0..<?l] = take TLOG_SIZE es" using i(2) by (intro nth_equalityI) auto
  then show ?thesis unfolding tlog_save_def i(1) by (auto simp: Let_def min_def split: if_splits)
qed

theorem tlog_saves_prefix_witness:
  "tlog_save 3 (tlogs [\<lparr>timestamp = 5, tid = 1, act = 2, data1 = 3, data2 = 4\<rparr>] (tlog_init tlog_start))
   = Some [\<lparr>timestamp = 5, tid = 1, act = 2, data1 = 3, data2 = 4\<rparr>]"
  using tlog_saves_prefix [of "[\<lparr>timestamp = 5, tid = 1, act = 2, data1 = 3, data2 = 4\<rparr>]" 3 tlog_start]
  by (simp add: TLOG_SIZE_def)

end
