(* ===== verification/Spec2Isabelle.thy ===== *)
theory Spec2Isabelle
  imports Programs Util_Memory Util_Strings Util_Words Tlog
begin

text \<open>
  \<^bold>\<open>Verification of the concurrent maps of this repository.\<close>

  \<^bold>\<open>The program.\<close>  The repository holds four implementations of a map from 64-bit keys to
  pointers, meant for many readers and few writers: \<open>critnib\<close> (\<open>src/critnib.c\<close>, a radix tree
  over 4-bit slices with collapsed paths), \<open>critnib_tag\<close> (\<open>src/critnib-tag.c\<close>, an earlier form
  of it), \<open>critbit\<close> (\<open>src/critbit.c\<close>, a binary tree over single bits) and \<open>tcradix\<close>
  (\<open>src/tcradix.c\<close>, a radix tree with shortcuts for nodes that hold one key).  Each exports
  \<open>new\<close>, \<open>delete\<close>, \<open>insert\<close>, \<open>remove\<close>, \<open>get\<close> and \<open>find_le\<close>; \<open>src/hmproto.h\<close> and
  \<open>src/hmload.c\<close> collect them in a table, \<open>struct hm\<close>.  The clients are the functional tests
  (\<open>src/1corr.c\<close>), the thread tests (\<open>src/th.c\<close>) and an example (\<open>src/test.c\<close>).  The rest are
  helpers: \<open>src/util.c\<close> and \<open>src/util.h\<close> (bit scans, bitmaps, checksums, strings), an event log
  (\<open>src/tlog.c\<close>), wrappers of pthread (\<open>src/os_thread_posix.c\<close>) and messages (\<open>src/out.c\<close>).

  \<^bold>\<open>The theories.\<close>
  \<^item> \<open>Prelude\<close>: the types of the machine (\<open>u64\<close>, \<open>ptr\<close>), error numbers, and lemmas on bits,
    shifted words and lists.  \<open>Util_Bits\<close>: \<open>util_mssb_index64\<close>, which the trees use to find
    where two keys differ.
  \<^item> \<open>Hashmap\<close>: the table of operations (record \<open>hm\<close>) and its contract, the locales
    \<open>hashmap\<close> and \<open>hashmap_le\<close>; sequences of calls and what a finite map answers to them.  A
    relation \<open>rel n s m\<close> of the contract says that the state \<open>s\<close> stands for the map \<open>m\<close> and has
    memory for \<open>n\<close> more updates.  The flags of the locale say whether a structure accepts
    duplicate insertions and the removal of absent keys.
  \<^item> \<open>Critnib_Model\<close> (the source, function by function), \<open>Critnib_Tree\<close> and \<open>Critnib_Heap\<close>
    (trees, and when a heap holds one), \<open>Ownership\<close> (each block belongs to the tree, a pool or a
    pending slot, exactly once), \<open>Critnib_Evolve\<close> (what a write leaves alone of the blocks a reader
    may hold), \<open>Critnib_Lookup\<close>, \<open>Critnib_Insert\<close>, \<open>Critnib_Remove\<close>, \<open>Critnib_Delete\<close> (each
    operation refines its tree operation), \<open>Critnib\<close> (the interpretation of the contract, and an
    allocator), \<open>Critnib_Properties\<close> and \<open>Critnib_Memory\<close> (the memory of a whole lifetime).
  \<^item> \<open>Critnib_Reader\<close>, \<open>Critnib_Concurrent\<close>, \<open>Critnib_Le_Reader\<close>: \<open>critnib_get\<close> and
    \<open>critnib_find_le\<close> as machines whose steps are single loads (\<open>reader_step\<close>, \<open>le_step\<close>), and
    their runs among writers (\<open>among\<close>), with any sequence of insertions and removals between two
    loads, or alone (\<open>goes\<close>, \<open>runs\<close>).
  \<^item> \<open>Critnib_Tag_Model\<close> and \<open>Critnib_Tag\<close>: the older form, operation by operation, and its
    equivalence with critnib but for \<open>remove\<close>.
  \<^item> \<open>Critbit_Model\<close>, \<open>Critbit_Tree\<close>, \<open>Critbit_Heap\<close>, \<open>Critbit_Ops\<close>, \<open>Critbit\<close>: the same
    plan for the binary tree, on a heap of blocks of two nodes.
  \<^item> \<open>Tcradix_Model\<close>, \<open>Tcradix_Node\<close>, \<open>Tcradix_Insert\<close>, \<open>Tcradix_Remove\<close>, \<open>Tcradix\<close>: the
    radix tree.  Its nodes are reached by one pointer only, so that a node is a value that owns its
    children, and memory is the number of live blocks.
  \<^item> \<open>Corr_Tests\<close>, \<open>Corr_Brute\<close>: the tests of \<open>src/1corr.c\<close> as clients of the table, proved
    inside the locales.  \<open>Thread_Tests\<close>: the thread functions of \<open>src/th.c\<close> and runs of them.
    \<open>Programs\<close>: the table of all four structures and the \<open>main\<close> of \<open>src/1corr.c\<close>.
  \<^item> \<open>Util_Memory\<close>, \<open>Util_Strings\<close>, \<open>Util_Words\<close>, \<open>Tlog\<close>: the helpers.

  \<^bold>\<open>Conventions.\<close>  An operation takes the state and returns \<open>None\<close> or its result with the new
  state.  \<open>None\<close> is what C leaves undefined (reading an unallocated block, freeing it twice, a
  failed assertion, locking a held mutex) or a loop that does not end; a theorem that an operation
  returns therefore says that it is memory-safe and terminates.  Where the two have to be told
  apart, a theorem does not rest on \<open>None\<close>: C8 counts the steps of the load-by-load machines, C21
  names the pointer that \<open>Free\<close> is called with.  \<open>malloc\<close> is an argument: a
  function of the heap that yields the address of a block, with arbitrary content, or NULL.  Every
  error path (\<open>ENOMEM\<close>, \<open>EEXIST\<close>) is a branch of the model.

  \<^bold>\<open>What is shown.\<close>
  \<^item> For each structure: every operation, on every branch, has the effect on the map it should
    (C1--C4, C10--C11, C15--C17, C22--C24); deletion frees every block exactly once (C5, C18, C25);
    whole sessions from \<open>new\<close> to \<open>delete\<close> answer as a finite map (C6, C13, C19, C27).  Over any
    sequence of calls, the memory of critnib is bounded by the greatest number of keys, because the
    pools are reused (C9), and the nodes that tcradix recycles are clean (C26).
  \<^item> The lock-free reader of critnib: \<open>critnib_get\<close> returns a value that was current during the call
    (C7) and never leaves the allocated blocks (C14).  \<open>critnib_find_le\<close> does neither (C20).  Alone,
    the readers do what the sequential operations do (C28).
  \<^item> Where a structure does not keep the contract: removal of absent keys in \<open>critnib_tag\<close> (C12),
    duplicates in \<open>critbit\<close> (C21), a failed first insertion in \<open>tcradix\<close> (C29), the counter of
    removals of critnib near its wrap-around (C8).
  \<^item> The tests pass: the programs of \<open>src/1corr.c\<close> and \<open>src/test.c\<close> (C39), and the thread tests
    in every interleaving of calls (C37, C40).
  \<^item> The helpers: zeroed ranges and checksums (C30--C32), strings and sizes (C33, C34), bitmaps and
    alignment (C35, C36), the event log (C38).

  \<^bold>\<open>Bounds.\<close>  The contract is proved for every allocator that serves a given number of blocks
  (locales \<open>serving_allocator\<close>, \<open>serving_pairs\<close>, \<open>serving_zalloc\<close>).  An update of critnib takes
  at most two blocks, one of critbit one, one of tcradix at most 30 nodes; the runs of the thread
  tests with writers (C40) hold for every such allocator and as many updates as it has memory for.
  The concrete allocators of the functional tests have 8388608, 4194304 and 134217728 blocks:
  enough for the 4194304 updates that cover the 2097152 of the largest test.  No fuel is used:
  loops are recursive functions with a termination proof, or partial functions whose termination is
  part of the theorems.  The runs among writers keep the counter of removals 17 away from its
  wrap-around.

  \<^bold>\<open>Not modelled.\<close>  Memory is sequentially consistent: the memory orders of \<open>load\<close> and \<open>store\<close> are
  outside the model.  Write operations, which hold the mutex, are atomic; the loads of a reader of
  critnib are interleaved with them, but not with the two stores of one removal.  The readers of
  the other structures are atomic, with their retry loops and the spinning of \<open>tcradix_get\<close>.  The
  two fields of a node that \<open>find_le\<close> compares with the key are loaded in one step.  The mutex is a flag
  of the state; the pthread wrappers of \<open>src/os_thread_posix.c\<close> are one-line calls of the system's
  library.  Of \<open>src/th.c\<close> the creation of threads, the options, \<open>randomize\<close> and the variants that
  touch a local array between the same calls; of \<open>src/util.c\<close> \<open>util_init\<close> and
  \<open>util_localtime\<close>; the atomic macros of \<open>src/util.h\<close> and its Windows branch; all output
  (\<open>src/out.c\<close>, progress messages, tracing under \<open>TRACEMEM\<close> and \<open>DEBUG_SPAM\<close>).
\<close>

text \<open>
  C39.  The test programs succeed.  Every test of the \<open>main\<close> of \<open>src/1corr.c\<close> passes on every
  structure it is run on, whatever random numbers are drawn (a million by
  \<open>test_insert_delete_random\<close>, and for \<open>test_le_brute\<close> one in each of 1024 rounds and any number for
  the queries of a round).  The program of \<open>src/test.c\<close> leaves no memory behind.
\<close>

theorem corr_main_succeeds:
  assumes "\<And>i. i < 4 \<Longrightarrow> length (rnd i) \<le> 1000000" "\<And>i. i < 4 \<Longrightarrow> length (draws i) \<le> 1024"
  shows "corr_main hms rnd draws = Some ()
    \<and> test_main (hm_critnib (first_fit 8388608)) a c = Some \<lparr>nodes = Map.empty, leaves = Map.empty\<rparr>"
proof -
  note L = assms(1) [of 0] assms(1) [of 1] assms(1) [of 2] assms(1) [of 3] assms(2) [of 2] assms(2) [of 3]
  note R0 = run_test_hms(2) and R2 = run_test_hms(1)
  have "run_test hms test_smoke test_smoke test_smoke test_smoke 0 = Some ()"
    "run_test hms test_key0 test_key0 test_key0 test_key0 0 = Some ()"
    "run_test hms test_1to1000 test_1to1000 test_1to1000 test_1to1000 0 = Some ()"
    "run_test hms test_insert_delete1M test_insert_delete1M test_insert_delete1M test_insert_delete1M 0 = Some ()"
    "run_test hms test_insert_bulk_delete1M test_insert_bulk_delete1M test_insert_bulk_delete1M test_insert_bulk_delete1M 0 = Some ()"
    "run_test hms test_ffffffff_and_friends test_ffffffff_and_friends test_ffffffff_and_friends test_ffffffff_and_friends 0 = Some ()"
    "run_test hms (\<lambda>hm. test_insert_delete_random hm (rnd 0)) (\<lambda>hm. test_insert_delete_random hm (rnd 1))
       (\<lambda>hm. test_insert_delete_random hm (rnd 2)) (\<lambda>hm. test_insert_delete_random hm (rnd 3)) 0 = Some ()"
    by (rule R0; use L in \<open>simp add: test_passes\<close>)+
  moreover have "run_test hms test_le_basic test_le_basic test_le_basic test_le_basic 2 = Some ()"
    "run_test hms test_same_only test_same_only test_same_only test_same_only 2 = Some ()"
    "run_test hms test_same_two test_same_two test_same_two test_same_two 2 = Some ()"
    "run_test hms (\<lambda>hm. test_le_brute hm (draws 0)) (\<lambda>hm. test_le_brute hm (draws 1))
       (\<lambda>hm. test_le_brute hm (draws 2)) (\<lambda>hm. test_le_brute hm (draws 3)) 2 = Some ()"
    by (rule R2; use L in \<open>simp add: test_passes le_brute_passes\<close>)+
  ultimately show ?thesis using critnib_hm.test_main_ok by (simp add: corr_main_def)
qed

theorem corr_main_succeeds_witness:
  "corr_main hms (\<lambda>i. [7, of_nat i]) (\<lambda>i. [(3, [5]), (65539, [3, 9])]) = Some ()
   \<and> test_main (hm_critnib (first_fit 8388608)) 7 9 = Some \<lparr>nodes = Map.empty, leaves = Map.empty\<rparr>"
  by (rule corr_main_succeeds) simp_all

text \<open>
  C40.  Readers and writers: a run of \<open>src/th.c\<close> ends with no failed check and no memory left, on
  each of the four structures and in every interleaving of the calls of its threads, for any number
  of rounds that each thread makes until the flag \<open>done\<close> is set.  The conditions: the preloaded keys are
  distinct, the readers read preloaded keys, the random keys of the writers are neither preloaded
  nor those of another writer, and memory lasts: for some \<open>n\<close> (below \<open>2\<^sup>6\<^sup>2\<close>) that is at least the
  number of preloaded keys plus the number of insertions and removals made, the allocators serve
  \<open>n\<close> blocks of two nodes to critbit, which never reuses one, \<open>30 n + 1\<close> nodes to tcradix and \<open>2 n\<close>
  blocks to each critnib.
\<close>

theorem th_readers_writers_pass:
  assumes "preload_keys spreload rpreload the1000 the1000p = ks" "distinct ks"
    and "\<forall>t\<in>set ths. fits the1000 the1000p (set ks) t" "disjoint_writers ths"
    and "interleaving (map (thread_body the1000 the1000p) ths) schedule"
    and "length ks + sum_list (map cost schedule) \<le> n"
    and "serving_pairs mal0 n" "serving_zalloc mal1 (30 * n + 1)" "serving_allocator mal2 (2 * n)" "serving_allocator mal3 (2 * n)"
  shows "th_run_test (hm_critbit mal0) spreload rpreload the1000 the1000p schedule = Some (bheap_empty, False)
    \<and> th_run_test (hm_tcradix mal1) spreload rpreload the1000 the1000p schedule = Some (0, False)
    \<and> th_run_test (hm_critnib mal2) spreload rpreload the1000 the1000p schedule
        = Some (\<lparr>nodes = Map.empty, leaves = Map.empty\<rparr>, False)
    \<and> th_run_test (hm_critnib_tag mal3) spreload rpreload the1000 the1000p schedule
        = Some (\<lparr>nodes = Map.empty, leaves = Map.empty\<rparr>, False)"
proof -
  have b: "(30 * n + 1 - 1) div 30 = n" "2 * n div 2 = n" by simp_all
  note H = hm_critbit_hashmap [OF assms(7)] hm_tcradix_hashmap [OF assms(8), unfolded b]
    hashmap_le.axioms(1) [OF hm_critnib_hashmap_le [OF assms(9), unfolded b]]
    hashmap_le.axioms(1) [OF hm_critnib_tag_hashmap_le [OF assms(10), unfolded b]]
  note run = hashmap.th_run_ok [OF _ assms(1-6)]
  show ?thesis using run [OF H(1)] run [OF H(2)] run [OF H(3)] run [OF H(4)] by blast
qed

theorem th_readers_writers_pass_witness:
  "th_run_test (hm_critbit (first_fit_pairs 16777216)) 1 0 [] [] [Put 5 5, GetIs K K, GetIs 5 5, GetIs K K, RemIs 5 5]
   = Some (bheap_empty, False)"
proof -
  let ?ths = "[Read1 2, ReadWriteRemove [5]]" and ?sch = "[Put 5 5, GetIs K K, GetIs 5 5, GetIs K K, RemIs 5 5]"
  have bodies: "map (thread_body [] []) ?ths = [[GetIs K K, GetIs K K], [Put 5 5, GetIs 5 5, RemIs 5 5]]"
    by (simp add: thread_read1_def numeral_2_eq_2)
  have i: "interleaving (map (thread_body [] []) ?ths) ?sch" unfolding bodies
    by (rule interleaving.step [of 1], simp, simp, simp, rule interleaving.step [of 0], simp, simp, simp,
        rule interleaving.step [of 1], simp, simp, simp, rule interleaving.step [of 0], simp, simp, simp,
        rule interleaving.step [of 1], simp, simp, simp, rule interleaving.stopped, simp)
  have k: "preload_keys 1 0 [] [] = [K]" by (simp add: preload_keys_def)
  have d: "disjoint_writers ?ths" by (auto simp: disjoint_writers_def nth_Cons split: nat.splits)
  have f: "\<forall>t\<in>set ?ths. fits [] [] (set [K]) t" by (simp add: K_def)
  have c: "length [K] + sum_list (map cost ?sch) \<le> 3" by simp
  have "serving_pairs (first_fit_pairs 16777216) 3"
    using ffp.ok ffp.serves ffp.head_serves by unfold_locales simp_all
  moreover have "serving_zalloc (limited 91) 91" by unfold_locales (simp_all add: limited_def)
  moreover have "serving_allocator (first_fit 6 :: 8 word allocator) 6" "serving_allocator (first_fit 6 :: tag_allocator) 6"
    by (rule first_fit_serving; simp)+
  ultimately show ?thesis using th_readers_writers_pass [OF k _ f d i c] by simp
qed

text \<open>
  C37.  Predecessor queries: the two tests that look up bit-reversed counters end with no failed
  check and no memory left on critnib and critnib-tag, in every interleaving of the threads.
\<close>

theorem th_le_queries_pass:
  assumes "interleaving (map (thread_le1 0) rounds1) schedule1"
    and "interleaving (map (thread_le1000 0) rounds2) schedule2" "length the1000 = 1000" "distinct the1000"
  shows "th_run_test (hm_critnib (first_fit 8388608)) 1 0 the1000 the1000p schedule1
        = Some (\<lparr>nodes = Map.empty, leaves = Map.empty\<rparr>, False)
    \<and> th_run_test (hm_critnib_tag (first_fit 8388608)) 1 0 the1000 the1000p schedule1
        = Some (\<lparr>nodes = Map.empty, leaves = Map.empty\<rparr>, False)
    \<and> th_run_test (hm_critnib (first_fit 8388608)) 0 1000 the1000 the1000p schedule2
        = Some (\<lparr>nodes = Map.empty, leaves = Map.empty\<rparr>, False)
    \<and> th_run_test (hm_critnib_tag (first_fit 8388608)) 0 1000 the1000 the1000p schedule2
        = Some (\<lparr>nodes = Map.empty, leaves = Map.empty\<rparr>, False)"
proof -
  have k1: "preload_keys 1 0 the1000 the1000p = [K]" by (simp add: preload_keys_def)
  have k2: "preload_keys 0 1000 the1000 the1000p = the1000" by (rule preload_all [OF assms(3)])
  have q1: "\<forall>p\<in>set (map (thread_le1 0) rounds1). \<forall>a\<in>set p. query_ok (key_map [K]) a" using thread_le1_ok by auto
  have q2: "\<forall>p\<in>set (map (thread_le1000 0) rounds2). \<forall>a\<in>set p. query_ok (key_map the1000) a"
    using thread_le1000_ok by auto
  show ?thesis
    using th_le_passes(1) [OF k1 _ q1 assms(1)] th_le_passes(2) [OF k1 _ q1 assms(1)]
      th_le_passes(1) [OF k2 assms(4) q2 assms(2)] th_le_passes(2) [OF k2 assms(4) q2 assms(2)] assms(3) by simp
qed

theorem th_le_queries_pass_witness:
  "th_run_test (hm_critnib (first_fit 8388608)) 1 0 (map of_nat [0..<1000]) [] [Le 0 (Some NULL), Le 0 (Some NULL)]
   = Some (\<lparr>nodes = Map.empty, leaves = Map.empty\<rparr>, False)"
proof -
  have r: "revbits 0 = 0" using revbits_zero .
  have "map (thread_le1 0) [1, 1] = [[Le 0 (Some NULL)], [Le 0 (Some NULL)]]" by (simp add: r K_def)
  moreover have "interleaving [[Le 0 (Some NULL)], [Le 0 (Some NULL)]] [Le 0 (Some NULL), Le 0 (Some NULL)]"
    by (rule interleaving.step [of 0], simp, simp, simp, rule interleaving.step [of 1], simp, simp, simp,
        rule interleaving.stopped, simp)
  ultimately have i1: "interleaving (map (thread_le1 0) [1, 1]) [Le 0 (Some NULL), Le 0 (Some NULL)]" by simp
  have i2: "interleaving (map (thread_le1000 0) []) []" by (rule interleaving.stopped) simp
  have d: "distinct (map of_nat [0..<1000] :: u64 list)"
    by (auto simp: distinct_map inj_on_def word_unat_eq_iff unat_of_nat take_bit_nat_eq_self)
  show ?thesis using th_le_queries_pass [OF i1 i2 _ d, of "[]"] by simp
qed

end
